(* ===== verification/Prelude.thy ===== *)
theory Prelude
  imports Main "HOL-Library.Word" "HOL-Library.List_Lexorder" "HOL-Library.Char_ord" "HOL-Library.Sublist"
begin

text \<open>
  What every component theory shares: the value types of the C++ sources, the errors a C++
  expression can end in, the operations of \<^verbatim>\<open>std::vector\<close>, \<^verbatim>\<open>std::to_string\<close> and truncating
  division that the sources use, the fact collections of the development, and four locales: tables of
  clients, streams of messages, invariants of step relations, and simulations between them.

  Conventions. A class of the sources is a record, a method \<^verbatim>\<open>C::m\<close> is a definition \<open>C_m\<close> that
  takes the object and returns the updated one.  An \<^verbatim>\<open>unordered_map\<close> or \<^verbatim>\<open>map\<close> is a HOL map; a
  container whose iteration order the code depends on is a list.  Whatever comes from outside the
  program (system calls, gRPC, protobuf, KDL) is an argument.
\<close>

named_theorems vec_simps \<open>evaluation of vector accesses\<close>
named_theorems preserve \<open>invariants kept by the operations\<close>

section \<open>Types and errors\<close>

type_synonym byte = "8 word"
type_synonym bytes = "byte list"

text \<open>
  The ways in which a C++ expression of the sources can fail instead of returning a value.
  Undefined behaviour is an error like an exception: nothing that follows it is modelled.
\<close>

datatype cpp_error =
    Out_Of_Range      \<comment> \<open>\<open>vector::operator[]\<close> past the end\<close>
  | Null_Deref        \<comment> \<open>member access through a null pointer\<close>
  | Null_String       \<comment> \<open>\<open>std::string\<close> built from a null \<open>char*\<close>\<close>
  | Negative_Size     \<comment> \<open>a negative length handed to a library call\<close>
  | Future_No_State   \<comment> \<open>\<open>future::get\<close> on a future without shared state\<close>
  | Broken_Promise    \<comment> \<open>\<open>future::get\<close> after its promise died unset\<close>
  | Promise_Satisfied \<comment> \<open>\<open>promise::set_value\<close> on a promise that is set\<close>
  | Future_Retrieved  \<comment> \<open>\<open>promise::get_future\<close> for the second time\<close>
  | Not_Joinable      \<comment> \<open>\<open>thread::join\<close> on a thread that was joined before\<close>
  | Bad_Downcast      \<comment> \<open>\<open>static_cast\<close> to a type the object does not have\<close>
  | Bad_Conversion    \<comment> \<open>a floating-point number converted to an integer type it does not fit\<close>
  | Process_Exit      \<comment> \<open>\<open>exit(-1)\<close>\<close>

type_synonym 'a result = "cpp_error + 'a"

fun bind_result :: "'a result \<Rightarrow> ('a \<Rightarrow> 'b result) \<Rightarrow> 'b result" where
  "bind_result (Inl e) f = Inl e"
| "bind_result (Inr x) f = f x"

lemma bind_result_Inr_iff:
  "bind_result r f = Inr y \<longleftrightarrow> (\<exists>x. r = Inr x \<and> f x = Inr y)"
  by (cases r) auto

lemma bind_result_Inl_iff:
  "bind_result r f = Inl e \<longleftrightarrow> r = Inl e \<or> (\<exists>x. r = Inr x \<and> f x = Inl e)"
  by (cases r) auto

lemma bind_result_cong [fundef_cong]:
  "r = r' \<Longrightarrow> (\<And>x. r' = Inr x \<Longrightarrow> f x = g x) \<Longrightarrow> bind_result r f = bind_result r' g"
  by (cases r') auto

lemma bind_result_Inr [simp]: "bind_result r Inr = r"
  by (cases r) auto

lemma bind_result_assoc: "bind_result (bind_result r f) g = bind_result r (\<lambda>x. bind_result (f x) g)"
  by (cases r) auto

section \<open>Vectors\<close>

definition vec_get :: "'a list \<Rightarrow> nat \<Rightarrow> 'a result" where
  "vec_get xs i = (if i < length xs then Inr (xs ! i) else Inl Out_Of_Range)"

definition vec_set :: "'a list \<Rightarrow> nat \<Rightarrow> 'a \<Rightarrow> 'a list result" where
  "vec_set xs i v = (if i < length xs then Inr (xs[i := v]) else Inl Out_Of_Range)"

text \<open>\<^verbatim>\<open>vector::resize(n)\<close>: cut to \<open>n\<close> elements or fill up with value-initialised ones.\<close>

definition vec_resize :: "nat \<Rightarrow> 'a \<Rightarrow> 'a list \<Rightarrow> 'a list" where
  "vec_resize n d xs = take n xs @ replicate (n - length xs) d"

lemma length_vec_resize [simp, vec_simps]: "length (vec_resize n d xs) = n"
  by (simp add: vec_resize_def)

lemma nth_vec_resize [vec_simps]:
  "i < n \<Longrightarrow> vec_resize n d xs ! i = (if i < length xs then xs ! i else d)"
  by (auto simp: vec_resize_def nth_append)

lemma vec_get_Inr [vec_simps]: "i < length xs \<Longrightarrow> vec_get xs i = Inr (xs ! i)"
  by (simp add: vec_get_def)

lemma vec_set_Inr [vec_simps]: "i < length xs \<Longrightarrow> vec_set xs i v = Inr (xs[i := v])"
  by (simp add: vec_set_def)

lemma vec_get_Inl [vec_simps]: "length xs \<le> i \<Longrightarrow> vec_get xs i = Inl Out_Of_Range"
  by (simp add: vec_get_def)

lemma vec_set_Inl [vec_simps]: "length xs \<le> i \<Longrightarrow> vec_set xs i v = Inl Out_Of_Range"
  by (simp add: vec_set_def)

lemma vec_get_eq_Inr_iff: "vec_get xs i = Inr v \<longleftrightarrow> i < length xs \<and> xs ! i = v"
  by (auto simp: vec_get_def)

lemma vec_set_eq_Inr_iff: "vec_set xs i v = Inr ys \<longleftrightarrow> i < length xs \<and> ys = xs[i := v]"
  by (auto simp: vec_set_def)

section \<open>Numbers and strings\<close>

text \<open>C++ integer division truncates towards zero.\<close>

definition trunc_div :: "int \<Rightarrow> int \<Rightarrow> int" where
  "trunc_div a b = sgn a * sgn b * (\<bar>a\<bar> div \<bar>b\<bar>)"

text \<open>\<^verbatim>\<open>std::to_string(int)\<close>: the decimal digits, with a sign for negative values.\<close>

definition digit_char :: "nat \<Rightarrow> char" where
  "digit_char d = char_of (d + 48)"

fun decimal :: "nat \<Rightarrow> string" where
  "decimal n = (if n < 10 then [digit_char n] else decimal (n div 10) @ [digit_char (n mod 10)])"

declare decimal.simps [simp del]

definition to_string :: "int \<Rightarrow> string" where
  "to_string i = (if i < 0 then CHR ''-'' # decimal (nat (- i)) else decimal (nat i))"

lemma of_char_digit_char: "d < 10 \<Longrightarrow> of_char (digit_char d) = d + 48"
  by (simp add: digit_char_def)

lemma decimal_not_Nil [simp]: "decimal n \<noteq> []" "[] \<noteq> decimal n"
  by (subst decimal.simps, simp)+

lemma digit_char_inject: "a < 10 \<Longrightarrow> b < 10 \<Longrightarrow> digit_char a = digit_char b \<longleftrightarrow> a = b"
  by (metis of_char_digit_char add_right_cancel)

lemma decimal_inject: "decimal m = decimal n \<longleftrightarrow> m = n"
proof
  show "decimal m = decimal n \<Longrightarrow> m = n"
  proof (induction m arbitrary: n rule: decimal.induct)
    case (1 m)
    have eq: "(if m < 10 then [digit_char m] else decimal (m div 10) @ [digit_char (m mod 10)]) =
        (if n < 10 then [digit_char n] else decimal (n div 10) @ [digit_char (n mod 10)])"
      using "1.prems" by (metis decimal.simps)
    show ?case
    proof (cases "m < 10 \<or> n < 10")
      case True
      with eq show ?thesis by (auto simp: digit_char_inject split: if_splits)
    next
      case False
      with eq have "decimal (m div 10) = decimal (n div 10)" "m mod 10 = n mod 10"
        by (auto simp: digit_char_inject)
      with False "1.IH" have "m div 10 = n div 10" "m mod 10 = n mod 10" by auto
      then show ?thesis by (metis div_mult_mod_eq)
    qed
  qed
qed simp

text \<open>Every character that a decimal holds is one of \<^verbatim>\<open>'0'\<close> to \<^verbatim>\<open>'9'\<close>.\<close>

lemma set_decimal: "c \<in> set (decimal n) \<Longrightarrow> 48 \<le> (of_char c :: nat) \<and> (of_char c :: nat) < 58"
proof (induction n rule: decimal.induct)
  case (1 n)
  have "n mod 10 < 10" by simp
  then show ?case
    using 1 by (subst (asm) (2) decimal.simps)
      (auto simp: of_char_digit_char split: if_splits)
qed

lemma colon_notin_to_string: "CHR '':'' \<notin> set (to_string i)"
  using set_decimal [of "CHR '':''"] by (auto simp: to_string_def)

lemma minus_neq_decimal: "CHR ''-'' # s \<noteq> decimal n" "decimal n \<noteq> CHR ''-'' # s"
proof -
  have "CHR ''-'' \<notin> set (decimal n)"
    using set_decimal [of "CHR ''-''" n] by auto
  then show "CHR ''-'' # s \<noteq> decimal n" "decimal n \<noteq> CHR ''-'' # s"
    by (metis list.set_intros(1))+
qed

lemma to_string_inject: "to_string i = to_string j \<longleftrightarrow> i = j"
  by (auto simp: to_string_def decimal_inject minus_neq_decimal)

text \<open>A separator that does not occur in the second part splits a string in one way only.\<close>

lemma colon_split_unique:
  assumes "xs @ c # ys = xs' @ c # ys'" and "c \<notin> set ys" and "c \<notin> set ys'"
  shows "xs = xs' \<and> ys = ys'"
proof -
  have "takeWhile (\<lambda>x. x \<noteq> c) (rev zs @ c # us) = rev zs" if "c \<notin> set zs" for zs us
    using that by (auto simp: takeWhile_append)
  moreover have "rev ys @ c # rev xs = rev ys' @ c # rev xs'"
    using arg_cong [OF assms(1), of rev] by simp
  ultimately have "ys = ys'" using assms(2,3) by (metis rev_rev_ident)
  with assms(1) show ?thesis by simp
qed

section \<open>Clubs of clients\<close>

text \<open>
  The interface between the discovery of nodes and what is kept per node: clients can be added for a
  node at an address, and deleted.  A provider shows which nodes it is connected to, and where; what
  a sequence of additions and deletions leaves is proved here once.
\<close>

datatype club_cmd = Add_Client string string | Delete_Client string

fun club_spec :: "club_cmd \<Rightarrow> (string \<rightharpoonup> string) \<Rightarrow> (string \<rightharpoonup> string)" where
  "club_spec (Add_Client node addr) m = m(node \<mapsto> addr)"
| "club_spec (Delete_Client node) m = m(node := None)"

locale client_club =
  fixes add_client :: "string \<Rightarrow> string \<Rightarrow> 'c \<Rightarrow> 'c"
    and delete_client :: "string \<Rightarrow> 'c \<Rightarrow> 'c"
    and peers_of :: "'c \<Rightarrow> (string \<rightharpoonup> string)"
    and club_inv :: "'c \<Rightarrow> bool"
  assumes peers_add: "peers_of (add_client node addr c) = (peers_of c)(node \<mapsto> addr)"
    and peers_delete: "peers_of (delete_client node c) = (peers_of c)(node := None)"
    and inv_add: "club_inv c \<Longrightarrow> club_inv (add_client node addr c)"
    and inv_delete: "club_inv c \<Longrightarrow> club_inv (delete_client node c)"
begin

fun club_exec :: "club_cmd \<Rightarrow> 'c \<Rightarrow> 'c" where
  "club_exec (Add_Client node addr) c = add_client node addr c"
| "club_exec (Delete_Client node) c = delete_client node c"

lemma peers_exec: "peers_of (club_exec cmd c) = club_spec cmd (peers_of c)"
  by (cases cmd) (simp_all add: peers_add peers_delete)

lemma peers_run: "peers_of (fold club_exec cmds c) = fold club_spec cmds (peers_of c)"
  by (induction cmds arbitrary: c) (simp_all add: peers_exec)

lemma inv_run: "club_inv c \<Longrightarrow> club_inv (fold club_exec cmds c)"
proof (induction cmds arbitrary: c)
  case (Cons cmd cmds)
  then show ?case by (cases cmd) (simp_all add: inv_add inv_delete)
qed simp

end

section \<open>Streams of messages\<close>

text \<open>
  The interface between the two ends of a byte stream: messages are encoded one after the other, and
  the receiving end decodes what has arrived into the complete messages and a rest.  \<open>laws\<close> are the laws of
  the library below, \<open>fits\<close> says which messages can be encoded.  The last law but one makes decoding
  independent of how the stream is cut.
\<close>

locale stream_codec =
  fixes encode :: "'m \<Rightarrow> bytes"
    and decode :: "bytes \<Rightarrow> ('m list \<times> bytes) option"
    and fits :: "'m \<Rightarrow> bool"
    and laws :: bool
  assumes decode_Nil: "decode [] = Some ([], [])"
    and decode_encode: "laws \<Longrightarrow> fits m \<Longrightarrow> decode (encode m @ bs) = map_option (\<lambda>(ms, r). (m # ms, r)) (decode bs)"
    and decode_append: "laws \<Longrightarrow> decode a = Some (ms, r) \<Longrightarrow>
      decode (a @ b) = map_option (\<lambda>(ms', r'). (ms @ ms', r')) (decode (r @ b))"
    and decode_prefix: "laws \<Longrightarrow> decode (a @ b) \<noteq> None \<Longrightarrow> decode a \<noteq> None"
begin

lemma decode_encodes:
  assumes "laws" and "\<forall>m\<in>set ms. fits m"
  shows "decode (concat (map encode ms) @ bs) = map_option (\<lambda>(ms', r). (ms @ ms', r)) (decode bs)"
  using assms(2)
proof (induction ms)
  case Nil
  show ?case by (cases "decode bs") auto
next
  case (Cons m ms)
  then show ?case using decode_encode [OF assms(1), of m] by (cases "decode bs") auto
qed

text \<open>The messages that a prefix of a stream completes are a prefix of the messages.\<close>

lemma decode_part:
  assumes "laws" and "\<forall>m\<in>set ms. fits m" and "bs @ rest = concat (map encode ms)"
  shows "\<exists>got r. decode bs = Some (got, r) \<and> prefix got ms \<and> (rest = [] \<longrightarrow> got = ms \<and> r = [])"
proof -
  have all: "decode (bs @ rest) = Some (ms, [])"
    using decode_encodes [OF assms(1,2), of "[]"] by (simp add: assms(3) decode_Nil)
  then obtain got r where part: "decode bs = Some (got, r)"
    using decode_prefix [OF assms(1), of bs rest] by fastforce
  with all decode_append [OF assms(1) part, of rest] obtain more where "ms = got @ more" by auto
  with part all show ?thesis by (auto simp: prefix_def)
qed

end

section \<open>Invariants of step relations\<close>

text \<open>
  A component that is driven by events or by several threads is a predicate of start states and a
  step relation.  The interface asks for an invariant that holds at the start and that every step
  keeps; what follows from it for whole runs is proved here once.
\<close>

locale invariant_system =
  fixes start :: "'s \<Rightarrow> bool"
    and step :: "'s \<Rightarrow> 's \<Rightarrow> bool"
    and inv :: "'s \<Rightarrow> bool"
  assumes start_inv: "start s \<Longrightarrow> inv s"
    and step_inv: "inv s \<Longrightarrow> step s t \<Longrightarrow> inv t"
begin

lemma steps_inv:
  assumes "step\<^sup>*\<^sup>* s t" and "inv s"
  shows "inv t"
  using assms by (induction rule: rtranclp_induct) (auto intro: step_inv)

lemma reachable_inv:
  assumes "start s" and "step\<^sup>*\<^sup>* s t"
  shows "inv t"
  using assms by (blast intro: steps_inv start_inv)

text \<open>A quantity that no step decreases, once the invariant holds, is monotone along runs.\<close>

lemma steps_mono:
  fixes m :: "'s \<Rightarrow> 'o::order"
  assumes mono: "\<And>s t. inv s \<Longrightarrow> step s t \<Longrightarrow> m s \<le> m t"
    and "inv s" and run: "step\<^sup>*\<^sup>* s t"
  shows "m s \<le> m t"
  using run
proof (induction rule: rtranclp_induct)
  case (step y z)
  with \<open>inv s\<close> have "inv y" by (blast intro: steps_inv)
  with step show ?case by (blast intro: mono order_trans)
qed simp

end

section \<open>Simulations\<close>

text \<open>
  A component that uses another one, or describes it in more detail, is a second step relation whose steps are
  matched by runs of the first.  The interface asks for the relation between the states, as the
  simulation diagrams for a start and for a step; whole runs are then matched, and the invariant of the
  abstract system becomes one of the detailed system.
\<close>

locale simulation = spec: invariant_system start step inv
  for start :: "'a \<Rightarrow> bool" and step :: "'a \<Rightarrow> 'a \<Rightarrow> bool" and inv :: "'a \<Rightarrow> bool" +
  fixes cstart :: "'c \<Rightarrow> bool"
    and cstep :: "'c \<Rightarrow> 'c \<Rightarrow> bool"
    and rel :: "'c \<Rightarrow> 'a \<Rightarrow> bool"
  assumes sim_start: "cstart c \<Longrightarrow> \<exists>a b. start a \<and> step\<^sup>*\<^sup>* a b \<and> rel c b"
    and sim_step: "rel c a \<Longrightarrow> inv a \<Longrightarrow> cstep c d \<Longrightarrow> \<exists>b. step\<^sup>*\<^sup>* a b \<and> rel d b"
begin

lemma steps_simulated:
  assumes "cstep\<^sup>*\<^sup>* c d" and "rel c a" and "inv a"
  shows "\<exists>b. step\<^sup>*\<^sup>* a b \<and> rel d b"
  using assms(1)
proof (induction rule: rtranclp_induct)
  case base
  from assms(2) show ?case by blast
next
  case (step d e)
  then obtain b where b: "step\<^sup>*\<^sup>* a b" "rel d b" by blast
  with assms(3) have "inv b" by (blast intro: spec.steps_inv)
  with sim_step [OF b(2) _ step.hyps(2)] b(1) show ?case by (meson rtranclp_trans)
qed

lemma run_simulated:
  assumes "cstart c" and "cstep\<^sup>*\<^sup>* c d"
  shows "\<exists>a b. start a \<and> step\<^sup>*\<^sup>* a b \<and> rel d b"
proof -
  from sim_start [OF assms(1)] obtain a b where a: "start a" "step\<^sup>*\<^sup>* a b" "rel c b" by blast
  with steps_simulated [OF assms(2) a(3)] show ?thesis by (meson rtranclp_trans spec.reachable_inv)
qed

sublocale impl: invariant_system cstart cstep "\<lambda>c. \<exists>a. rel c a \<and> inv a"
proof unfold_locales
  show "\<exists>a. rel c a \<and> inv a" if "cstart c" for c
    using sim_start [OF that] by (blast intro: spec.reachable_inv)
  show "\<exists>b. rel d b \<and> inv b" if "\<exists>a. rel c a \<and> inv a" and "cstep c d" for c d
    using that by (metis sim_step spec.steps_inv)
qed

end

end
