(* ===== verification/Process_Flag.thy ===== *)
theory Process_Flag
  imports Prelude
begin

text \<open>
  \<^verbatim>\<open>cpp/include/common.hpp\<close> and \<^verbatim>\<open>cpp/include/exception.hpp\<close>: the process-wide flag behind \<^verbatim>\<open>core::ok\<close> and the signal
  handlers.  The constructor of a node calls \<^verbatim>\<open>catcher_init\<close>.  The models of the other theories that take
  \<^verbatim>\<open>core::ok()\<close> as an observation may assume what is proved here: once false it stays false; and a write to a
  connection that the peer has closed is an error and not the end of the process.
\<close>

section \<open>The process\<close>

datatype signal = SIGPIPE | SIGINT

datatype handler = SIG_DFL | signalPipeHandler_at | signalInterruptHandler_at

record process =
  pr_core_ok :: bool
  pr_use_sim_time :: bool
  pr_catcher_called :: bool           \<comment> \<open>the \<open>once_flag\<close>\<close>
  pr_handler :: "signal \<Rightarrow> handler"
  pr_exited :: bool

definition process_init :: process where
  "process_init = \<lparr>pr_core_ok = True, pr_use_sim_time = False, pr_catcher_called = False, pr_handler = (\<lambda>s. SIG_DFL), pr_exited = False\<rparr>"

definition core_ok :: "process \<Rightarrow> bool" where
  "core_ok p = pr_core_ok p"

definition setAbort :: "process \<Rightarrow> process" where
  "setAbort p = p\<lparr>pr_core_ok := False\<rparr>"

definition signalInterruptHandler :: "process \<Rightarrow> process" where
  "signalInterruptHandler p = p\<lparr>pr_core_ok := False, pr_exited := True\<rparr>"

definition signalPipeHandler :: "process \<Rightarrow> process" where
  "signalPipeHandler p = p"

definition catcher_init :: "process \<Rightarrow> process" where
  "catcher_init p =
     (if pr_catcher_called p then p
      else p\<lparr>pr_catcher_called := True,
             pr_handler := (pr_handler p)(SIGPIPE := signalPipeHandler_at, SIGINT := signalInterruptHandler_at)\<rparr>)"

text \<open>What the system does with a signal; the default of both signals ends the process.\<close>

definition raise_signal :: "signal \<Rightarrow> process \<Rightarrow> process" where
  "raise_signal s p =
     (case pr_handler p s of
        SIG_DFL \<Rightarrow> p\<lparr>pr_exited := True\<rparr>
      | signalPipeHandler_at \<Rightarrow> signalPipeHandler p
      | signalInterruptHandler_at \<Rightarrow> signalInterruptHandler p)"

datatype process_event = Node_Created | Aborted_By_Code | Signal signal

fun exec_event :: "process_event \<Rightarrow> process \<Rightarrow> process" where
  "exec_event Node_Created p = catcher_init p"
| "exec_event Aborted_By_Code p = setAbort p"
| "exec_event (Signal s) p = raise_signal s p"

inductive process_step :: "process \<Rightarrow> process \<Rightarrow> bool" where
  "\<not> pr_exited p \<Longrightarrow> process_step p (exec_event e p)"

section \<open>What the flag and the handlers promise\<close>

definition process_inv :: "process \<Rightarrow> bool" where
  "process_inv p \<longleftrightarrow> (pr_catcher_called p \<longrightarrow>
     pr_handler p SIGPIPE = signalPipeHandler_at \<and> pr_handler p SIGINT = signalInterruptHandler_at \<and> (pr_exited p \<longrightarrow> \<not> core_ok p))"

lemmas process_defs = process_inv_def process_init_def core_ok_def setAbort_def signalInterruptHandler_def
  signalPipeHandler_def catcher_init_def raise_signal_def

lemma process_step_inv: "process_inv p \<Longrightarrow> process_step p q \<Longrightarrow> process_inv q"
proof (erule process_step.cases)
  fix p' e
  assume "process_inv p" "p = p'" "q = exec_event e p'" "\<not> pr_exited p'"
  moreover have "pr_handler p' s \<noteq> SIG_DFL" if "process_inv p'" "pr_catcher_called p'" for s
    using that by (cases s) (auto simp: process_inv_def)
  ultimately show "process_inv q" by (cases e) (auto simp: process_defs split: handler.splits)
qed

interpretation process: invariant_system "\<lambda>p. p = process_init" process_step process_inv
proof unfold_locales
  show "p = process_init \<Longrightarrow> process_inv p" for p by (simp add: process_defs)
qed (rule process_step_inv)

text \<open>The flag never becomes true again.\<close>

lemma core_ok_falls: "process_step\<^sup>*\<^sup>* p q \<Longrightarrow> core_ok q \<Longrightarrow> core_ok p"
proof (induction rule: converse_rtranclp_induct)
  case (step p r)
  from step(1) obtain e where "r = exec_event e p" by (auto elim: process_step.cases)
  with step(3,4) show ?case
    by (cases e) (auto simp: process_defs split: if_splits handler.splits)
qed

text \<open>
  After a node has been created, \<^verbatim>\<open>SIGPIPE\<close> changes nothing, creating further nodes changes nothing, and a process that
  has exited has cleared the flag.
\<close>

lemma node_survives_sigpipe:
  assumes "process_step\<^sup>*\<^sup>* process_init p" and "pr_catcher_called p"
  shows "raise_signal SIGPIPE p = p" and "catcher_init p = p" and "pr_exited p \<Longrightarrow> \<not> core_ok p"
  using process.reachable_inv [OF refl assms(1)] assms(2) by (simp_all add: process_inv_def raise_signal_def signalPipeHandler_def catcher_init_def)

end
