(* ===== verification/Serialization.thy ===== *)
theory Serialization
  imports Prelude
begin

text \<open>
  \<^verbatim>\<open>cpp/include/serialization.hpp\<close>: the length-prefixed framing of topic messages.

  Protobuf is not part of the repository: the message class \<^verbatim>\<open>T\<close> and the coded streams are the
  record \<open>protobuf\<close> of functions, an argument of every definition below, and \<open>protobuf_laws\<close> states
  what their documentation promises.  \<open>deframe\<close> is the specification of the receiving side: the
  complete messages at the front of a byte string and the bytes that are left.
\<close>

section \<open>The protobuf interface\<close>

record 'm protobuf =
  pb_full_name :: string
  pb_ByteSize :: "'m \<Rightarrow> nat"
  pb_SerializeToCodedStream :: "'m \<Rightarrow> bytes"
  pb_ParseFromArray :: "bytes \<Rightarrow> 'm option"
  pb_WriteLittleEndian32 :: "32 word \<Rightarrow> bytes"
  pb_ReadLittleEndian32 :: "bytes \<Rightarrow> 32 word"

text \<open>
  A message serialises to exactly \<^verbatim>\<open>ByteSize()\<close> bytes and parses back; a 32-bit integer takes four
  bytes, reads back, and reading it looks at no byte after the fourth.
\<close>

definition protobuf_laws :: "'m protobuf \<Rightarrow> bool" where
  "protobuf_laws pb \<longleftrightarrow>
     (\<forall>m. length (pb_SerializeToCodedStream pb m) = pb_ByteSize pb m) \<and>
     (\<forall>m. pb_ParseFromArray pb (pb_SerializeToCodedStream pb m) = Some m) \<and>
     (\<forall>w. length (pb_WriteLittleEndian32 pb w) = 4) \<and>
     (\<forall>w. pb_ReadLittleEndian32 pb (pb_WriteLittleEndian32 pb w) = w) \<and>
     (\<forall>bs cs. 4 \<le> length bs \<longrightarrow> pb_ReadLittleEndian32 pb (bs @ cs) = pb_ReadLittleEndian32 pb bs)"

section \<open>Sending: \<open>serialize\<close>\<close>

definition get_typeurl :: "'m protobuf \<Rightarrow> string" where
  "get_typeurl pb = ''type.googleapis.com/'' @ pb_full_name pb"

text \<open>
  The buffer has \<^verbatim>\<open>msg_size + 4\<close> zeroed bytes; the coded stream overwrites its front and cannot
  write past its end.
\<close>

definition serialize :: "'m protobuf \<Rightarrow> 'm \<Rightarrow> bytes" where
  "serialize pb msg =
     (let msg_size = pb_ByteSize pb msg;
          total_size = msg_size + 4;
          written = pb_WriteLittleEndian32 pb (of_nat msg_size) @ pb_SerializeToCodedStream pb msg
      in take total_size written @ replicate (total_size - length written) 0)"

section \<open>Receiving: \<open>SpecifiedDecoder\<close>\<close>

record ('m, 'f) SpecifiedDecoder =
  dec_msgs :: "'m list"
  dec_functions :: "'f list"

definition SpecifiedDecoder_add_callback ::
    "'f \<Rightarrow> ('m, 'f) SpecifiedDecoder \<Rightarrow> ('m, 'f) SpecifiedDecoder" where
  "SpecifiedDecoder_add_callback func d = d\<lparr>dec_functions := dec_functions d @ [func]\<rparr>"

text \<open>
  The loop of \<^verbatim>\<open>decode\<close>.  \<^verbatim>\<open>offset\<close> and \<^verbatim>\<open>buf_size\<close> are \<^verbatim>\<open>int\<close>, \<^verbatim>\<open>msg_size\<close> is \<^verbatim>\<open>uint32_t\<close>, so the
  bounds check \<^verbatim>\<open>offset + 4 + msg_size > buf_size\<close> is computed modulo \<open>2 ^ 32\<close>.  When the sum wraps,
  the check passes although the frame is longer than the buffer, and \<^verbatim>\<open>ParseFromArray\<close> gets the
  size as a negative \<^verbatim>\<open>int\<close>.
\<close>

function decode_loop ::
    "'m protobuf \<Rightarrow> bytes \<Rightarrow> int \<Rightarrow> int \<Rightarrow> int \<Rightarrow> 'm list \<Rightarrow> (int \<times> 'm list) result" where
  "decode_loop pb buf buf_size offset total_bytes_consumed ms =
     (if offset + 4 \<le> buf_size then
        (let msg_size = pb_ReadLittleEndian32 pb (drop (nat offset) buf) in
         if (word_of_int buf_size :: 32 word) < word_of_int (offset + 4) + msg_size
         then Inr (total_bytes_consumed, ms)
         else if buf_size < offset + 4 + uint msg_size then Inl Negative_Size
         else (case pb_ParseFromArray pb (take (unat msg_size) (drop (nat (offset + 4)) buf)) of
             None \<Rightarrow> Inr (0, ms)
           | Some msg \<Rightarrow>
               decode_loop pb buf buf_size (offset + 4 + uint msg_size)
                 (offset + 4 + uint msg_size) (ms @ [msg])))
      else Inr (total_bytes_consumed, ms))"
  by pat_completeness auto
termination
proof (relation "measure (\<lambda>(pb, buf, buf_size, offset, total, ms). nat (buf_size - offset))", goal_cases)
  case (2 pb buf buf_size offset total ms msg_size msg)
  then have "offset < buf_size" by simp
  moreover have "- 4 < uint msg_size"
    by (rule less_le_trans [OF _ uint_ge_0]) simp
  ultimately show ?case by simp
qed simp

declare decode_loop.simps [simp del]

definition SpecifiedDecoder_decode ::
    "'m protobuf \<Rightarrow> bytes \<Rightarrow> ('m, 'f) SpecifiedDecoder \<Rightarrow> (int \<times> ('m, 'f) SpecifiedDecoder) result" where
  "SpecifiedDecoder_decode pb buf d =
     bind_result (decode_loop pb buf (sint (of_nat (length buf) :: 32 word)) 0 0 (dec_msgs d))
       (\<lambda>(n, ms). Inr (n, d\<lparr>dec_msgs := ms\<rparr>))"

text \<open>
  \<^verbatim>\<open>handle\<close>: as many rounds as there are messages at the start; each round calls every callback on
  the front message and then drops it.  The calls made are returned as a list.
\<close>

fun handle_loop :: "nat \<Rightarrow> 'f list \<Rightarrow> 'm list \<Rightarrow> ('f \<times> 'm) list \<Rightarrow> 'm list \<times> ('f \<times> 'm) list" where
  "handle_loop 0 fs ms calls = (ms, calls)"
| "handle_loop (Suc i) fs [] calls = ([], calls)"
| "handle_loop (Suc i) fs (m # ms) calls = handle_loop i fs ms (calls @ map (\<lambda>f. (f, m)) fs)"

definition SpecifiedDecoder_handle ::
    "('m, 'f) SpecifiedDecoder \<Rightarrow> ('m, 'f) SpecifiedDecoder \<times> ('f \<times> 'm) list" where
  "SpecifiedDecoder_handle d =
     (let (ms, calls) = handle_loop (length (dec_msgs d)) (dec_functions d) (dec_msgs d) []
      in (d\<lparr>dec_msgs := ms\<rparr>, calls))"

definition deliver :: "'f list \<Rightarrow> 'm list \<Rightarrow> ('f \<times> 'm) list" where
  "deliver fs ms = concat (map (\<lambda>m. map (\<lambda>f. (f, m)) fs) ms)"

lemma handle_loop_deliver:
  "handle_loop (length ms) fs ms calls = ([], calls @ deliver fs ms)"
  by (induction ms arbitrary: calls) (auto simp: deliver_def)

lemma SpecifiedDecoder_handle_eq:
  "SpecifiedDecoder_handle d = (d\<lparr>dec_msgs := []\<rparr>, deliver (dec_functions d) (dec_msgs d))"
  by (simp add: SpecifiedDecoder_handle_def handle_loop_deliver)

lemma deliver_append: "deliver fs (ms @ ms') = deliver fs ms @ deliver fs ms'"
  by (simp add: deliver_def)

lemma deliver_Nil [simp]: "deliver fs [] = []"
  by (simp add: deliver_def)

section \<open>The specification \<open>deframe\<close>\<close>

text \<open>
  The complete frames at the front of a byte string, and the incomplete rest; \<open>None\<close> when a frame is
  malformed: its payload does not parse, or its length is not one that a protobuf message can have
  (two gigabytes or more).
\<close>

function deframe :: "'m protobuf \<Rightarrow> bytes \<Rightarrow> ('m list \<times> bytes) option" where
  "deframe pb bs =
     (if length bs < 4 then Some ([], bs)
      else (let n = unat (pb_ReadLittleEndian32 pb bs) in
        if 2 ^ 31 \<le> n then None
        else if length bs < 4 + n then Some ([], bs)
        else (case pb_ParseFromArray pb (take n (drop 4 bs)) of
            None \<Rightarrow> None
          | Some m \<Rightarrow> map_option (\<lambda>(ms, r). (m # ms, r)) (deframe pb (drop (4 + n) bs)))))"
  by pat_completeness auto
termination
  by (relation "measure (\<lambda>(pb, bs). length bs)") auto

declare deframe.simps [simp del]

lemma deframe_short: "length bs < 4 \<Longrightarrow> deframe pb bs = Some ([], bs)"
  by (simp add: deframe.simps)

lemma deframe_Some_cases:
  assumes "deframe pb bs = Some (ms, r)"
  obtains (incomplete) "ms = []" "r = bs"
      "length bs < 4 \<or> unat (pb_ReadLittleEndian32 pb bs) < 2 ^ 31 \<and>
         length bs < 4 + unat (pb_ReadLittleEndian32 pb bs)"
    | (frame) n m ms' where "n = unat (pb_ReadLittleEndian32 pb bs)" "4 + n \<le> length bs" "n < 2 ^ 31"
      "pb_ParseFromArray pb (take n (drop 4 bs)) = Some m"
      "deframe pb (drop (4 + n) bs) = Some (ms', r)" "ms = m # ms'"
  using assms
  by (subst (asm) deframe.simps)
    (auto simp: Let_def split: if_splits option.splits)

text \<open>What is left over is a suffix of the input in which no further frame is complete.\<close>

lemma deframe_rest:
  "deframe pb bs = Some (ms, r) \<Longrightarrow>
     length r \<le> length bs \<and> r = drop (length bs - length r) bs \<and> deframe pb r = Some ([], r)"
proof (induction pb bs arbitrary: ms rule: deframe.induct)
  case (1 pb bs)
  from "1.prems" show ?case
  proof (cases rule: deframe_Some_cases)
    case incomplete
    with "1.prems" show ?thesis by simp
  next
    case (frame n m ms')
    have IH: "length r \<le> length (drop (4 + n) bs) \<and>
        r = drop (length (drop (4 + n) bs) - length r) (drop (4 + n) bs) \<and> deframe pb r = Some ([], r)"
      by (rule "1.IH") (use frame in auto)
    then have "r = drop (length bs - (4 + n) - length r + (4 + n)) bs"
      by simp
    moreover have "length bs - (4 + n) - length r + (4 + n) = length bs - length r"
      using conjunct1 [OF IH] frame(2) by simp
    ultimately show ?thesis using IH by simp
  qed
qed

text \<open>
  Cutting the stream anywhere does not matter: decoding the first part and then its rest followed by
  the second part finds the same messages.
\<close>

lemma protobuf_read_append:
  "protobuf_laws pb \<Longrightarrow> 4 \<le> length bs \<Longrightarrow>
     pb_ReadLittleEndian32 pb (bs @ cs) = pb_ReadLittleEndian32 pb bs"
  by (simp add: protobuf_laws_def)

lemma deframe_frame:
  assumes "4 + unat (pb_ReadLittleEndian32 pb bs) \<le> length bs"
    and "unat (pb_ReadLittleEndian32 pb bs) < 2 ^ 31"
    and "pb_ParseFromArray pb (take (unat (pb_ReadLittleEndian32 pb bs)) (drop 4 bs)) = Some m"
  shows "deframe pb bs = map_option (\<lambda>(ms, r). (m # ms, r))
     (deframe pb (drop (4 + unat (pb_ReadLittleEndian32 pb bs)) bs))"
  using assms by (subst deframe.simps) (simp add: Let_def)

lemma deframe_append:
  assumes "protobuf_laws pb" and "deframe pb a = Some (ms, r)"
  shows "deframe pb (a @ b) = map_option (\<lambda>(ms', r'). (ms @ ms', r')) (deframe pb (r @ b))"
  using assms
proof (induction pb a arbitrary: ms rule: deframe.induct)
  case (1 pb a)
  from "1.prems"(2) show ?case
  proof (cases rule: deframe_Some_cases)
    case incomplete
    then show ?thesis by (cases "deframe pb (a @ b)") auto
  next
    case (frame n m ms')
    have read: "pb_ReadLittleEndian32 pb (a @ b) = pb_ReadLittleEndian32 pb a"
      using "1.prems"(1) frame(2) by (intro protobuf_read_append) auto
    have "deframe pb (drop (4 + n) a @ b) =
        map_option (\<lambda>(ms'', r'). (ms' @ ms'', r')) (deframe pb (r @ b))"
      by (rule "1.IH") (use frame "1.prems"(1) in auto)
    moreover have "deframe pb (a @ b) =
        map_option (\<lambda>(ms, r). (m # ms, r)) (deframe pb (drop (4 + n) a @ b))"
      using frame by (subst deframe_frame [where m = m]) (auto simp: read)
    ultimately show ?thesis
      using frame(6) by (cases "deframe pb (r @ b)") auto
  qed
qed

text \<open>Every prefix of a well-formed stream is well-formed.\<close>

lemma deframe_prefix:
  assumes "protobuf_laws pb" and "deframe pb (a @ b) \<noteq> None"
  shows "deframe pb a \<noteq> None"
  using assms(2)
proof (induction "length a" arbitrary: a rule: less_induct)
  case less
  define n where "n = unat (pb_ReadLittleEndian32 pb a)"
  show ?case
  proof (cases "length a < 4")
    case True
    then show ?thesis by (simp add: deframe_short)
  next
    case False
    have read: "pb_ReadLittleEndian32 pb (a @ b) = pb_ReadLittleEndian32 pb a"
      using assms(1) False by (intro protobuf_read_append) auto
    obtain ms r where ab: "deframe pb (a @ b) = Some (ms, r)" using less.prems by auto
    show ?thesis
    proof (cases "length a < 4 + n")
      case True
      have "n < 2 ^ 31"
        using ab False by (cases rule: deframe_Some_cases) (auto simp: read n_def)
      with True show ?thesis by (subst deframe.simps) (simp add: n_def)
    next
      case complete: False
      from ab show ?thesis
      proof (cases rule: deframe_Some_cases)
        case incomplete
        with complete False show ?thesis by (auto simp: read n_def)
      next
        case (frame n' m ms')
        then have n': "n' = n" by (simp add: n_def read)
        have drop_ab: "drop (4 + n) (a @ b) = drop (4 + n) a @ b"
          using complete by simp
        have IH: "deframe pb (drop (4 + n) a) \<noteq> None"
          by (rule less.hyps) (use complete False frame(5) in \<open>simp_all add: n' drop_ab\<close>)
        have "pb_ParseFromArray pb (take n (drop 4 a)) = Some m"
          using frame(4) complete by (simp add: n')
        with IH show ?thesis
          using deframe_frame [of pb a m] complete frame(3) by (simp add: n' n_def)
      qed
    qed
  qed
qed

section \<open>The code implements the specification\<close>

lemma serialize_eq:
  assumes "protobuf_laws pb"
  shows "serialize pb m = pb_WriteLittleEndian32 pb (of_nat (pb_ByteSize pb m)) @ pb_SerializeToCodedStream pb m"
  using assms by (simp add: serialize_def protobuf_laws_def)

lemma length_serialize: "protobuf_laws pb \<Longrightarrow> length (serialize pb m) = 4 + pb_ByteSize pb m"
  by (simp add: serialize_eq protobuf_laws_def)

lemma deframe_serialize:
  assumes "protobuf_laws pb" and "pb_ByteSize pb m < 2 ^ 31"
  shows "deframe pb (serialize pb m @ bs) = map_option (\<lambda>(ms, r). (m # ms, r)) (deframe pb bs)"
proof -
  let ?w = "pb_WriteLittleEndian32 pb (of_nat (pb_ByteSize pb m))"
  have len: "length ?w = 4" "length (pb_SerializeToCodedStream pb m) = pb_ByteSize pb m"
    using assms(1) by (auto simp: protobuf_laws_def)
  have "pb_ReadLittleEndian32 pb (?w @ pb_SerializeToCodedStream pb m @ bs) = of_nat (pb_ByteSize pb m)"
    using assms(1) by (simp add: protobuf_laws_def)
  then have read: "unat (pb_ReadLittleEndian32 pb (serialize pb m @ bs)) = pb_ByteSize pb m"
    using assms by (simp add: serialize_eq unat_of_nat)
  have parse: "pb_ParseFromArray pb (take (pb_ByteSize pb m) (drop 4 (serialize pb m @ bs))) = Some m"
    using assms(1) len by (simp add: serialize_eq protobuf_laws_def)
  have rest: "drop (4 + pb_ByteSize pb m) (serialize pb m @ bs) = bs"
    using assms(1) by (simp add: length_serialize)
  show ?thesis
    using deframe_frame [of pb "serialize pb m @ bs" m] assms parse rest
    by (simp add: read length_serialize)
qed

interpretation framing: stream_codec "serialize pb" "deframe pb" "\<lambda>m. pb_ByteSize pb m < 2 ^ 31" "protobuf_laws pb" for pb
proof unfold_locales
  show "deframe pb [] = Some ([], [])" by (simp add: deframe_short)
  show "deframe pb a \<noteq> None" if "protobuf_laws pb" "deframe pb (a @ b) \<noteq> None" for a b
    using that by (rule deframe_prefix)
qed (simp_all add: deframe_serialize deframe_append)

lemmas deframe_serialize_all = framing.decode_encodes

lemma bounds_check_no_wrap:
  fixes w :: "32 word"
  assumes "0 \<le> a" "a + uint w < 2 ^ 32" "0 \<le> s" "s < 2 ^ 32"
  shows "(word_of_int s :: 32 word) < word_of_int a + w \<longleftrightarrow> s < a + uint w"
proof -
  have "0 \<le> uint w" by simp
  then have "a < 2 ^ 32" using assms(2) by linarith
  then have "uint (word_of_int a + w) = a + uint w"
    using assms \<open>0 \<le> uint w\<close> by (simp add: uint_word_ariths unsigned_of_int take_bit_eq_mod)
  moreover have "uint (word_of_int s :: 32 word) = s"
    using assms by (simp add: unsigned_of_int take_bit_eq_mod)
  ultimately show ?thesis by (simp add: word_less_def)
qed

text \<open>On a well-formed buffer the loop finds exactly the messages of the specification.\<close>

lemma incomplete_check:
  assumes "length buf < 2 ^ 31" and "nat offset \<le> length buf" and "0 \<le> offset" and "4 \<le> length (drop (nat offset) buf)"
    and "unat w < 2 ^ 31" and "length (drop (nat offset) buf) < 4 + unat w"
  shows "(word_of_int (int (length buf)) :: 32 word) < word_of_int (offset + 4) + w"
proof -
  define k where "k = unat w"
  have "uint w = int k" by (simp add: k_def)
  moreover have "k < 2 ^ 31" "length (drop (nat offset) buf) < 4 + k" using assms(5,6) by (simp_all add: k_def)
  ultimately have "uint w < 2 ^ 31 \<and> int (length (drop (nat offset) buf)) < 4 + uint w" by simp
  with assms(1-4) show ?thesis by (subst bounds_check_no_wrap) auto
qed

lemma decode_loop_deframe:
  assumes "length buf < 2 ^ 31" and "nat offset \<le> length buf" and "0 \<le> offset"
    and "deframe pb (drop (nat offset) buf) = Some (ms', r)"
  shows "decode_loop pb buf (int (length buf)) offset offset ms =
    Inr (int (length buf - length r), ms @ ms')"
  using assms(2-)
proof (induction "length buf - nat offset" arbitrary: offset ms ms' rule: less_induct)
  case less
  let ?bs = "drop (nat offset) buf"
  from less.prems(3) show ?case
  proof (cases rule: deframe_Some_cases)
    case incomplete
    have "nat offset = length buf - length r"
      using incomplete(2) less.prems(1) by simp
    moreover have "(word_of_int (int (length buf)) :: 32 word) <
        word_of_int (offset + 4) + pb_ReadLittleEndian32 pb ?bs" if "4 \<le> length ?bs"
      using incomplete_check [OF assms(1) less.prems(1,2) that] incomplete(3) that by auto
    ultimately show ?thesis
      using less.prems(1,2) incomplete(1)
      by (subst decode_loop.simps) (auto simp: Let_def)
  next
    case (frame n m ms'')
    let ?w = "pb_ReadLittleEndian32 pb ?bs"
    have n: "uint ?w = int n" using frame(1) by simp
    have le: "nat offset + 4 + n \<le> length buf" using frame(2) less.prems(1) by simp
    have check: "\<not> (word_of_int (int (length buf)) :: 32 word) < word_of_int (offset + 4) + ?w"
      using le less.prems(2) frame(3) assms(1) n by (subst bounds_check_no_wrap) auto
    have IH: "decode_loop pb buf (int (length buf)) (offset + 4 + int n) (offset + 4 + int n) (ms @ [m]) =
        Inr (int (length buf - length r), (ms @ [m]) @ ms'')"
    proof (rule less.hyps)
      have "nat (offset + 4 + int n) = nat offset + 4 + n" using less.prems(2) by simp
      then show "length buf - nat (offset + 4 + int n) < length buf - nat offset"
        "nat (offset + 4 + int n) \<le> length buf"
        "deframe pb (drop (nat (offset + 4 + int n)) buf) = Some (ms'', r)"
        using le frame(5) by (simp_all add: add.commute add.left_commute)
    qed (use less.prems(2) in simp)
    have parse: "pb_ParseFromArray pb (take (unat ?w) (drop (nat (offset + 4)) buf)) = Some m"
      using frame(4) less.prems(2) by (simp add: frame(1) [symmetric] nat_add_distrib add.commute)
    have guards: "offset + 4 \<le> int (length buf)" "\<not> int (length buf) < offset + 4 + uint ?w"
      using le less.prems(2) n by auto
    show ?thesis
      by (subst decode_loop.simps)
        (simp only: Let_def guards check parse if_True if_False option.case,
         simp only: n IH frame(6) append_assoc append.simps)
  qed
qed

lemma sint_of_nat_small:
  assumes "n < 2 ^ 31"
  shows "sint (of_nat n :: 32 word) = int n"
proof -
  have "take_bit 32 n = n" using assms by (simp add: take_bit_nat_eq_self_iff)
  then show ?thesis using assms by (simp add: sint_uint unsigned_of_nat signed_take_bit_int_eq_self)
qed

lemma SpecifiedDecoder_decode_deframe:
  assumes "length buf < 2 ^ 31" and "deframe pb buf = Some (ms, r)"
  shows "SpecifiedDecoder_decode pb buf d =
    Inr (int (length buf - length r), d\<lparr>dec_msgs := dec_msgs d @ ms\<rparr>)"
  using decode_loop_deframe [of buf 0 pb ms r "dec_msgs d"] assms
  by (simp add: SpecifiedDecoder_decode_def sint_of_nat_small)

section \<open>A frame at a time\<close>

lemma decode_loop_serialize:
  assumes "protobuf_laws pb" "pb_ByteSize pb m < 2 ^ 31"
    and "length buf < 2 ^ 31" "buf = pre @ serialize pb m @ post"
  shows "decode_loop pb buf (int (length buf)) (int (length pre)) tot ms =
    decode_loop pb buf (int (length buf)) (int (length (pre @ serialize pb m)))
      (int (length (pre @ serialize pb m))) (ms @ [m])"
proof -
  let ?w = "pb_ReadLittleEndian32 pb (serialize pb m @ post)"
  let ?n = "pb_ByteSize pb m"
  have w: "?w = of_nat ?n"
    using assms(1) by (simp add: serialize_eq) (simp add: protobuf_laws_def)
  have uw: "unat ?w = ?n" "uint ?w = int ?n"
    using assms(2) by (simp_all add: w unat_of_nat unsigned_of_nat take_bit_nat_eq_self_iff)
  have len: "length buf = length pre + 4 + ?n + length post"
    using assms(1,4) by (simp add: length_serialize)
  have check: "\<not> (word_of_int (int (length buf)) :: 32 word) < word_of_int (int (length pre) + 4) + ?w"
    using len assms(2,3) uw by (subst bounds_check_no_wrap) auto
  have drops: "drop (nat (int (length pre))) buf = serialize pb m @ post"
    "take ?n (drop (nat (int (length pre) + 4)) buf) = pb_SerializeToCodedStream pb m"
    using assms(1,4) by (auto simp: serialize_eq protobuf_laws_def nat_add_distrib)
  have parse: "pb_ParseFromArray pb (pb_SerializeToCodedStream pb m) = Some m"
    using assms(1) by (simp add: protobuf_laws_def)
  have guards: "int (length pre) + 4 \<le> int (length buf)" "\<not> int (length buf) < int (length pre) + 4 + int ?n"
    using len by auto
  have off: "int (length pre) + 4 + int ?n = int (length (pre @ serialize pb m))"
    using assms(1) by (simp add: length_serialize)
  show ?thesis
    by (subst decode_loop.simps)
      (simp only: Let_def guards check drops parse uw if_True if_False option.case, simp only: off)
qed

lemma decode_loop_serialize_all:
  assumes "protobuf_laws pb" "\<forall>m\<in>set ms. pb_ByteSize pb m < 2 ^ 31"
    and "length buf < 2 ^ 31" "buf = pre @ concat (map (serialize pb) ms) @ post"
  shows "decode_loop pb buf (int (length buf)) (int (length pre)) (int (length pre)) acc =
    decode_loop pb buf (int (length buf)) (int (length (pre @ concat (map (serialize pb) ms))))
      (int (length (pre @ concat (map (serialize pb) ms)))) (acc @ ms)"
  using assms(2,4)
proof (induction ms arbitrary: pre acc)
  case (Cons m ms)
  then have "decode_loop pb buf (int (length buf)) (int (length pre)) (int (length pre)) acc =
      decode_loop pb buf (int (length buf)) (int (length (pre @ serialize pb m)))
        (int (length (pre @ serialize pb m))) (acc @ [m])"
    using assms(1,3) by (intro decode_loop_serialize [where post = "concat (map (serialize pb) ms) @ post"]) auto
  also have "\<dots> = decode_loop pb buf (int (length buf))
      (int (length ((pre @ serialize pb m) @ concat (map (serialize pb) ms))))
      (int (length ((pre @ serialize pb m) @ concat (map (serialize pb) ms)))) ((acc @ [m]) @ ms)"
    by (rule Cons.IH) (use Cons.prems in auto)
  finally show ?case by simp
qed simp

lemma decode_loop_unparsable:
  assumes "protobuf_laws pb" "length bad < 2 ^ 31" "pb_ParseFromArray pb bad = None"
    and "length buf < 2 ^ 31" "buf = pre @ pb_WriteLittleEndian32 pb (of_nat (length bad)) @ bad @ post"
  shows "decode_loop pb buf (int (length buf)) (int (length pre)) tot ms = Inr (0, ms)"
proof -
  let ?f = "pb_WriteLittleEndian32 pb (of_nat (length bad)) @ bad @ post"
  let ?w = "pb_ReadLittleEndian32 pb ?f"
  have w: "?w = of_nat (length bad)"
    using assms(1) by (simp add: protobuf_laws_def)
  have uw: "unat ?w = length bad" "uint ?w = int (length bad)"
    using assms(2) by (simp_all add: w unat_of_nat unsigned_of_nat take_bit_nat_eq_self_iff)
  have len: "length buf = length pre + 4 + length bad + length post"
    using assms(1,5) by (simp add: protobuf_laws_def)
  have check: "\<not> (word_of_int (int (length buf)) :: 32 word) < word_of_int (int (length pre) + 4) + ?w"
    using len assms(2,4) uw by (subst bounds_check_no_wrap) auto
  have drops: "drop (nat (int (length pre))) buf = ?f"
    "take (length bad) (drop (nat (int (length pre) + 4)) buf) = bad"
    using assms(1,5) by (auto simp: protobuf_laws_def nat_add_distrib)
  have guards: "int (length pre) + 4 \<le> int (length buf)"
    "\<not> int (length buf) < int (length pre) + 4 + int (length bad)"
    using len by auto
  show ?thesis
    by (subst decode_loop.simps)
      (simp only: Let_def guards check drops assms(3) uw if_True if_False option.case)
qed

section \<open>An instance of the interface for the witnesses\<close>

text \<open>
  Messages are byte strings, marked by a leading byte 1; lengths are little endian.
\<close>

definition example_write :: "32 word \<Rightarrow> bytes" where
  "example_write w = (let n = unat w in
     map of_nat [n mod 256, n div 256 mod 256, n div 65536 mod 256, n div 16777216 mod 256])"

definition example_read :: "bytes \<Rightarrow> 32 word" where
  "example_read bs =
     of_nat (unat (bs ! 0) + 256 * unat (bs ! 1) + 65536 * unat (bs ! 2) + 16777216 * unat (bs ! 3))"

definition example_parse :: "bytes \<Rightarrow> bytes option" where
  "example_parse bs = (case bs of b # m \<Rightarrow> if b = 1 then Some m else None | [] \<Rightarrow> None)"

definition example_pb :: "bytes protobuf" where
  "example_pb = \<lparr>pb_full_name = ''std_msgs.String'', pb_ByteSize = (\<lambda>m. Suc (length m)),
     pb_SerializeToCodedStream = (\<lambda>m. 1 # m), pb_ParseFromArray = example_parse,
     pb_WriteLittleEndian32 = example_write, pb_ReadLittleEndian32 = example_read\<rparr>"

lemma base256_digits:
  fixes n :: nat
  assumes "n < 2 ^ 32"
  shows "n mod 256 + 256 * (n div 256 mod 256) + 65536 * (n div 65536 mod 256) +
    16777216 * (n div 16777216 mod 256) = n"
proof -
  have step: "m = m mod 256 + 256 * (m div 256)" for m :: nat by simp
  define a b c where "a = n div 256" and "b = a div 256" and "c = b div 256"
  have divs: "n div 65536 = b" "n div 16777216 = c"
    by (simp_all add: a_def b_def c_def div_mult2_eq [symmetric])
  have "c < 256" using assms by (simp add: divs(2) [symmetric])
  then have "b = b mod 256 + 256 * (c mod 256)" using step [of b] by (simp add: c_def)
  then show ?thesis
    using step [of n] step [of a] by (simp add: divs a_def [symmetric] b_def [symmetric])
qed

lemma example_read_write: "example_read (example_write w @ bs) = w"
proof -
  let ?bs = "example_write w @ bs"
  have "unat w < 2 ^ 32" using unsigned_less [of w] by simp
  then have "unat (?bs ! 0) + 256 * unat (?bs ! 1) + 65536 * unat (?bs ! 2) + 16777216 * unat (?bs ! 3) = unat w"
    using base256_digits [of "unat w"] by (simp add: example_write_def Let_def unat_of_nat)
  then show ?thesis unfolding example_read_def by simp
qed

lemma protobuf_laws_example: "protobuf_laws example_pb"
proof -
  have "example_read (bs @ cs) = example_read bs" if "4 \<le> length bs" for bs cs
    using that by (auto simp: example_read_def nth_append)
  then show ?thesis
    using example_read_write [of _ "[]"]
    by (simp add: protobuf_laws_def example_pb_def example_parse_def) (simp add: example_write_def Let_def)
qed

section \<open>Properties\<close>

text \<open>
  C7: decoding inverts serialising.  A receive buffer that holds the frames of any messages followed
  by a proper prefix of one more frame is decoded to exactly those messages, queued in order behind
  what was queued before, and the number of bytes reported as consumed is exactly the length of the
  complete frames, so the incomplete frame stays in the buffer.
\<close>

theorem decode_roundtrip:
  assumes "protobuf_laws pb"
    and "\<forall>m\<in>set (next # ms). pb_ByteSize pb m < 2 ^ 31"
    and "serialize pb next = partial @ missing" and "missing \<noteq> []"
    and "length (concat (map (serialize pb) ms) @ partial) < 2 ^ 31"
  shows "SpecifiedDecoder_decode pb (concat (map (serialize pb) ms) @ partial) d =
    Inr (int (length (concat (map (serialize pb) ms))), d\<lparr>dec_msgs := dec_msgs d @ ms\<rparr>)"
proof -
  have "deframe pb (serialize pb next) = Some ([next], [])"
    using deframe_serialize [of pb "next" "[]"] assms(1,2) by (simp add: deframe_short)
  then obtain ms' r where part: "deframe pb partial = Some (ms', r)"
    using deframe_prefix [of pb partial missing] assms(1,3) by auto
  have "ms' = []"
  proof (rule ccontr)
    assume "ms' \<noteq> []"
    with part obtain n where n: "n = unat (pb_ReadLittleEndian32 pb partial)" "4 + n \<le> length partial"
      by (cases rule: deframe_Some_cases) auto
    have "pb_ReadLittleEndian32 pb partial = pb_ReadLittleEndian32 pb (serialize pb next)"
      using protobuf_read_append [of pb partial missing] assms(1,3) n(2) by simp
    also have "\<dots> = of_nat (pb_ByteSize pb next)"
      using assms(1) by (simp add: serialize_eq) (simp add: protobuf_laws_def)
    finally have "n = pb_ByteSize pb next" using n(1) assms(2) by (simp add: unat_of_nat)
    with n(2) have "length (serialize pb next) \<le> length partial"
      using assms(1) by (simp add: length_serialize)
    with assms(3,4) show False by simp
  qed
  moreover from part this have "r = partial"
    by (cases rule: deframe_Some_cases) auto
  ultimately have "deframe pb partial = Some ([], partial)"
    using part by simp
  then have "deframe pb (concat (map (serialize pb) ms) @ partial) = Some (ms, partial)"
    using deframe_serialize_all [of pb ms partial] assms(1,2) by simp
  from SpecifiedDecoder_decode_deframe [OF assms(5) this] show ?thesis by simp
qed

theorem decode_roundtrip_witness:
  "SpecifiedDecoder_decode example_pb (concat (map (serialize example_pb) [[7], [8, 9]]) @ [3, 0, 0, 0, 1])
      \<lparr>dec_msgs = [], dec_functions = [()]\<rparr> =
    Inr (13, \<lparr>dec_msgs = [[7], [8, 9]], dec_functions = [()]\<rparr>)"
proof -
  have laws: "protobuf_laws example_pb" by (rule protobuf_laws_example)
  have ser: "serialize example_pb [5, 6] = [3, 0, 0, 0, 1] @ [5, 6]"
    by (simp add: serialize_eq [OF laws]) (simp add: example_pb_def example_write_def)
  have len: "length (serialize example_pb m) = 5 + length m" for m
    by (simp add: length_serialize [OF laws]) (simp add: example_pb_def)
  have size: "pb_ByteSize example_pb m = Suc (length m)" for m by (simp add: example_pb_def)
  show ?thesis
    using decode_roundtrip [OF laws _ ser, of "[[7], [8, 9]]"
        "\<lparr>dec_msgs = [], dec_functions = [()]\<rparr>"]
    by (simp add: len size)
qed

text \<open>
  C39: the bounds check of \<^verbatim>\<open>decode\<close> wraps around.  A header whose length field is one of the four
  largest 32-bit values passes the check \<^verbatim>\<open>offset + 4 + msg_size > buf_size\<close> although no buffer can
  hold the frame, and the message parser is called with a negative size.
\<close>

theorem decode_length_wraps:
  assumes "4 \<le> length buf" and "length buf < 2 ^ 31"
    and "2 ^ 32 - 4 \<le> uint (pb_ReadLittleEndian32 pb buf)"
  shows "SpecifiedDecoder_decode pb buf d = Inl Negative_Size"
proof -
  let ?w = "pb_ReadLittleEndian32 pb buf"
  have "uint ?w < 2 ^ LENGTH(32)" by (rule unsigned_less)
  then have lt: "uint ?w < 2 ^ 32" by simp
  have "uint (4 + ?w) = uint ?w - (2 ^ 32 - 4)"
  proof -
    have "uint (4 + ?w) = (4 + uint ?w) mod 2 ^ 32"
      by (simp add: uint_word_ariths)
    also have "\<dots> = (4 + uint ?w - 2 ^ 32) mod 2 ^ 32"
      by (metis minus_mod_self2)
    also have "\<dots> = 4 + uint ?w - 2 ^ 32"
      using lt assms(3) by (intro mod_pos_pos_trivial) auto
    finally show ?thesis by simp
  qed
  moreover have "take_bit 32 (length buf) = length buf"
    using assms(2) by (simp add: take_bit_nat_eq_self_iff)
  ultimately have "\<not> (of_nat (length buf) :: 32 word) < 4 + ?w"
    using lt assms(1) by (simp add: word_less_def unsigned_of_nat)
  with assms show ?thesis
    by (simp add: SpecifiedDecoder_decode_def sint_of_nat_small decode_loop.simps Let_def)
qed

theorem decode_length_wraps_witness:
  "SpecifiedDecoder_decode example_pb [255, 255, 255, 255, 1] \<lparr>dec_msgs = [], dec_functions = [()]\<rparr> =
    Inl Negative_Size"
  by (rule decode_length_wraps) (simp_all add: example_pb_def example_read_def)

text \<open>
  One malformed frame makes \<^verbatim>\<open>decode\<close> report zero consumed bytes although the messages in front
  of it have been queued.  They stay in the receive buffer as well, so the next call queues (and the
  callbacks then get) the same messages again.
\<close>

lemma decode_malformed_requeues:
  assumes "protobuf_laws pb" and "\<forall>m\<in>set ms. pb_ByteSize pb m < 2 ^ 31"
    and "length bad < 2 ^ 31" and "pb_ParseFromArray pb bad = None"
    and "buf = concat (map (serialize pb) ms) @ pb_WriteLittleEndian32 pb (of_nat (length bad)) @ bad @ post"
    and "length buf < 2 ^ 31"
  shows "SpecifiedDecoder_decode pb buf d = Inr (0, d\<lparr>dec_msgs := dec_msgs d @ ms\<rparr>)"
proof -
  have "decode_loop pb buf (int (length buf)) 0 0 (dec_msgs d) = Inr (0, dec_msgs d @ ms)"
    using decode_loop_serialize_all [of pb ms buf "[]" _ "dec_msgs d"]
      decode_loop_unparsable [of pb bad buf "concat (map (serialize pb) ms)" post] assms
    by simp
  then show ?thesis
    by (simp only: SpecifiedDecoder_decode_def sint_of_nat_small [OF assms(6)] bind_result.simps prod.case)
qed

end
