(* ===== verification/Registrar.thy ===== *)
theory Registrar
  imports Prelude
begin

text \<open>
  \<^verbatim>\<open>cpp/src/Registrar.cpp\<close>: the node registry of the core server.

  The registrar keeps a log of operations, one slot per version number: a slot holds an \<open>ADD\<close> or a
  \<open>DELETE\<close> entry, and an \<open>ADD\<close> entry that has been revoked carries the version of its \<open>DELETE\<close> entry.
  \<^verbatim>\<open>list(from, to)\<close> sends a range of the log and leaves out pairs that cancel each other.
  The theory holds the operations, the invariant of the log, what a subscriber that replays the
  replies knows, and the concurrent \<^verbatim>\<open>Regist\<close> handler as a step relation over its atomic sections.

  Version numbers are \<open>nat\<close>: the code's \<^verbatim>\<open>atomic<int>\<close> agrees with it for the first \<open>2 ^ 31\<close>
  registrations and deregistrations of a server's life.
\<close>

section \<open>Data\<close>

datatype operation_code = ADD | DELETE

record NodeInfo =
  ni_ip :: string
  ni_port :: int
  ni_name :: string
  ni_code :: operation_code

record RegistrationReply =
  rr_version :: "32 word"
  rr_operation_cmd :: "NodeInfo list"

record Registrar =
  reg_version :: nat
  reg_nodes :: "(int \<times> NodeInfo) list"
  reg_alive_nodes :: "string set"

text \<open>A value-initialised \<^verbatim>\<open>pair<int, NodeInfo>\<close>, with which \<^verbatim>\<open>resize\<close> fills the log.\<close>

definition empty_slot :: "int \<times> NodeInfo" where
  "empty_slot = (0, \<lparr>ni_ip = '''', ni_port = 0, ni_name = '''', ni_code = ADD\<rparr>)"

definition Registrar_init :: Registrar where
  "Registrar_init = \<lparr>reg_version = 0, reg_nodes = [], reg_alive_nodes = {}\<rparr>"

section \<open>Operations\<close>

definition Registrar_find_exist_node :: "string \<Rightarrow> Registrar \<Rightarrow> bool" where
  "Registrar_find_exist_node name r \<longleftrightarrow> name \<in> reg_alive_nodes r"

text \<open>\<^verbatim>\<open>registrar.version++\<close>, the argument that \<^verbatim>\<open>Regist\<close> passes to \<^verbatim>\<open>registration\<close>.\<close>

definition Registrar_next_version :: "Registrar \<Rightarrow> nat \<times> Registrar" where
  "Registrar_next_version r = (reg_version r, r\<lparr>reg_version := reg_version r + 1\<rparr>)"

definition grow :: "nat \<Rightarrow> (int \<times> NodeInfo) list \<Rightarrow> (int \<times> NodeInfo) list" where
  "grow v ns = (if length ns \<le> v then vec_resize (v + 1000) empty_slot ns else ns)"

definition Registrar_registration :: "nat \<Rightarrow> string \<Rightarrow> string \<Rightarrow> int \<Rightarrow> Registrar \<Rightarrow> nat \<times> Registrar" where
  "Registrar_registration fixed_version name ip port r =
     (let info = \<lparr>ni_ip = ip, ni_port = port, ni_name = name, ni_code = ADD\<rparr>;
          ns = grow fixed_version (reg_nodes r)
      in (fixed_version, r\<lparr>reg_nodes := ns[fixed_version := (- 1, info)],
            reg_alive_nodes := insert name (reg_alive_nodes r)\<rparr>))"

text \<open>The part of \<^verbatim>\<open>deregistration\<close> that holds the lock, once \<^verbatim>\<open>deleted_version\<close> is drawn.\<close>

definition Registrar_deregistration_store :: "nat \<Rightarrow> nat \<Rightarrow> Registrar \<Rightarrow> Registrar result" where
  "Registrar_deregistration_store regist_version deleted_version r =
     (let ns = grow deleted_version (reg_nodes r) in
      bind_result (vec_get ns regist_version) (\<lambda>slot.
        let info = (snd slot)\<lparr>ni_code := DELETE\<rparr>;
            ns1 = ns[deleted_version := (- 1, info)];
            ns2 = ns1[regist_version := (int deleted_version, snd (ns1 ! regist_version))]
        in Inr (r\<lparr>reg_nodes := ns2,
              reg_alive_nodes := reg_alive_nodes r - {ni_name info}\<rparr>)))"

definition Registrar_deregistration :: "nat \<Rightarrow> Registrar \<Rightarrow> Registrar result" where
  "Registrar_deregistration regist_version r =
     (let (deleted_version, r') = Registrar_next_version r
      in Registrar_deregistration_store regist_version deleted_version r')"

text \<open>The loop of \<^verbatim>\<open>list\<close> over the versions \<open>is\<close>, with the set \<^verbatim>\<open>skip_version\<close> and the reply so far.\<close>

fun list_loop ::
    "(int \<times> NodeInfo) list \<Rightarrow> nat list \<Rightarrow> int set \<Rightarrow> NodeInfo list \<Rightarrow> NodeInfo list result" where
  "list_loop ns [] skip_version cmds = Inr cmds"
| "list_loop ns (i # is) skip_version cmds =
     (if int i \<in> skip_version then list_loop ns is skip_version cmds
      else bind_result (vec_get ns i) (\<lambda>slot.
        if 0 < fst slot then list_loop ns is (insert (fst slot) skip_version) cmds
        else list_loop ns is skip_version (cmds @ [snd slot])))"

definition Registrar_list :: "nat \<Rightarrow> int \<Rightarrow> Registrar \<Rightarrow> RegistrationReply result" where
  "Registrar_list from to r =
     bind_result (list_loop (reg_nodes r) [from..<nat (to + 1)] {} [])
       (\<lambda>cmds. Inr \<lparr>rr_version = word_of_int to, rr_operation_cmd = cmds\<rparr>)"

section \<open>The invariant of the log\<close>

definition slot_ok :: "Registrar \<Rightarrow> nat \<Rightarrow> bool" where
  "slot_ok r i \<longleftrightarrow>
     (case reg_nodes r ! i of (f, info) \<Rightarrow>
        (case ni_code info of
           ADD \<Rightarrow> f = - 1 \<or> (int i < f \<and> f < int (reg_version r) \<and>
                    reg_nodes r ! nat f = (- 1, info\<lparr>ni_code := DELETE\<rparr>))
         | DELETE \<Rightarrow> f = - 1 \<and> (\<exists>j<i. fst (reg_nodes r ! j) = int i)))"

text \<open>\<open>live r i\<close>: version \<open>i\<close> is a registration that has not been revoked.\<close>

definition live :: "Registrar \<Rightarrow> nat \<Rightarrow> bool" where
  "live r i \<longleftrightarrow> i < reg_version r \<and> fst (reg_nodes r ! i) = - 1 \<and> ni_code (snd (reg_nodes r ! i)) = ADD"

abbreviation name_at :: "Registrar \<Rightarrow> nat \<Rightarrow> string" where
  "name_at r i \<equiv> ni_name (snd (reg_nodes r ! i))"

definition log_wf :: "Registrar \<Rightarrow> bool" where
  "log_wf r \<longleftrightarrow>
     reg_version r \<le> length (reg_nodes r) \<and>
     (\<forall>i<reg_version r. slot_ok r i) \<and>
     (\<forall>i j. i < j \<longrightarrow> j < reg_version r \<longrightarrow> ni_code (snd (reg_nodes r ! i)) = ADD \<longrightarrow>
        ni_code (snd (reg_nodes r ! j)) = ADD \<longrightarrow> name_at r i = name_at r j \<longrightarrow>
        0 < fst (reg_nodes r ! i) \<and> fst (reg_nodes r ! i) < int j) \<and>
     reg_alive_nodes r = name_at r ` {i. live r i}"

lemma length_grow: "v < length (grow v ns)" "length ns \<le> length (grow v ns)"
  by (auto simp: grow_def)

lemma nth_grow: "i < length ns \<Longrightarrow> grow v ns ! i = ns ! i"
  by (auto simp: grow_def nth_vec_resize)

lemma log_wf_init: "log_wf Registrar_init"
  by (simp add: log_wf_def Registrar_init_def live_def)

text \<open>What the components of \<open>log_wf\<close> give for single versions.\<close>

lemma log_wfD:
  assumes "log_wf r"
  shows "reg_version r \<le> length (reg_nodes r)"
    and "i < reg_version r \<Longrightarrow> slot_ok r i"
    and "i < j \<Longrightarrow> j < reg_version r \<Longrightarrow> ni_code (snd (reg_nodes r ! i)) = ADD \<Longrightarrow>
      ni_code (snd (reg_nodes r ! j)) = ADD \<Longrightarrow> name_at r i = name_at r j \<Longrightarrow>
      0 < fst (reg_nodes r ! i) \<and> fst (reg_nodes r ! i) < int j"
    and "reg_alive_nodes r = name_at r ` {i. live r i}"
  using assms by (auto simp: log_wf_def)

lemma slot_ok_ADD:
  assumes "slot_ok r i" and "ni_code (snd (reg_nodes r ! i)) = ADD"
  shows "fst (reg_nodes r ! i) = - 1 \<or>
    int i < fst (reg_nodes r ! i) \<and> fst (reg_nodes r ! i) < int (reg_version r) \<and>
    reg_nodes r ! nat (fst (reg_nodes r ! i)) = (- 1, (snd (reg_nodes r ! i))\<lparr>ni_code := DELETE\<rparr>)"
  using assms by (auto simp: slot_ok_def split: prod.splits)

lemma slot_ok_DELETE:
  assumes "slot_ok r i" and "ni_code (snd (reg_nodes r ! i)) = DELETE"
  shows "fst (reg_nodes r ! i) = - 1" and "\<exists>j<i. fst (reg_nodes r ! j) = int i"
  using assms by (auto simp: slot_ok_def split: prod.splits)

text \<open>A version that revokes another one belongs to a \<open>DELETE\<close> entry and to no other registration.\<close>

lemma revoked_slot:
  assumes "log_wf r" and "i < reg_version r" and "0 < fst (reg_nodes r ! i)"
  shows "ni_code (snd (reg_nodes r ! i)) = ADD" and "int i < fst (reg_nodes r ! i)"
    and "nat (fst (reg_nodes r ! i)) < reg_version r"
    and "reg_nodes r ! nat (fst (reg_nodes r ! i)) = (- 1, (snd (reg_nodes r ! i))\<lparr>ni_code := DELETE\<rparr>)"
proof -
  have ok: "slot_ok r i" using assms log_wfD(2) by blast
  show add: "ni_code (snd (reg_nodes r ! i)) = ADD"
    using slot_ok_DELETE(1) [OF ok] assms(3) by (cases "ni_code (snd (reg_nodes r ! i))") auto
  show "int i < fst (reg_nodes r ! i)" "nat (fst (reg_nodes r ! i)) < reg_version r"
    "reg_nodes r ! nat (fst (reg_nodes r ! i)) = (- 1, (snd (reg_nodes r ! i))\<lparr>ni_code := DELETE\<rparr>)"
    using slot_ok_ADD [OF ok add] assms(3) by (auto simp: nat_less_iff)
qed

lemma revoker_unique:
  assumes "log_wf r" and "i < reg_version r" and "j < reg_version r"
    and "0 < fst (reg_nodes r ! i)" and "fst (reg_nodes r ! i) = fst (reg_nodes r ! j)"
  shows "i = j"
proof (rule ccontr)
  assume "i \<noteq> j"
  note i = revoked_slot [OF assms(1,2,4)]
  note j = revoked_slot [OF assms(1,3)]
  have fj: "0 < fst (reg_nodes r ! j)" using assms(4,5) by simp
  have "name_at r i = name_at r j" using i(4) j(4) [OF fj] assms(5)
    by (metis NodeInfo.select_convs(3) NodeInfo.surjective NodeInfo.update_convs(4) snd_conv)
  then show False
    using \<open>i \<noteq> j\<close> i(1,2) j(1,2) [OF fj] assms(2,3,5) log_wfD(3) [OF assms(1), of i j]
      log_wfD(3) [OF assms(1), of j i]
    by (cases i j rule: linorder_cases) auto
qed

text \<open>Two unrevoked registrations have different names.\<close>

lemma live_unique:
  assumes "log_wf r" and "live r i" and "live r j" and "name_at r i = name_at r j"
  shows "i = j"
  using assms log_wfD(3) [OF assms(1), of i j] log_wfD(3) [OF assms(1), of j i]
  by (cases i j rule: linorder_cases) (auto simp: live_def)

subsection \<open>Registration\<close>

definition Registrar_admit :: "string \<Rightarrow> string \<Rightarrow> int \<Rightarrow> Registrar \<Rightarrow> nat \<times> Registrar" where
  "Registrar_admit name ip port r =
     (let (v, r') = Registrar_next_version r in Registrar_registration v name ip port r')"

lemma Registrar_admit_simps:
  "fst (Registrar_admit name ip port r) = reg_version r"
  "reg_version (snd (Registrar_admit name ip port r)) = Suc (reg_version r)"
  "reg_alive_nodes (snd (Registrar_admit name ip port r)) = insert name (reg_alive_nodes r)"
  by (simp_all add: Registrar_admit_def Registrar_next_version_def Registrar_registration_def Let_def)

lemma nodes_admit:
  assumes "reg_version r \<le> length (reg_nodes r)" and "i \<le> reg_version r"
  shows "reg_nodes (snd (Registrar_admit name ip port r)) ! i =
    (if i = reg_version r then (- 1, \<lparr>ni_ip = ip, ni_port = port, ni_name = name, ni_code = ADD\<rparr>)
     else reg_nodes r ! i)"
  using assms length_grow [where v = "reg_version r" and ns = "reg_nodes r"]
  by (auto simp: Registrar_admit_def Registrar_next_version_def Registrar_registration_def Let_def
      nth_list_update nth_grow)

lemma length_nodes_admit: "reg_version r < length (reg_nodes (snd (Registrar_admit name ip port r)))"
  using length_grow [where v = "reg_version r" and ns = "reg_nodes r"]
  by (simp add: Registrar_admit_def Registrar_next_version_def Registrar_registration_def Let_def)

lemma live_admit:
  assumes "reg_version r \<le> length (reg_nodes r)"
  shows "live (snd (Registrar_admit name ip port r)) i \<longleftrightarrow> i = reg_version r \<or> live r i"
  using assms by (auto simp: live_def Registrar_admit_simps nodes_admit less_Suc_eq_le)

lemma slot_ok_admit:
  assumes wf: "log_wf r" and "i < Suc (reg_version r)"
  shows "slot_ok (snd (Registrar_admit name ip port r)) i"
proof (cases "i = reg_version r")
  case True
  then show ?thesis by (simp add: slot_ok_def nodes_admit [OF log_wfD(1) [OF wf]])
next
  case False
  note nodes = nodes_admit [OF log_wfD(1) [OF wf], of _ name ip port]
  from False assms(2) have i: "i < reg_version r" by simp
  show ?thesis
  proof (cases "ni_code (snd (reg_nodes r ! i))")
    case ADD
    with slot_ok_ADD [OF log_wfD(2) [OF wf i] ADD] i show ?thesis
      by (auto simp: slot_ok_def nodes Registrar_admit_simps nat_le_iff split: prod.splits)
  next
    case DELETE
    with slot_ok_DELETE [OF log_wfD(2) [OF wf i] DELETE] i show ?thesis
      by (fastforce simp: slot_ok_def nodes Registrar_admit_simps split: prod.splits)
  qed
qed

lemma log_wf_admit [preserve]:
  assumes wf: "log_wf r" and free: "\<not> Registrar_find_exist_node name r"
  shows "log_wf (snd (Registrar_admit name ip port r))" (is "log_wf ?r")
proof -
  let ?v = "reg_version r"
  note len = log_wfD(1) [OF wf]
  note nodes = nodes_admit [OF len, of _ name ip port]
  have "slot_ok ?r i" if "i < reg_version ?r" for i using slot_ok_admit [OF wf] that by (simp add: Registrar_admit_simps)
  moreover have "0 < fst (reg_nodes ?r ! i) \<and> fst (reg_nodes ?r ! i) < int j"
    if "i < j" "j < reg_version ?r" "ni_code (snd (reg_nodes ?r ! i)) = ADD"
      "ni_code (snd (reg_nodes ?r ! j)) = ADD" "name_at ?r i = name_at ?r j" for i j
  proof (cases "j = ?v")
    case True
    with that have i: "i < ?v" "ni_code (snd (reg_nodes r ! i)) = ADD" "name_at r i = name"
      by (auto simp: nodes Registrar_admit_simps)
    with free log_wfD(4) [OF wf] have "\<not> live r i"
      by (auto simp: Registrar_find_exist_node_def)
    with i slot_ok_ADD [OF log_wfD(2) [OF wf i(1)] i(2)] True show ?thesis
      by (auto simp: live_def nodes)
  next
    case False
    with that log_wfD(3) [OF wf, of i j] show ?thesis
      by (auto simp: nodes Registrar_admit_simps)
  qed
  moreover have "reg_alive_nodes ?r = name_at ?r ` {i. live ?r i}"
  proof -
    have "{i. live ?r i} = insert ?v {i. live r i}" by (auto simp: live_admit [OF len])
    moreover have "name_at ?r ` {i. live r i} = name_at r ` {i. live r i}"
      by (rule image_cong) (auto simp: nodes live_def)
    ultimately show ?thesis
      using log_wfD(4) [OF wf] by (simp add: Registrar_admit_simps nodes)
  qed
  ultimately show ?thesis
    using length_nodes_admit [of r name ip port] by (auto simp: log_wf_def Registrar_admit_simps)
qed

subsection \<open>Deregistration\<close>

text \<open>A registered version can always be deregistered; the log changes in two slots.\<close>

lemma Registrar_deregistration_defined:
  assumes "reg_version r \<le> length (reg_nodes r)" and "v < reg_version r"
  shows "\<exists>r'. Registrar_deregistration v r = Inr r'"
  using assms length_grow [where v = "reg_version r" and ns = "reg_nodes r"]
  by (auto simp: Registrar_deregistration_def Registrar_next_version_def
      Registrar_deregistration_store_def Let_def vec_get_def)

lemma Registrar_deregistration_Inr:
  assumes len: "reg_version r \<le> length (reg_nodes r)" and v: "v < reg_version r"
    and dereg: "Registrar_deregistration v r = Inr r'"
  shows "reg_version r' = Suc (reg_version r)"
    and "reg_version r < length (reg_nodes r')"
    and "i \<le> reg_version r \<Longrightarrow> reg_nodes r' ! i =
      (if i = reg_version r then (- 1, (snd (reg_nodes r ! v))\<lparr>ni_code := DELETE\<rparr>)
       else if i = v then (int (reg_version r), snd (reg_nodes r ! v)) else reg_nodes r ! i)"
    and "reg_alive_nodes r' = reg_alive_nodes r - {name_at r v}"
proof -
  let ?d = "reg_version r"
  let ?ns1 = "(grow ?d (reg_nodes r))[?d := (- 1, (snd (reg_nodes r ! v))\<lparr>ni_code := DELETE\<rparr>)]"
  note gl = length_grow [where v = ?d and ns = "reg_nodes r"]
  have "vec_get (grow ?d (reg_nodes r)) v = Inr (reg_nodes r ! v)"
    using gl v len by (simp add: vec_get_def nth_grow)
  then have r': "r' = r\<lparr>reg_version := Suc ?d, reg_nodes := ?ns1[v := (int ?d, snd (?ns1 ! v))],
      reg_alive_nodes := reg_alive_nodes r - {name_at r v}\<rparr>"
    using dereg by (simp add: Registrar_deregistration_def Registrar_next_version_def
        Registrar_deregistration_store_def Let_def)
  show "reg_version r' = Suc ?d" "?d < length (reg_nodes r')"
    "reg_alive_nodes r' = reg_alive_nodes r - {name_at r v}"
    using gl by (simp_all add: r')
  show "reg_nodes r' ! i =
      (if i = reg_version r then (- 1, (snd (reg_nodes r ! v))\<lparr>ni_code := DELETE\<rparr>)
       else if i = v then (int (reg_version r), snd (reg_nodes r ! v)) else reg_nodes r ! i)"
    if "i \<le> ?d"
    using that v len gl by (auto simp: r' nth_list_update nth_grow)
qed

lemma live_deregistration:
  assumes "reg_version r \<le> length (reg_nodes r)" and "v < reg_version r"
    and "Registrar_deregistration v r = Inr r'"
  shows "live r' i \<longleftrightarrow> live r i \<and> i \<noteq> v"
proof (cases "i \<le> reg_version r")
  case True
  then show ?thesis
    using assms(2) by (simp add: live_def Registrar_deregistration_Inr [OF assms])
next
  case False
  then show ?thesis by (simp add: live_def Registrar_deregistration_Inr(1) [OF assms])
qed

text \<open>A revocation keeps every slot in order: the new one, the revoked one and the others.\<close>

lemma slot_ok_deregistration:
  assumes wf: "log_wf r" and live: "live r v" and dereg: "Registrar_deregistration v r = Inr r'" and i: "i < reg_version r'"
  shows "slot_ok r' i"
proof -
  let ?d = "reg_version r"
  have v: "v < ?d" and fv: "fst (reg_nodes r ! v) = - 1" and add: "ni_code (snd (reg_nodes r ! v)) = ADD"
    using live by (auto simp: live_def)
  note facts = Registrar_deregistration_Inr [OF log_wfD(1) [OF wf] v dereg]
  note ver = facts(1) and nodes = facts(3)
  have "i < Suc ?d" using i ver by simp
  then consider "i = ?d" | "i = v" | "i < ?d" "i \<noteq> v" using less_Suc_eq by blast
  then show ?thesis
  proof cases
    case 1
    then show ?thesis using v by (auto simp: slot_ok_def nodes intro: exI [of _ v])
  next
    case 2
    then show ?thesis using v add by (simp add: slot_ok_def nodes ver)
  next
    case 3
    show ?thesis
    proof (cases "ni_code (snd (reg_nodes r ! i))")
      case ADD
      have "nat (fst (reg_nodes r ! i)) \<noteq> v" if "0 < fst (reg_nodes r ! i)"
        using revoked_slot(4) [OF wf 3(1) that] add by auto
      with slot_ok_ADD [OF log_wfD(2) [OF wf 3(1)] ADD] ADD 3 show ?thesis
        by (auto simp: slot_ok_def nodes ver nat_le_iff split: prod.splits)
    next
      case DELETE
      obtain j where j: "j < i" "fst (reg_nodes r ! j) = int i"
        using slot_ok_DELETE [OF log_wfD(2) [OF wf 3(1)] DELETE] by auto
      have "j \<noteq> v" using j(2) fv by auto
      then have "fst (reg_nodes r' ! j) = int i" using j 3 by (simp add: nodes)
      moreover have "reg_nodes r' ! i = reg_nodes r ! i" using 3 by (simp add: nodes)
      ultimately show ?thesis
        using slot_ok_DELETE(1) [OF log_wfD(2) [OF wf 3(1)] DELETE] DELETE j(1)
        by (auto simp: slot_ok_def split: prod.splits)
    qed
  qed
qed

lemma log_wf_deregistration [preserve]:
  assumes wf: "log_wf r" and live: "live r v" and dereg: "Registrar_deregistration v r = Inr r'"
  shows "log_wf r'"
proof -
  let ?d = "reg_version r"
  have v: "v < ?d" and fv: "fst (reg_nodes r ! v) = - 1"
    using live by (auto simp: live_def)
  note facts = Registrar_deregistration_Inr [OF log_wfD(1) [OF wf] v dereg]
  note ver = facts(1) and len' = facts(2) and nodes = facts(3) and alive = facts(4)
  have "slot_ok r' i" if "i < reg_version r'" for i by (rule slot_ok_deregistration [OF wf live dereg that])
  moreover have "0 < fst (reg_nodes r' ! i) \<and> fst (reg_nodes r' ! i) < int j"
    if "i < j" "j < reg_version r'" "ni_code (snd (reg_nodes r' ! i)) = ADD"
      "ni_code (snd (reg_nodes r' ! j)) = ADD" "name_at r' i = name_at r' j" for i j
  proof -
    have "j \<noteq> ?d" using that(4) by (auto simp: nodes)
    then have j: "j < ?d" using that(2) ver by simp
    have same: "snd (reg_nodes r' ! k) = snd (reg_nodes r ! k)" if "k < ?d" for k
      using that by (simp add: nodes)
    have "0 < fst (reg_nodes r ! i) \<and> fst (reg_nodes r ! i) < int j"
      using log_wfD(3) [OF wf that(1) j] that(1,3,4,5) j by (simp add: same)
    moreover then have "i \<noteq> v" using fv by auto
    ultimately show ?thesis using that(1) j by (simp add: nodes)
  qed
  moreover have "reg_alive_nodes r' = name_at r' ` {i. live r' i}"
  proof -
    have "{i. live r' i} = {i. live r i} - {v}"
      using live_deregistration [OF log_wfD(1) [OF wf] v dereg] by auto
    moreover have "name_at r' ` ({i. live r i} - {v}) = name_at r ` ({i. live r i} - {v})"
      by (rule image_cong) (auto simp: nodes live_def)
    moreover have "name_at r ` ({i. live r i} - {v}) = name_at r ` {i. live r i} - name_at r ` {v}"
      by (rule inj_on_image_set_diff [where C = "{i. live r i}"])
        (use live live_unique [OF wf] in \<open>auto intro!: inj_onI\<close>)
    ultimately show ?thesis using log_wfD(4) [OF wf] alive by simp
  qed
  ultimately show ?thesis using ver len' by (auto simp: log_wf_def)
qed

section \<open>What \<open>list\<close> sends\<close>

text \<open>
  On a well-formed log, version \<open>i\<close> of the range is sent exactly when it is not a revoked
  registration and not the revocation of a registration of the same range.
\<close>

definition sent :: "(int \<times> NodeInfo) list \<Rightarrow> nat \<Rightarrow> nat \<Rightarrow> bool" where
  "sent ns from i \<longleftrightarrow> fst (ns ! i) \<le> 0 \<and> (\<forall>j\<in>{from..<i}. fst (ns ! j) \<noteq> int i)"

lemma list_loop_sent:
  assumes "\<And>i. i < n \<Longrightarrow> 0 < fst (ns ! i) \<Longrightarrow> \<forall>j<i. fst (ns ! j) \<noteq> int i"
    and "n \<le> length ns" and "from \<le> k" and "k \<le> n"
    and "skip = (\<lambda>j. fst (ns ! j)) ` {j \<in> {from..<k}. 0 < fst (ns ! j)}"
  shows "list_loop ns [k..<n] skip cmds =
    Inr (cmds @ map (\<lambda>i. snd (ns ! i)) (filter (sent ns from) [k..<n]))"
  using assms(3-)
proof (induction "n - k" arbitrary: k skip cmds)
  case 0
  then show ?case by simp
next
  case (Suc m)
  then have k: "k < n" by simp
  have upt: "[k..<n] = k # [Suc k..<n]" using k by (simp add: upt_rec)
  have "{j \<in> {from..<Suc k}. 0 < fst (ns ! j)} =
      (if 0 < fst (ns ! k) then insert k {j \<in> {from..<k}. 0 < fst (ns ! j)}
       else {j \<in> {from..<k}. 0 < fst (ns ! j)})"
    using Suc.prems(1) by (auto simp: less_Suc_eq)
  then have skip': "(\<lambda>j. fst (ns ! j)) ` {j \<in> {from..<Suc k}. 0 < fst (ns ! j)} =
      (if 0 < fst (ns ! k) then insert (fst (ns ! k)) skip else skip)"
    by (simp add: Suc.prems(3))
  have IH: "list_loop ns [Suc k..<n] (if 0 < fst (ns ! k) then insert (fst (ns ! k)) skip else skip) c =
      Inr (c @ map (\<lambda>i. snd (ns ! i)) (filter (sent ns from) [Suc k..<n]))" for c
    by (rule Suc.hyps(1)) (use Suc.hyps(2) Suc.prems(1) k skip' in simp_all)
  have inskip: "int k \<in> skip \<longleftrightarrow> (\<exists>j\<in>{from..<k}. fst (ns ! j) = int k)"
    unfolding Suc.prems(3) image_iff by force
  have get: "vec_get ns k = Inr (ns ! k)" using k assms(2) by (simp add: vec_get_def)
  show ?case
  proof (cases "0 < fst (ns ! k)")
    case True
    with assms(1) k have "int k \<notin> skip" by (auto simp: inskip)
    with True IH get show ?thesis by (simp add: upt sent_def)
  next
    case False
    with IH get show ?thesis by (auto simp: upt sent_def inskip)
  qed
qed

lemma Registrar_list_sent:
  assumes "log_wf r" and "from \<le> n" and "n \<le> reg_version r"
  shows "Registrar_list from (int n - 1) r =
    Inr \<lparr>rr_version = word_of_int (int n - 1),
      rr_operation_cmd = map (\<lambda>i. snd (reg_nodes r ! i)) (filter (sent (reg_nodes r) from) [from..<n])\<rparr>"
proof -
  have "fst (reg_nodes r ! j) \<noteq> int i" if "i < n" "0 < fst (reg_nodes r ! i)" "j < i" for i j
  proof
    assume eq: "fst (reg_nodes r ! j) = int i"
    have "0 < fst (reg_nodes r ! j)" using eq that by simp
    from revoked_slot(4) [OF assms(1) _ this] eq that assms(3) show False by simp
  qed
  then have "list_loop (reg_nodes r) [from..<n] {} [] =
      Inr ([] @ map (\<lambda>i. snd (reg_nodes r ! i)) (filter (sent (reg_nodes r) from) [from..<n]))"
    using assms log_wfD(1) [OF assms(1)] by (intro list_loop_sent) auto
  then show ?thesis by (simp add: Registrar_list_def)
qed

section \<open>What a subscriber knows\<close>

text \<open>
  The peers that a subscriber knows after carrying out commands in order, as \<^verbatim>\<open>NodeRegist\<close> does: an
  \<open>ADD\<close> sets the address of a name, a \<open>DELETE\<close> forgets it.
\<close>

type_synonym peers = "string \<rightharpoonup> string \<times> int"

definition replay_cmd :: "NodeInfo \<Rightarrow> peers \<Rightarrow> peers" where
  "replay_cmd info m =
     (if ni_code info = ADD then m(ni_name info \<mapsto> (ni_ip info, ni_port info)) else m(ni_name info := None))"

definition replay :: "NodeInfo list \<Rightarrow> peers \<Rightarrow> peers" where
  "replay cmds m = fold replay_cmd cmds m"

abbreviation addr_at :: "Registrar \<Rightarrow> nat \<Rightarrow> string \<times> int" where
  "addr_at r i \<equiv> (ni_ip (snd (reg_nodes r ! i)), ni_port (snd (reg_nodes r ! i)))"

text \<open>
  The peers of a subscriber that has replayed the versions below \<open>c\<close>, its own version \<open>own\<close> left out:
  whatever it knows is a registration that was not revoked below \<open>c\<close>, and it knows every one that is
  not revoked at all.  Registrations from \<open>b\<close> on are known only when they are not revoked.
\<close>

definition known :: "Registrar \<Rightarrow> nat \<Rightarrow> nat \<Rightarrow> nat \<Rightarrow> string \<Rightarrow> string \<times> int \<Rightarrow> bool" where
  "known r own b c n a \<longleftrightarrow>
     (\<exists>i<c. i \<noteq> own \<and> ni_code (snd (reg_nodes r ! i)) = ADD \<and> name_at r i = n \<and> addr_at r i = a \<and>
        (fst (reg_nodes r ! i) = - 1 \<or> i < b \<and> int c \<le> fst (reg_nodes r ! i)))"

definition knows :: "Registrar \<Rightarrow> nat \<Rightarrow> nat \<Rightarrow> nat \<Rightarrow> peers \<Rightarrow> bool" where
  "knows r own b c m \<longleftrightarrow>
     (\<forall>n a. m n = Some a \<longrightarrow> known r own b c n a) \<and>
     (\<forall>i<c. i \<noteq> own \<longrightarrow> live r i \<longrightarrow> m (name_at r i) = Some (addr_at r i))"

lemma knows_weaken: "knows r own b c m \<Longrightarrow> c \<le> b' \<Longrightarrow> knows r own b' c m"
  unfolding knows_def known_def by (meson order_less_le_trans)

lemma knows_empty: "knows r own 0 0 Map.empty"
  by (simp add: knows_def)

lemma knows_skip_own:
  assumes "knows r own 0 own m"
  shows "knows r own (Suc own) (Suc own) m"
proof -
  have "known r own (Suc own) (Suc own) n a" if "known r own 0 own n a" for n a
    using that unfolding known_def by (metis less_SucI not_less_zero)
  with assms show ?thesis by (auto simp: knows_def less_Suc_eq)
qed

lemma known_Suc:
  assumes "known r own b c n a"
    and "\<And>i. i < c \<Longrightarrow> i < b \<Longrightarrow> name_at r i = n \<Longrightarrow> fst (reg_nodes r ! i) \<noteq> int c"
  shows "known r own b (Suc c) n a"
proof -
  from assms(1) obtain i where i: "i < c" "i \<noteq> own" "ni_code (snd (reg_nodes r ! i)) = ADD"
      "name_at r i = n" "addr_at r i = a"
      "fst (reg_nodes r ! i) = - 1 \<or> i < b \<and> int c \<le> fst (reg_nodes r ! i)"
    unfolding known_def by blast
  then have "fst (reg_nodes r ! i) = - 1 \<or> i < b \<and> int (Suc c) \<le> fst (reg_nodes r ! i)"
    using assms(2) [of i] by auto
  with i show ?thesis unfolding known_def by (intro exI [of _ i]) simp
qed

text \<open>One more version of the log: a registration that stays, one that is revoked, a revocation.\<close>

lemma knows_Suc_live:
  assumes wf: "log_wf r" and c: "live r c" "c \<noteq> own" and m: "knows r own b c m"
    and no_rev: "\<And>i. i < c \<Longrightarrow> fst (reg_nodes r ! i) \<noteq> int c"
  shows "knows r own b (Suc c) (m(name_at r c \<mapsto> addr_at r c))"
proof -
  have "known r own b (Suc c) n a" if "(m(name_at r c \<mapsto> addr_at r c)) n = Some a" for n a
  proof (cases "n = name_at r c")
    case True
    with that c show ?thesis by (auto simp: known_def live_def)
  next
    case False
    with that m have "known r own b c n a" unfolding knows_def by (metis fun_upd_other)
    then show ?thesis by (rule known_Suc) (rule no_rev)
  qed
  moreover have "(m(name_at r c \<mapsto> addr_at r c)) (name_at r i) = Some (addr_at r i)"
    if "i < Suc c" "i \<noteq> own" "live r i" for i
  proof (cases "i = c")
    case False
    then have "name_at r i \<noteq> name_at r c" using live_unique [OF wf that(3) c(1)] by auto
    with False m that show ?thesis by (simp add: knows_def)
  qed simp
  ultimately show ?thesis by (simp add: knows_def)
qed

lemma knows_Suc_same:
  assumes "\<not> live r c" and "knows r own b c m"
    and "\<And>i. i < c \<Longrightarrow> i < b \<Longrightarrow> fst (reg_nodes r ! i) \<noteq> int c"
  shows "knows r own b (Suc c) m"
  using assms known_Suc [of r own b c] by (auto simp: knows_def less_Suc_eq)

lemma knows_Suc_revoke:
  assumes m: "knows r own b c m" and dead: "\<not> live r c"
    and gone: "\<And>i. i < c \<Longrightarrow> name_at r i = n0 \<Longrightarrow> \<not> live r i"
    and rev: "\<And>i. i < c \<Longrightarrow> fst (reg_nodes r ! i) = int c \<Longrightarrow> name_at r i = n0"
  shows "knows r own b (Suc c) (m(n0 := None))"
proof -
  have "known r own b (Suc c) n a" if "(m(n0 := None)) n = Some a" for n a
  proof -
    from that have "n \<noteq> n0" "m n = Some a" by (auto split: if_splits)
    with m have "known r own b c n a" unfolding knows_def by blast
    then show ?thesis by (rule known_Suc) (use rev \<open>n \<noteq> n0\<close> in auto)
  qed
  moreover have "(m(n0 := None)) (name_at r i) = Some (addr_at r i)"
    if "i < Suc c" "i \<noteq> own" "live r i" for i
  proof -
    have "i < c" using that dead by (auto simp: less_Suc_eq)
    with that gone m show ?thesis by (auto simp: knows_def)
  qed
  ultimately show ?thesis by (simp add: knows_def)
qed

lemma revoking_slot:
  assumes "log_wf r" and "i < c" "c < reg_version r" "fst (reg_nodes r ! i) = int c"
  shows "ni_code (snd (reg_nodes r ! c)) = DELETE" and "name_at r i = name_at r c"
  using revoked_slot(4) [OF assms(1), of i] assms(2-) by auto

lemma knows_Suc_DELETE:
  assumes wf: "log_wf r" and c: "c < reg_version r" and m: "knows r own b c m" and del: "ni_code (snd (reg_nodes r ! c)) = DELETE"
  shows "knows r own b (Suc c)
    (if sent (reg_nodes r) b c then replay_cmd (snd (reg_nodes r ! c)) m else m)"
proof -
  have dead: "\<not> live r c" using del by (simp add: live_def)
  obtain j where j: "j < c" "fst (reg_nodes r ! j) = int c"
    using slot_ok_DELETE(2) [OF log_wfD(2) [OF wf c] del] by auto
  have addj: "ni_code (snd (reg_nodes r ! j)) = ADD" and namej: "name_at r j = name_at r c"
    using revoked_slot(1) [OF wf, of j] revoking_slot(2) [OF wf j(1) c j(2)] j c by auto
  have gone: "\<not> live r i" if "i < c" "name_at r i = name_at r c" for i
    using that j addj namej c log_wfD(3) [OF wf, of i j] log_wfD(3) [OF wf, of j i]
    by (cases i j rule: linorder_cases) (auto simp: live_def)
  have uniq: "i = j" if "i < c" "fst (reg_nodes r ! i) = int c" for i
    using revoker_unique [OF wf, of i j] that j c by auto
  show ?thesis
  proof (cases "sent (reg_nodes r) b c")
    case True
    then show ?thesis
      using knows_Suc_revoke [OF m dead gone] revoking_slot(2) [OF wf _ c] del by (simp add: replay_cmd_def)
  next
    case False
    then have "b \<le> j"
      using slot_ok_DELETE(1) [OF log_wfD(2) [OF wf c] del] uniq by (fastforce simp: sent_def)
    then have "fst (reg_nodes r ! i) \<noteq> int c" if "i < c" "i < b" for i using uniq that by force
    with False show ?thesis using knows_Suc_same [OF dead m] by simp
  qed
qed

lemma knows_Suc:
  assumes wf: "log_wf r" and c: "c < reg_version r" "b \<le> c" "c \<noteq> own" and m: "knows r own b c m"
  shows "knows r own b (Suc c)
    (if sent (reg_nodes r) b c then replay_cmd (snd (reg_nodes r ! c)) m else m)"
proof (cases "ni_code (snd (reg_nodes r ! c))")
  case ADD
  then have no_rev: "fst (reg_nodes r ! i) \<noteq> int c" if "i < c" for i using revoking_slot(1) [OF wf that c(1)] by auto
  show ?thesis
  proof (cases "fst (reg_nodes r ! c) = - 1")
    case True
    moreover from this have "live r c" using ADD c(1) by (simp add: live_def)
    ultimately show ?thesis
      using knows_Suc_live [OF wf _ c(3) m] no_rev ADD by (auto simp: sent_def replay_cmd_def)
  next
    case False
    then show ?thesis
      using slot_ok_ADD [OF log_wfD(2) [OF wf c(1)] ADD] knows_Suc_same [OF _ m] no_rev
      by (auto simp: sent_def live_def)
  qed
qed (rule knows_Suc_DELETE [OF wf c(1) m])

lemma knows_replay:
  assumes wf: "log_wf r" and "b \<le> n" "n \<le> reg_version r" "own \<notin> {b..<n}" and m: "knows r own b b m"
  shows "knows r own b n (replay (map (\<lambda>i. snd (reg_nodes r ! i)) (filter (sent (reg_nodes r) b) [b..<n])) m)"
  using assms(2-4)
proof (induction n rule: dec_induct)
  case base
  then show ?case using m by (simp add: replay_def)
next
  case (step c)
  then have "knows r own b c (replay (map (\<lambda>i. snd (reg_nodes r ! i)) (filter (sent (reg_nodes r) b) [b..<c])) m)"
    by auto
  from knows_Suc [OF wf _ _ _ this] step show ?case
    by (auto simp: replay_def split: if_splits)
qed

text \<open>Knowledge survives what happens to the log afterwards.\<close>

lemma knows_admit:
  assumes "log_wf r" and "c \<le> reg_version r" and "knows r own c c m"
  shows "knows (snd (Registrar_admit name ip port r)) own c c m"
proof -
  have nodes: "reg_nodes (snd (Registrar_admit name ip port r)) ! i = reg_nodes r ! i" if "i < c" for i
    using that assms(2) nodes_admit [OF log_wfD(1) [OF assms(1)], of i] by simp
  moreover have "live (snd (Registrar_admit name ip port r)) i = live r i" if "i < c" for i
    using that assms(2) by (simp add: live_admit [OF log_wfD(1) [OF assms(1)]])
  ultimately show ?thesis
    using assms(3) by (simp add: knows_def known_def cong: conj_cong)
qed

lemma knows_deregistration:
  assumes wf: "log_wf r" and c: "c \<le> reg_version r" and m: "knows r own c c m"
    and v: "live r v" and dereg: "Registrar_deregistration v r = Inr r'"
  shows "knows r' own c c m"
proof -
  have v': "v < reg_version r" using v by (simp add: live_def)
  note facts = Registrar_deregistration_Inr [OF log_wfD(1) [OF wf] v' dereg]
  have info: "snd (reg_nodes r' ! i) = snd (reg_nodes r ! i)" if "i < c" for i
    using that c by (simp add: facts(3))
  have rev: "fst (reg_nodes r' ! i) = - 1 \<or> int c \<le> fst (reg_nodes r' ! i)"
    if "fst (reg_nodes r ! i) = - 1 \<or> int c \<le> fst (reg_nodes r ! i)" "i < c" for i
    using that c by (auto simp: facts(3))
  have "known r' own c c n a" if "known r own c c n a" for n a
    using that rev unfolding known_def by (metis info)
  moreover have "live r i" if "live r' i" for i
    using that live_deregistration [OF log_wfD(1) [OF wf] v' dereg] by simp
  ultimately show ?thesis using m by (simp add: knows_def info)
qed

definition alive_peers :: "Registrar \<Rightarrow> nat \<Rightarrow> peers" where
  "alive_peers r own =
     map_of (map (\<lambda>i. (name_at r i, addr_at r i)) (filter (\<lambda>i. i \<noteq> own \<and> live r i) [0..<reg_version r]))"

lemma alive_peers_iff:
  assumes "log_wf r"
  shows "alive_peers r own n = Some a \<longleftrightarrow> (\<exists>i. i \<noteq> own \<and> live r i \<and> name_at r i = n \<and> addr_at r i = a)"
proof -
  let ?is = "filter (\<lambda>i. i \<noteq> own \<and> live r i) [0..<reg_version r]"
  have "inj_on (name_at r) (set ?is)"
    using live_unique [OF assms] by (auto intro: inj_onI)
  then have "distinct (map fst (map (\<lambda>i. (name_at r i, addr_at r i)) ?is))"
    by (simp add: comp_def distinct_map)
  then show ?thesis
    unfolding alive_peers_def by (subst map_of_eq_Some_iff) (auto simp: live_def)
qed

text \<open>Up to date, a subscriber knows exactly the other live nodes.\<close>

lemma knows_all:
  assumes "log_wf r" and "knows r own (reg_version r) (reg_version r) m"
  shows "m = alive_peers r own"
proof
  fix n
  have "m n = Some a \<longleftrightarrow> alive_peers r own n = Some a" for a
  proof
    assume "m n = Some a"
    with assms(2) have "known r own (reg_version r) (reg_version r) n a"
      unfolding knows_def by blast
    then show "alive_peers r own n = Some a"
      using slot_ok_ADD log_wfD(2) [OF assms(1)]
      unfolding alive_peers_iff [OF assms(1)] known_def live_def by fastforce
  next
    assume "alive_peers r own n = Some a"
    then show "m n = Some a"
      using assms(2) by (auto simp: alive_peers_iff [OF assms(1)] knows_def live_def)
  qed
  then show "m n = alive_peers r own n"
    by (metis not_None_eq)
qed

section \<open>A subscriber's session\<close>

text \<open>
  The registrar's histories when the sections of \<^verbatim>\<open>Regist\<close> that change the log do not interleave: a
  name is admitted only when it is not registered, and a registered version may leave.
\<close>

inductive history :: "Registrar \<Rightarrow> bool" where
  init: "history Registrar_init"
| admit: "history r \<Longrightarrow> \<not> Registrar_find_exist_node name r \<Longrightarrow>
    history (snd (Registrar_admit name ip port r))"
| leave: "history r \<Longrightarrow> live r v \<Longrightarrow> Registrar_deregistration v r = Inr r' \<Longrightarrow> history r'"

lemma history_log_wf: "history r \<Longrightarrow> log_wf r"
  by (induction rule: history.induct) (auto intro: log_wf_init log_wf_admit log_wf_deregistration)

record session =
  ses_reg :: Registrar
  ses_own :: nat
  ses_kept :: nat
  ses_peers :: peers

text \<open>
  The start of \<^verbatim>\<open>Regist\<close>: register the node, send \<^verbatim>\<open>list(0, regist_version - 1)\<close>, remember
  \<^verbatim>\<open>kept_version = regist_version\<close>.
\<close>

definition session_open :: "string \<Rightarrow> string \<Rightarrow> int \<Rightarrow> Registrar \<Rightarrow> session result" where
  "session_open name ip port r =
     (let (regist_version, r') = Registrar_admit name ip port r in
      bind_result (Registrar_list 0 (int regist_version - 1) r') (\<lambda>reply.
        Inr \<lparr>ses_reg = r', ses_own = regist_version, ses_kept = regist_version,
             ses_peers = replay (rr_operation_cmd reply) Map.empty\<rparr>))"

text \<open>One round of the loop of \<^verbatim>\<open>Regist\<close> after a wake-up.\<close>

definition session_poll :: "session \<Rightarrow> session result" where
  "session_poll s =
     (let cversion = int (reg_version (ses_reg s)) - 1 in
      if int (ses_kept s) + 1 \<le> cversion then
        bind_result (Registrar_list (ses_kept s + 1) cversion (ses_reg s)) (\<lambda>reply.
          Inr (s\<lparr>ses_kept := nat cversion, ses_peers := replay (rr_operation_cmd reply) (ses_peers s)\<rparr>))
      else Inr s)"

inductive session_start :: "session \<Rightarrow> bool" where
  "history r \<Longrightarrow> \<not> Registrar_find_exist_node name r \<Longrightarrow> session_open name ip port r = Inr s \<Longrightarrow>
    session_start s"

inductive session_step :: "session \<Rightarrow> session \<Rightarrow> bool" where
  other_admitted: "\<not> Registrar_find_exist_node name (ses_reg s) \<Longrightarrow>
    session_step s (s\<lparr>ses_reg := snd (Registrar_admit name ip port (ses_reg s))\<rparr>)"
| other_left: "live (ses_reg s) v \<Longrightarrow> v \<noteq> ses_own s \<Longrightarrow>
    Registrar_deregistration v (ses_reg s) = Inr r' \<Longrightarrow> session_step s (s\<lparr>ses_reg := r'\<rparr>)"
| polled: "session_poll s = Inr t \<Longrightarrow> session_step s t"

definition session_inv :: "session \<Rightarrow> bool" where
  "session_inv s \<longleftrightarrow> log_wf (ses_reg s) \<and> ses_own s \<le> ses_kept s \<and> ses_kept s < reg_version (ses_reg s) \<and>
     knows (ses_reg s) (ses_own s) (Suc (ses_kept s)) (Suc (ses_kept s)) (ses_peers s)"

lemma session_poll_inv:
  assumes "session_inv s"
  obtains t where "session_poll s = Inr t" "session_inv t" "ses_reg t = ses_reg s" "ses_own t = ses_own s"
    "Suc (ses_kept t) = reg_version (ses_reg s)"
proof -
  let ?r = "ses_reg s" and ?k = "Suc (ses_kept s)"
  have wf: "log_wf ?r" and k: "ses_own s < ?k" "?k \<le> reg_version ?r"
    and m: "knows ?r (ses_own s) ?k ?k (ses_peers s)"
    using assms by (auto simp: session_inv_def)
  show ?thesis
  proof (cases "?k < reg_version ?r")
    case True
    let ?m = "replay (map (\<lambda>i. snd (reg_nodes ?r ! i)) (filter (sent (reg_nodes ?r) ?k) [?k..<reg_version ?r])) (ses_peers s)"
    have "knows ?r (ses_own s) ?k (reg_version ?r) ?m"
      using k by (intro knows_replay [OF wf _ _ _ m]) auto
    then have "knows ?r (ses_own s) (reg_version ?r) (reg_version ?r) ?m"
      by (rule knows_weaken) simp
    moreover have "session_poll s = Inr (s\<lparr>ses_kept := reg_version ?r - 1, ses_peers := ?m\<rparr>)"
      using True Registrar_list_sent [OF wf, of ?k "reg_version ?r"]
      by (simp add: session_poll_def Let_def nat_diff_distrib)
    ultimately show ?thesis
      using that [of "s\<lparr>ses_kept := reg_version ?r - 1, ses_peers := ?m\<rparr>"] wf True k
      by (simp add: session_inv_def)
  next
    case False
    then have "session_poll s = Inr s" "?k = reg_version ?r" using k by (auto simp: session_poll_def)
    with that [of s] assms show ?thesis by simp
  qed
qed

lemma session_start_inv:
  assumes "session_start s"
  shows "session_inv s"
  using assms
proof cases
  case (1 r name ip port)
  let ?r = "snd (Registrar_admit name ip port r)" and ?v = "reg_version r"
  have wf: "log_wf ?r" using 1 by (auto intro: log_wf_admit history_log_wf)
  let ?m = "replay (map (\<lambda>i. snd (reg_nodes ?r ! i)) (filter (sent (reg_nodes ?r) 0) [0..<?v])) Map.empty"
  have s: "s = \<lparr>ses_reg = ?r, ses_own = ?v, ses_kept = ?v, ses_peers = ?m\<rparr>"
    using 1(3) Registrar_list_sent [OF wf, of 0 ?v]
    by (simp add: session_open_def case_prod_beta Registrar_admit_simps)
  have "knows ?r ?v 0 ?v ?m"
    by (intro knows_replay [OF wf] knows_empty) (auto simp: Registrar_admit_simps)
  then have "knows ?r ?v (Suc ?v) (Suc ?v) ?m" by (rule knows_skip_own)
  with wf show ?thesis by (simp add: s session_inv_def Registrar_admit_simps)
qed

lemma session_step_inv:
  assumes "session_inv s" and "session_step s t"
  shows "session_inv t"
  using assms(2,1)
proof cases
  case (other_admitted name ip port)
  have wf: "log_wf (ses_reg s)" and k: "Suc (ses_kept s) \<le> reg_version (ses_reg s)"
    and m: "knows (ses_reg s) (ses_own s) (Suc (ses_kept s)) (Suc (ses_kept s)) (ses_peers s)"
    using assms(1) by (auto simp: session_inv_def)
  show ?thesis
    using assms(1) log_wf_admit [OF wf other_admitted(2)] knows_admit [OF wf k m]
    by (simp add: other_admitted(1) session_inv_def Registrar_admit_simps)
next
  case (other_left v r')
  have wf: "log_wf (ses_reg s)" and k: "Suc (ses_kept s) \<le> reg_version (ses_reg s)"
    and m: "knows (ses_reg s) (ses_own s) (Suc (ses_kept s)) (Suc (ses_kept s)) (ses_peers s)"
    using assms(1) by (auto simp: session_inv_def)
  have v: "v < reg_version (ses_reg s)" using other_left(2) by (simp add: live_def)
  have "reg_version r' = Suc (reg_version (ses_reg s))"
    by (rule Registrar_deregistration_Inr(1) [OF log_wfD(1) [OF wf] v other_left(4)])
  then show ?thesis
    using assms(1) log_wf_deregistration [OF wf other_left(2,4)]
      knows_deregistration [OF wf k m other_left(2,4)]
    by (simp add: other_left(1) session_inv_def)
next
  case polled
  then show ?thesis using assms(1) by (metis session_poll_inv sum.inject(2))
qed

interpretation session: invariant_system session_start session_step session_inv
  by unfold_locales (auto intro: session_start_inv session_step_inv)

text \<open>After a poll the subscriber knows exactly the live nodes.\<close>

lemma session_poll_alive:
  assumes "session_inv s"
  shows "\<exists>t. session_poll s = Inr t \<and> session_inv t \<and> ses_reg t = ses_reg s \<and>
    ses_peers t = alive_peers (ses_reg s) (ses_own s)"
proof -
  from assms obtain t where t: "session_poll s = Inr t" "session_inv t" "ses_reg t = ses_reg s"
      "ses_own t = ses_own s" "Suc (ses_kept t) = reg_version (ses_reg s)"
    by (rule session_poll_inv)
  then have "log_wf (ses_reg t)"
    "knows (ses_reg t) (ses_own t) (reg_version (ses_reg t)) (reg_version (ses_reg t)) (ses_peers t)"
    by (simp_all add: session_inv_def)
  from knows_all [OF this] t show ?thesis by auto
qed

section \<open>The concurrent handler\<close>

text \<open>
  gRPC runs \<^verbatim>\<open>RegistServiceImpl::Regist\<close> in one thread per node.  A call is at one of these points
  between two atomic sections (a section is one access to the atomic counter, or one region under the
  registrar's mutex); the numbers are \<^verbatim>\<open>regist_version\<close>, \<^verbatim>\<open>kept_version\<close>, \<^verbatim>\<open>cversion\<close> and
  \<^verbatim>\<open>deleted_version\<close>.
\<close>

datatype regist_pc =
    At_Check
  | At_Wait
  | At_Draw
  | At_Store nat
  | At_First nat
  | At_Loop nat nat
  | At_List nat nat int
  | At_Draw_Delete nat
  | At_Delete nat nat
  | Finished

record regist_call =
  call_name :: string
  call_ip :: string
  call_port :: int
  call_pc :: regist_pc
  call_replies :: "RegistrationReply list"

definition call_info :: "regist_call \<Rightarrow> NodeInfo" where
  "call_info c = \<lparr>ni_ip = call_ip c, ni_port = call_port c, ni_name = call_name c, ni_code = ADD\<rparr>"

text \<open>
  One section of one call.  Cancellation, shutdown and failing writes are the environment's choice.
\<close>

inductive Regist_section :: "Registrar \<Rightarrow> regist_call \<Rightarrow> Registrar \<Rightarrow> regist_call \<Rightarrow> bool" where
  check_free: "call_pc c = At_Check \<Longrightarrow> \<not> Registrar_find_exist_node (call_name c) r \<Longrightarrow>
    Regist_section r c r (c\<lparr>call_pc := At_Draw\<rparr>)"
| check_busy: "call_pc c = At_Check \<Longrightarrow> Registrar_find_exist_node (call_name c) r \<Longrightarrow>
    Regist_section r c r (c\<lparr>call_pc := At_Wait\<rparr>)"
| wait_free: "call_pc c = At_Wait \<Longrightarrow> \<not> Registrar_find_exist_node (call_name c) r \<Longrightarrow>
    Regist_section r c r (c\<lparr>call_pc := At_Draw\<rparr>)"
| wait_cancelled: "call_pc c = At_Wait \<Longrightarrow> Regist_section r c r (c\<lparr>call_pc := Finished\<rparr>)"
| draw: "call_pc c = At_Draw \<Longrightarrow> Registrar_next_version r = (v, r') \<Longrightarrow>
    Regist_section r c r' (c\<lparr>call_pc := At_Store v\<rparr>)"
| store: "call_pc c = At_Store v \<Longrightarrow>
    Registrar_registration v (call_name c) (call_ip c) (call_port c) r = (v', r') \<Longrightarrow>
    Regist_section r c r' (c\<lparr>call_pc := At_First v'\<rparr>)"
| first: "call_pc c = At_First v \<Longrightarrow> Registrar_list 0 (int v - 1) r = Inr reply \<Longrightarrow>
    Regist_section r c r (c\<lparr>call_pc := At_Loop v v, call_replies := call_replies c @ [reply]\<rparr>)"
| wake: "call_pc c = At_Loop v kept \<Longrightarrow> int kept + 1 \<le> int (reg_version r) - 1 \<Longrightarrow>
    Regist_section r c r (c\<lparr>call_pc := At_List v kept (int (reg_version r) - 1)\<rparr>)"
| send: "call_pc c = At_List v kept cversion \<Longrightarrow> Registrar_list (kept + 1) cversion r = Inr reply \<Longrightarrow>
    Regist_section r c r (c\<lparr>call_pc := At_Loop v (nat cversion), call_replies := call_replies c @ [reply]\<rparr>)"
| send_failed: "call_pc c = At_List v kept cversion \<Longrightarrow> Registrar_list (kept + 1) cversion r = Inr reply \<Longrightarrow>
    Regist_section r c r (c\<lparr>call_pc := At_Draw_Delete v\<rparr>)"
| stop: "call_pc c = At_Loop v kept \<Longrightarrow> Regist_section r c r (c\<lparr>call_pc := At_Draw_Delete v\<rparr>)"
| draw_delete: "call_pc c = At_Draw_Delete v \<Longrightarrow> Registrar_next_version r = (d, r') \<Longrightarrow>
    Regist_section r c r' (c\<lparr>call_pc := At_Delete v d\<rparr>)"
| delete: "call_pc c = At_Delete v d \<Longrightarrow> Registrar_deregistration_store v d r = Inr r' \<Longrightarrow>
    Regist_section r c r' (c\<lparr>call_pc := Finished\<rparr>)"

inductive_cases Regist_sectionE: "Regist_section r c r' c'"

record registry =
  rgy_reg :: Registrar
  rgy_calls :: "nat \<rightharpoonup> regist_call"

definition registry_start :: "registry \<Rightarrow> bool" where
  "registry_start s \<longleftrightarrow> s = \<lparr>rgy_reg = Registrar_init, rgy_calls = Map.empty\<rparr>"

inductive registry_step :: "registry \<Rightarrow> registry \<Rightarrow> bool" where
  arrive: "rgy_calls s k = None \<Longrightarrow>
    registry_step s (s\<lparr>rgy_calls := (rgy_calls s)(k \<mapsto> \<lparr>call_name = name, call_ip = ip, call_port = port,
      call_pc = At_Check, call_replies = []\<rparr>)\<rparr>)"
| run_section: "rgy_calls s k = Some c \<Longrightarrow> Regist_section (rgy_reg s) c r' c' \<Longrightarrow>
    registry_step s (s\<lparr>rgy_reg := r', rgy_calls := (rgy_calls s)(k \<mapsto> c')\<rparr>)"

text \<open>The versions a call has drawn and not yet given up, and the one it has registered.\<close>

fun pc_versions :: "regist_pc \<Rightarrow> nat set" where
  "pc_versions (At_Store v) = {v}"
| "pc_versions (At_First v) = {v}"
| "pc_versions (At_Loop v _) = {v}"
| "pc_versions (At_List v _ _) = {v}"
| "pc_versions (At_Draw_Delete v) = {v}"
| "pc_versions (At_Delete v d) = {v, d}"
| "pc_versions _ = {}"

fun pc_registered :: "regist_pc \<Rightarrow> nat option" where
  "pc_registered (At_First v) = Some v"
| "pc_registered (At_Loop v _) = Some v"
| "pc_registered (At_List v _ _) = Some v"
| "pc_registered (At_Draw_Delete v) = Some v"
| "pc_registered (At_Delete v d) = Some v"
| "pc_registered _ = None"

fun pc_distinct :: "regist_pc \<Rightarrow> bool" where
  "pc_distinct (At_Delete v d) = (v \<noteq> d)"
| "pc_distinct _ = True"

lemma pc_registered_versions: "pc_registered p = Some v \<Longrightarrow> v \<in> pc_versions p"
  by (cases p) auto

definition call_ok :: "Registrar \<Rightarrow> regist_call \<Rightarrow> bool" where
  "call_ok r c \<longleftrightarrow>
     (\<forall>v\<in>pc_versions (call_pc c). v < reg_version r) \<and> pc_distinct (call_pc c) \<and>
     (\<forall>v. pc_registered (call_pc c) = Some v \<longrightarrow>
        v < length (reg_nodes r) \<and> reg_nodes r ! v = (- 1, call_info c))"

definition registry_inv :: "registry \<Rightarrow> bool" where
  "registry_inv s \<longleftrightarrow>
     (\<forall>k c. rgy_calls s k = Some c \<longrightarrow> call_ok (rgy_reg s) c) \<and>
     (\<forall>k k' c c'. rgy_calls s k = Some c \<longrightarrow> rgy_calls s k' = Some c' \<longrightarrow> k \<noteq> k' \<longrightarrow>
        pc_versions (call_pc c) \<inter> pc_versions (call_pc c') = {})"

text \<open>
  What a section does to the registrar and to the versions of its call: it writes only slots of
  versions that it has drawn, and it draws only fresh ones.
\<close>

lemma registration_effect:
  assumes "Registrar_registration v name ip port r = (v', r')"
  shows "v' = v" "reg_version r' = reg_version r" "v < length (reg_nodes r')"
    "length (reg_nodes r) \<le> length (reg_nodes r')"
    "reg_nodes r' ! v = (- 1, \<lparr>ni_ip = ip, ni_port = port, ni_name = name, ni_code = ADD\<rparr>)"
    "i \<noteq> v \<Longrightarrow> i < length (reg_nodes r) \<Longrightarrow> reg_nodes r' ! i = reg_nodes r ! i"
  using assms length_grow [where v = v and ns = "reg_nodes r"]
  by (auto simp: Registrar_registration_def Let_def nth_grow)

lemma deregistration_store_effect:
  assumes "Registrar_deregistration_store v d r = Inr r'"
  shows "reg_version r' = reg_version r" "length (reg_nodes r) \<le> length (reg_nodes r')"
    "i \<noteq> v \<Longrightarrow> i \<noteq> d \<Longrightarrow> i < length (reg_nodes r) \<Longrightarrow> reg_nodes r' ! i = reg_nodes r ! i"
  using assms length_grow [where v = d and ns = "reg_nodes r"]
  by (auto simp: Registrar_deregistration_store_def Let_def nth_grow bind_result_Inr_iff)

lemma section_mono:
  assumes "Regist_section r c r' c'"
  shows "reg_version r \<le> reg_version r'" "length (reg_nodes r) \<le> length (reg_nodes r')"
    "call_info c' = call_info c"
  using assms
  by (cases rule: Regist_section.cases; auto simp: Registrar_next_version_def call_info_def
      dest: registration_effect deregistration_store_effect)+

lemma section_versions:
  assumes "Regist_section r c r' c'"
  shows "pc_versions (call_pc c') \<subseteq> pc_versions (call_pc c) \<union> {reg_version r..<reg_version r'}"
  using assms
  by (cases rule: Regist_section.cases)
    (auto simp: Registrar_next_version_def dest: registration_effect)

lemma section_frame:
  assumes "Regist_section r c r' c'" and "i \<notin> pc_versions (call_pc c)" and "i < length (reg_nodes r)"
  shows "reg_nodes r' ! i = reg_nodes r ! i"
  using assms
  by (cases rule: Regist_section.cases)
    (auto simp: Registrar_next_version_def registration_effect deregistration_store_effect)

lemma section_call_ok:
  assumes "Regist_section r c r' c'" and "call_ok r c"
  shows "call_ok r' c'"
  using assms
proof (cases rule: Regist_section.cases)
  case (store v v')
  then show ?thesis
    using assms(2) registration_effect [OF store(3)] by (simp add: call_ok_def call_info_def)
next
  case (draw_delete v d)
  then show ?thesis
    using assms(2) by (auto simp: call_ok_def call_info_def Registrar_next_version_def)
qed (auto simp: call_ok_def call_info_def Registrar_next_version_def)

lemma registry_step_inv:
  assumes inv: "registry_inv s" and "registry_step s t"
  shows "registry_inv t"
  using assms(2)
proof cases
  case (arrive k name ip port)
  then show ?thesis using inv by (auto simp: registry_inv_def call_ok_def)
next
  case (run_section k c r' c')
  let ?r = "rgy_reg s"
  have c: "call_ok ?r c" using inv run_section(2) by (auto simp: registry_inv_def)
  have disj: "pc_versions (call_pc c) \<inter> pc_versions (call_pc e) = {}"
    if "rgy_calls s k' = Some e" "k' \<noteq> k" for k' e
    using inv that run_section(2) by (auto simp: registry_inv_def)
  have old: "call_ok ?r e" if "rgy_calls s k' = Some e" for k' e
    using inv that by (auto simp: registry_inv_def)
  note mono = section_mono [OF run_section(3)]
  have ok: "call_ok r' e" if e: "rgy_calls s k' = Some e" "k' \<noteq> k" for k' e
  proof -
    have "v < length (reg_nodes r') \<and> reg_nodes r' ! v = (- 1, call_info e)"
      if "pc_registered (call_pc e) = Some v" for v
    proof -
      have "v \<notin> pc_versions (call_pc c)" using disj [OF e] pc_registered_versions [OF that] by auto
      with old [OF e(1)] that section_frame [OF run_section(3)] mono(2) show ?thesis
        by (auto simp: call_ok_def)
    qed
    with old [OF e(1)] mono(1) show ?thesis by (auto simp: call_ok_def)
  qed
  have fresh: "pc_versions (call_pc c') \<inter> pc_versions (call_pc e) = {}"
    if e: "rgy_calls s k' = Some e" "k' \<noteq> k" for k' e
    using section_versions [OF run_section(3)] disj [OF e] old [OF e(1)]
    by (fastforce simp: call_ok_def)
  have inter: "pc_versions (call_pc e) \<inter> pc_versions (call_pc e') = {}"
    if "rgy_calls s k1 = Some e" "rgy_calls s k2 = Some e'" "k1 \<noteq> k2" for k1 k2 e e'
    using inv that by (auto simp: registry_inv_def)
  show ?thesis
    using section_call_ok [OF run_section(3) c] ok fresh inter
    unfolding run_section(1) registry_inv_def
    by (auto split: if_splits) (metis IntI empty_iff)+
qed

lemma registry_start_inv: "registry_start s \<Longrightarrow> registry_inv s"
  by (simp add: registry_start_def registry_inv_def)

interpretation registry: invariant_system registry_start registry_step registry_inv
  by unfold_locales (auto intro: registry_start_inv registry_step_inv)

section \<open>Properties\<close>



text \<open>
  C16: in every state that concurrent \<^verbatim>\<open>Regist\<close> calls can reach, with their atomic sections interleaved
  in any order, a call that has registered and not yet deregistered finds its own unrevoked entry in
  its slot of the log: no other call ever writes to it, and deregistration revokes the right node.
\<close>

theorem registered_slot_owned:
  assumes "registry_start s0" and "registry_step\<^sup>*\<^sup>* s0 s"
    and "rgy_calls s k = Some c" and "pc_registered (call_pc c) = Some v"
  shows "v < length (reg_nodes (rgy_reg s)) \<and> reg_nodes (rgy_reg s) ! v = (- 1, call_info c)"
  using registry.reachable_inv [OF assms(1,2)] assms(3,4)
  by (auto simp: registry_inv_def call_ok_def)

text \<open>
  Version numbers are never shared: two concurrent calls hold different versions at all times,
  because each is drawn from the atomic counter.
\<close>

lemma versions_not_shared:
  assumes "registry_start s0" and "registry_step\<^sup>*\<^sup>* s0 s"
    and "rgy_calls s k = Some c" and "rgy_calls s k' = Some c'" and "k \<noteq> k'"
  shows "pc_versions (call_pc c) \<inter> pc_versions (call_pc c') = {}"
  using registry.reachable_inv [OF assms(1,2)] assms(3-)
  by (auto simp: registry_inv_def)

text \<open>A pair of concurrent calls, for concrete runs.\<close>

definition call_at :: "string \<Rightarrow> int \<Rightarrow> regist_pc \<Rightarrow> RegistrationReply list \<Rightarrow> regist_call" where
  "call_at name port p replies = \<lparr>call_name = name, call_ip = ''127.0.0.1'', call_port = port,
     call_pc = p, call_replies = replies\<rparr>"

definition two_calls :: "Registrar \<Rightarrow> regist_call \<Rightarrow> regist_call \<Rightarrow> registry" where
  "two_calls r a b = \<lparr>rgy_reg = r, rgy_calls = [0 \<mapsto> a, 1 \<mapsto> b]\<rparr>"

lemma two_calls_start:
  "registry_step\<^sup>*\<^sup>* \<lparr>rgy_reg = Registrar_init, rgy_calls = Map.empty\<rparr>
     (two_calls Registrar_init (call_at x p At_Check []) (call_at y q At_Check []))"
proof -
  let ?s1 = "\<lparr>rgy_reg = Registrar_init, rgy_calls = [0 \<mapsto> call_at x p At_Check []]\<rparr>"
  have "registry_step \<lparr>rgy_reg = Registrar_init, rgy_calls = Map.empty\<rparr> ?s1"
    using registry_step.arrive [of "\<lparr>rgy_reg = Registrar_init, rgy_calls = Map.empty\<rparr>" 0 x "''127.0.0.1''" p]
    by (simp add: call_at_def)
  moreover have "registry_step ?s1 (two_calls Registrar_init (call_at x p At_Check []) (call_at y q At_Check []))"
    using registry_step.arrive [of ?s1 1 y "''127.0.0.1''" q] by (simp add: two_calls_def call_at_def)
  ultimately show ?thesis by simp
qed

lemma two_calls_step1:
  assumes "registry_step\<^sup>*\<^sup>* s (two_calls r a b)" and "Regist_section r a r' a'"
  shows "registry_step\<^sup>*\<^sup>* s (two_calls r' a' b)"
  using assms(1)
proof (rule rtranclp.rtrancl_into_rtrancl)
  show "registry_step (two_calls r a b) (two_calls r' a' b)"
    using registry_step.run_section [of "two_calls r a b" 0 a r' a'] assms(2)
    by (simp add: two_calls_def fun_upd_twist)
qed

lemma two_calls_step2:
  assumes "registry_step\<^sup>*\<^sup>* s (two_calls r a b)" and "Regist_section r b r' b'"
  shows "registry_step\<^sup>*\<^sup>* s (two_calls r' a b')"
  using assms(1)
proof (rule rtranclp.rtrancl_into_rtrancl)
  show "registry_step (two_calls r a b) (two_calls r' a b')"
    using registry_step.run_section [of "two_calls r a b" 1 b r' b'] assms(2)
    by (simp add: two_calls_def)
qed

text \<open>The sections up to the registration, on such a call.\<close>

lemma call_at_sections:
  "\<not> Registrar_find_exist_node x r \<Longrightarrow> Regist_section r (call_at x p At_Check l) r (call_at x p At_Draw l)"
  "Regist_section r (call_at x p At_Draw l) (snd (Registrar_next_version r)) (call_at x p (At_Store (reg_version r)) l)"
  "Regist_section r (call_at x p (At_Store v) l) (snd (Registrar_registration v x ''127.0.0.1'' p r)) (call_at x p (At_First v) l)"
  "Registrar_list 0 (int v - 1) r = Inr reply \<Longrightarrow>
     Regist_section r (call_at x p (At_First v) l) r (call_at x p (At_Loop v v) (l @ [reply]))"
  "int kept + 1 \<le> int (reg_version r) - 1 \<Longrightarrow>
     Regist_section r (call_at x p (At_Loop v kept) l) r (call_at x p (At_List v kept (int (reg_version r) - 1)) l)"
  "Registrar_list (kept + 1) c r = Inr reply \<Longrightarrow>
     Regist_section r (call_at x p (At_List v kept c) l) r (call_at x p (At_Loop v (nat c)) (l @ [reply]))"
proof -
  let ?c = "\<lambda>pc. call_at x p pc l"
  have upd: "(?c q)\<lparr>call_pc := q'\<rparr> = ?c q'" "(?c q)\<lparr>call_pc := q', call_replies := l'\<rparr> = call_at x p q' l'"
      "(?c q)\<lparr>call_replies := l'\<rparr> = call_at x p q l'" for q q' l'
    by (simp_all add: call_at_def)
  have sel: "call_pc (?c q) = q" "call_name (?c q) = x" "call_ip (?c q) = ''127.0.0.1''"
    "call_port (?c q) = p" "call_replies (?c q) = l" for q
    by (simp_all add: call_at_def)
  show "\<not> Registrar_find_exist_node x r \<Longrightarrow> Regist_section r (?c At_Check) r (?c At_Draw)"
    using Regist_section.check_free [of "?c At_Check" r] by (simp add: upd sel)
  show "Regist_section r (?c At_Draw) (snd (Registrar_next_version r)) (?c (At_Store (reg_version r)))"
    using Regist_section.draw [of "?c At_Draw" r] by (simp add: upd sel Registrar_next_version_def)
  show "Regist_section r (?c (At_Store v)) (snd (Registrar_registration v x ''127.0.0.1'' p r)) (?c (At_First v))"
    using Regist_section.store [of "?c (At_Store v)" v r v] by (simp add: upd sel Registrar_registration_def Let_def)
  show "Registrar_list 0 (int v - 1) r = Inr reply \<Longrightarrow>
     Regist_section r (?c (At_First v)) r (call_at x p (At_Loop v v) (l @ [reply]))"
    using Regist_section.first [of "?c (At_First v)" v r reply] by (simp add: upd sel)
  show "int kept + 1 \<le> int (reg_version r) - 1 \<Longrightarrow>
     Regist_section r (?c (At_Loop v kept)) r (?c (At_List v kept (int (reg_version r) - 1)))"
    using Regist_section.wake [of "?c (At_Loop v kept)" v kept r] by (simp add: upd sel)
  show "Registrar_list (kept + 1) c r = Inr reply \<Longrightarrow>
     Regist_section r (?c (At_List v kept c)) r (call_at x p (At_Loop v (nat c)) (l @ [reply]))"
    using Regist_section.send [of "?c (At_List v kept c)" v kept c r reply] by (simp add: upd sel)
qed

text \<open>The first call registered and waiting in its loop, the second about to register.\<close>

definition first_reply :: RegistrationReply where
  "first_reply = \<lparr>rr_version = - 1, rr_operation_cmd = []\<rparr>"

definition reg_one :: "string \<Rightarrow> int \<Rightarrow> Registrar" where
  "reg_one x p = snd (Registrar_admit x ''127.0.0.1'' p Registrar_init)"

lemma one_registered:
  "registry_step\<^sup>*\<^sup>* \<lparr>rgy_reg = Registrar_init, rgy_calls = Map.empty\<rparr>
     (two_calls (reg_one x p) (call_at x p (At_Loop 0 0) [first_reply]) (call_at y q At_Check []))"
proof -
  let ?r1 = "snd (Registrar_next_version Registrar_init)"
  have r: "snd (Registrar_registration 0 x ''127.0.0.1'' p ?r1) = reg_one x p"
    by (simp add: reg_one_def Registrar_admit_def Registrar_next_version_def Registrar_init_def)
  have free: "\<not> Registrar_find_exist_node x Registrar_init"
    by (simp add: Registrar_find_exist_node_def Registrar_init_def)
  have list: "Registrar_list 0 (int 0 - 1) (reg_one x p) = Inr first_reply"
    by (simp add: Registrar_list_def first_reply_def)
  note s = two_calls_step1 [OF two_calls_start [of x p y q] call_at_sections(1) [OF free]]
  note s = two_calls_step1 [OF s call_at_sections(2)]
  note s = two_calls_step1 [OF s call_at_sections(3)]
  have v0: "reg_version Registrar_init = 0" by (simp add: Registrar_init_def)
  note s = two_calls_step1 [OF s [unfolded v0 r] call_at_sections(4) [OF list]]
  then show ?thesis by simp
qed

theorem registered_slot_owned_witness:
  "\<exists>s. registry_step\<^sup>*\<^sup>* \<lparr>rgy_reg = Registrar_init, rgy_calls = Map.empty\<rparr> s \<and>
     reg_nodes (rgy_reg s) ! 0 = (- 1, call_info (call_at ''hello/pub'' 4000 At_Check []))"
proof -
  let ?a = "call_at ''hello/pub'' 4000 (At_Loop 0 0) [first_reply]"
  let ?s = "two_calls (reg_one ''hello/pub'' 4000) ?a (call_at ''hello/sub'' 4001 At_Check [])"
  have "registry_start \<lparr>rgy_reg = Registrar_init, rgy_calls = Map.empty\<rparr>" by (simp add: registry_start_def)
  from registered_slot_owned [OF this one_registered [of "''hello/pub''" 4000 "''hello/sub''" 4001],
      where k = 0 and c = ?a and v = 0]
  have "reg_nodes (rgy_reg ?s) ! 0 = (- 1, call_info (call_at ''hello/pub'' 4000 At_Check []))"
    by (simp add: two_calls_def call_at_def call_info_def)
  with one_registered [of "''hello/pub''" 4000 "''hello/sub''" 4001] show ?thesis by blast
qed

text \<open>Both calls pass the check before either of them registers.\<close>

lemma both_drawn:
  "registry_step\<^sup>*\<^sup>* \<lparr>rgy_reg = Registrar_init, rgy_calls = Map.empty\<rparr>
     (two_calls (snd (Registrar_next_version (snd (Registrar_next_version Registrar_init))))
        (call_at x p (At_Store 0) []) (call_at y q (At_Store 1) []))"
proof -
  have free: "\<not> Registrar_find_exist_node z Registrar_init" for z
    by (simp add: Registrar_find_exist_node_def Registrar_init_def)
  note s = two_calls_step1 [OF two_calls_start [of x p y q] call_at_sections(1) [OF free]]
  note s = two_calls_step2 [OF s call_at_sections(1) [OF free]]
  note s = two_calls_step1 [OF s call_at_sections(2)]
  note s = two_calls_step2 [OF s call_at_sections(2)]
  then show ?thesis by (simp add: Registrar_next_version_def Registrar_init_def)
qed

text \<open>
  Uniqueness of node names is checked and acted upon in different sections.  Two nodes that
  register under the same name at the same time can both be admitted: there is a reachable state with
  two live registrations of one name, and then either one's deregistration removes the name from the
  set of alive nodes.
\<close>

lemma registry_duplicate_name:
  "\<exists>s. registry_step\<^sup>*\<^sup>* \<lparr>rgy_reg = Registrar_init, rgy_calls = Map.empty\<rparr> s \<and>
     live (rgy_reg s) 0 \<and> live (rgy_reg s) 1 \<and>
     name_at (rgy_reg s) 0 = ''hello/pub'' \<and> name_at (rgy_reg s) 1 = ''hello/pub''"
proof -
  let ?r2 = "snd (Registrar_next_version (snd (Registrar_next_version Registrar_init)))"
  let ?r3 = "snd (Registrar_registration 0 ''hello/pub'' ''127.0.0.1'' 4000 ?r2)"
  let ?r4 = "snd (Registrar_registration 1 ''hello/pub'' ''127.0.0.1'' 5000 ?r3)"
  have "registry_step\<^sup>*\<^sup>* \<lparr>rgy_reg = Registrar_init, rgy_calls = Map.empty\<rparr>
     (two_calls ?r4 (call_at ''hello/pub'' 4000 (At_First 0) []) (call_at ''hello/pub'' 5000 (At_First 1) []))"
    by (rule two_calls_step2 [OF two_calls_step1 [OF both_drawn call_at_sections(3)] call_at_sections(3)])
  moreover have "live ?r4 0 \<and> live ?r4 1 \<and> name_at ?r4 0 = ''hello/pub'' \<and> name_at ?r4 1 = ''hello/pub''"
    by (simp add: live_def Registrar_registration_def Registrar_next_version_def Registrar_init_def grow_def)
  ultimately show ?thesis
    by (intro exI [of _ "two_calls ?r4 (call_at ''hello/pub'' 4000 (At_First 0) [])
          (call_at ''hello/pub'' 5000 (At_First 1) [])"]) (simp add: two_calls_def)
qed

text \<open>
  A version is drawn before its slot is filled.  A subscriber that polls in between is sent the
  empty slot and moves past it: there is a reachable state in which a node is registered under
  version 1, another subscriber has polled up to version 1, and none of the commands it was sent
  names the new node, so it will never learn of it.
\<close>

lemma registry_lost_registration:
  "\<exists>s c. registry_step\<^sup>*\<^sup>* \<lparr>rgy_reg = Registrar_init, rgy_calls = Map.empty\<rparr> s \<and>
     live (rgy_reg s) 1 \<and> name_at (rgy_reg s) 1 = ''hello/sub'' \<and>
     rgy_calls s 0 = Some c \<and> call_pc c = At_Loop 0 1 \<and>
     ''hello/sub'' \<notin> set (map ni_name (concat (map rr_operation_cmd (call_replies c))))"
proof -
  let ?r1 = "reg_one ''hello/pub'' 4000"
  let ?r2 = "snd (Registrar_next_version ?r1)"
  let ?r3 = "snd (Registrar_registration 1 ''hello/sub'' ''127.0.0.1'' 4001 ?r2)"
  let ?lost = "\<lparr>rr_version = 1, rr_operation_cmd = [snd empty_slot]\<rparr>"
  have v: "reg_version ?r1 = 1" "reg_version ?r2 = 2"
    by (simp_all add: reg_one_def Registrar_admit_simps Registrar_next_version_def Registrar_init_def)
  have free: "\<not> Registrar_find_exist_node ''hello/sub'' ?r1"
    by (simp add: reg_one_def Registrar_find_exist_node_def Registrar_admit_simps Registrar_init_def)
  have n: "reg_nodes ?r2 ! 1 = empty_slot" "1 < length (reg_nodes ?r2)"
    by (simp_all add: reg_one_def Registrar_admit_def Registrar_registration_def Registrar_next_version_def
        Registrar_init_def grow_def nth_vec_resize)
  then have list: "Registrar_list (0 + 1) 1 ?r2 = Inr ?lost"
    by (simp add: Registrar_list_def vec_get_def empty_slot_def upt_rec)
  note s = two_calls_step2 [OF one_registered [of "''hello/pub''" 4000 "''hello/sub''" 4001]
      call_at_sections(1) [OF free]]
  note s = two_calls_step2 [OF s call_at_sections(2)]
  have w: "int 0 + 1 \<le> int (reg_version ?r2) - 1" by (simp add: v)
  note s = two_calls_step1 [OF s call_at_sections(5) [OF w]]
  note s = two_calls_step1 [OF s [unfolded v, simplified] call_at_sections(6) [OF list]]
  note s = two_calls_step2 [OF s call_at_sections(3)]
  have "live ?r3 1 \<and> name_at ?r3 1 = ''hello/sub''"
    using n(2) v(2) by (simp add: live_def Registrar_registration_def grow_def)
  moreover have "''hello/sub'' \<notin> set (map ni_name (concat (map rr_operation_cmd [first_reply, ?lost])))"
    by (simp add: first_reply_def empty_slot_def)
  moreover have "registry_step\<^sup>*\<^sup>* \<lparr>rgy_reg = Registrar_init, rgy_calls = Map.empty\<rparr>
      (two_calls ?r3 (call_at ''hello/pub'' 4000 (At_Loop 0 1) [first_reply, ?lost])
        (call_at ''hello/sub'' 4001 (At_First 1) []))"
    using s by (simp add: v)
  ultimately show ?thesis
    by (intro exI [of _ "two_calls ?r3 (call_at ''hello/pub'' 4000 (At_Loop 0 1) [first_reply, ?lost])
        (call_at ''hello/sub'' 4001 (At_First 1) [])"]
        exI [of _ "call_at ''hello/pub'' 4000 (At_Loop 0 1) [first_reply, ?lost]"] conjI)
      (simp_all add: two_calls_def call_at_def)
qed

end
