(* ===== verification/Registrar_Serial.thy ===== *)
theory Registrar_Serial
  imports Registrar
begin

text \<open>
  The concurrent calls of \<^verbatim>\<open>Regist\<close> (\<open>registry_step\<close>) and the sessions of single nodes (\<open>session_step\<close>), two views of
  \<^verbatim>\<open>Registrar.cpp\<close>, are connected here: in the runs in which the sections that change the log are not
  interleaved with other sections, every call is a session.
\<close>

section \<open>Serial runs\<close>

text \<open>
  The actions of a call as single steps: the check together with the registration and the first list, a round of the
  loop, and the departure.
\<close>

inductive serial_step :: "registry \<Rightarrow> registry \<Rightarrow> bool" where
  arrive: "rgy_calls s k = None \<Longrightarrow>
    serial_step s (s\<lparr>rgy_calls := (rgy_calls s)(k \<mapsto> \<lparr>call_name = name, call_ip = ip, call_port = port,
      call_pc = At_Check, call_replies = []\<rparr>)\<rparr>)"
| busy: "rgy_calls s k = Some c \<Longrightarrow> call_pc c = At_Check \<Longrightarrow> Registrar_find_exist_node (call_name c) (rgy_reg s) \<Longrightarrow>
    serial_step s (s\<lparr>rgy_calls := (rgy_calls s)(k \<mapsto> c\<lparr>call_pc := At_Wait\<rparr>)\<rparr>)"
| gave_up: "rgy_calls s k = Some c \<Longrightarrow> call_pc c = At_Wait \<Longrightarrow>
    serial_step s (s\<lparr>rgy_calls := (rgy_calls s)(k \<mapsto> c\<lparr>call_pc := Finished\<rparr>)\<rparr>)"
| admitted: "rgy_calls s k = Some c \<Longrightarrow> call_pc c \<in> {At_Check, At_Wait} \<Longrightarrow>
    \<not> Registrar_find_exist_node (call_name c) (rgy_reg s) \<Longrightarrow>
    Registrar_admit (call_name c) (call_ip c) (call_port c) (rgy_reg s) = (v, r) \<Longrightarrow> Registrar_list 0 (int v - 1) r = Inr reply \<Longrightarrow>
    serial_step s (s\<lparr>rgy_reg := r, rgy_calls := (rgy_calls s)(k \<mapsto>
      c\<lparr>call_pc := At_Loop v v, call_replies := call_replies c @ [reply]\<rparr>)\<rparr>)"
| polled: "rgy_calls s k = Some c \<Longrightarrow> call_pc c = At_Loop v kept \<Longrightarrow> int kept + 1 \<le> int (reg_version (rgy_reg s)) - 1 \<Longrightarrow>
    Registrar_list (kept + 1) (int (reg_version (rgy_reg s)) - 1) (rgy_reg s) = Inr reply \<Longrightarrow>
    serial_step s (s\<lparr>rgy_calls := (rgy_calls s)(k \<mapsto>
      c\<lparr>call_pc := At_Loop v (nat (int (reg_version (rgy_reg s)) - 1)), call_replies := call_replies c @ [reply]\<rparr>)\<rparr>)"
| left: "rgy_calls s k = Some c \<Longrightarrow> call_pc c = At_Loop v kept \<Longrightarrow> Registrar_deregistration v (rgy_reg s) = Inr r \<Longrightarrow>
    serial_step s (s\<lparr>rgy_reg := r, rgy_calls := (rgy_calls s)(k \<mapsto> c\<lparr>call_pc := Finished\<rparr>)\<rparr>)"

text \<open>Every serial step is a run of sections of one call.\<close>

inductive sections :: "Registrar \<Rightarrow> regist_call \<Rightarrow> Registrar \<Rightarrow> regist_call \<Rightarrow> bool" where
  none: "sections r c r c"
| more: "Regist_section r c r' c' \<Longrightarrow> sections r' c' r'' c'' \<Longrightarrow> sections r c r'' c''"

lemma sections_run:
  assumes "sections r c r' c'" and "rgy_reg s = r" and "rgy_calls s k = Some c"
  shows "registry_step\<^sup>*\<^sup>* s (s\<lparr>rgy_reg := r', rgy_calls := (rgy_calls s)(k \<mapsto> c')\<rparr>)"
  using assms
proof (induction arbitrary: s rule: sections.induct)
  case (none r c)
  then have "s\<lparr>rgy_reg := r, rgy_calls := (rgy_calls s)(k \<mapsto> c)\<rparr> = s" by (auto simp: fun_upd_idem)
  then show ?case by (simp only: rtranclp.rtrancl_refl)
next
  case (more r c r1 c1 r2 c2)
  let ?s1 = "s\<lparr>rgy_reg := r1, rgy_calls := (rgy_calls s)(k \<mapsto> c1)\<rparr>"
  have "registry_step s ?s1" using registry_step.run_section [of s k c r1 c1] more by simp
  moreover have "registry_step\<^sup>*\<^sup>* ?s1 (?s1\<lparr>rgy_reg := r2, rgy_calls := (rgy_calls ?s1)(k \<mapsto> c2)\<rparr>)"
    by (rule more.IH) simp_all
  moreover have "?s1\<lparr>rgy_reg := r2, rgy_calls := (rgy_calls ?s1)(k \<mapsto> c2)\<rparr> = s\<lparr>rgy_reg := r2, rgy_calls := (rgy_calls s)(k \<mapsto> c2)\<rparr>"
    by simp
  ultimately show ?case by (metis converse_rtranclp_into_rtranclp)
qed

lemma sections_admit:
  assumes "call_pc c \<in> {At_Check, At_Wait}" and "\<not> Registrar_find_exist_node (call_name c) r"
    and "Registrar_admit (call_name c) (call_ip c) (call_port c) r = (v, r')" and "Registrar_list 0 (int v - 1) r' = Inr reply"
  shows "sections r c r' (c\<lparr>call_pc := At_Loop v v, call_replies := call_replies c @ [reply]\<rparr>)"
proof -
  obtain r1 where r1: "Registrar_next_version r = (v, r1)" "Registrar_registration v (call_name c) (call_ip c) (call_port c) r1 = (v, r')"
    using assms(3) by (auto simp: Registrar_admit_def Registrar_next_version_def Registrar_registration_def Let_def)
  have free: "Regist_section r c r (c\<lparr>call_pc := At_Draw\<rparr>)"
    using assms(1,2) by (auto intro: Regist_section.check_free Regist_section.wait_free)
  have draw: "Regist_section r (c\<lparr>call_pc := At_Draw\<rparr>) r1 (c\<lparr>call_pc := At_Store v\<rparr>)"
    using Regist_section.draw [of "c\<lparr>call_pc := At_Draw\<rparr>" r v r1] r1(1) by simp
  have store: "Regist_section r1 (c\<lparr>call_pc := At_Store v\<rparr>) r' (c\<lparr>call_pc := At_First v\<rparr>)"
    using Regist_section.store [of "c\<lparr>call_pc := At_Store v\<rparr>" v r1 v r'] r1(2) by simp
  have "Regist_section r' (c\<lparr>call_pc := At_First v\<rparr>) r' (c\<lparr>call_pc := At_Loop v v, call_replies := call_replies c @ [reply]\<rparr>)"
    using Regist_section.first [of "c\<lparr>call_pc := At_First v\<rparr>" v r' reply] assms(4) by simp
  from sections.more [OF free sections.more [OF draw sections.more [OF store sections.more [OF this sections.none]]]] show ?thesis .
qed

lemma sections_poll:
  assumes "call_pc c = At_Loop v kept" and "int kept + 1 \<le> int (reg_version r) - 1"
    and "Registrar_list (kept + 1) (int (reg_version r) - 1) r = Inr reply"
  shows "sections r c r (c\<lparr>call_pc := At_Loop v (nat (int (reg_version r) - 1)), call_replies := call_replies c @ [reply]\<rparr>)"
proof -
  let ?v = "int (reg_version r) - 1"
  have "Regist_section r (c\<lparr>call_pc := At_List v kept ?v\<rparr>) r (c\<lparr>call_pc := At_Loop v (nat ?v), call_replies := call_replies c @ [reply]\<rparr>)"
    using Regist_section.send [of "c\<lparr>call_pc := At_List v kept ?v\<rparr>" v kept ?v r reply] assms(3) by simp
  from sections.more [OF Regist_section.wake [OF assms(1,2)] sections.more [OF this sections.none]] show ?thesis .
qed

lemma sections_leave:
  assumes "call_pc c = At_Loop v kept" and "Registrar_deregistration v r = Inr r'"
  shows "sections r c r' (c\<lparr>call_pc := Finished\<rparr>)"
proof -
  obtain d r1 where r1: "Registrar_next_version r = (d, r1)" "Registrar_deregistration_store v d r1 = Inr r'"
    using assms(2) by (auto simp: Registrar_deregistration_def split: prod.splits)
  have draw: "Regist_section r (c\<lparr>call_pc := At_Draw_Delete v\<rparr>) r1 (c\<lparr>call_pc := At_Delete v d\<rparr>)"
    using Regist_section.draw_delete [of "c\<lparr>call_pc := At_Draw_Delete v\<rparr>" v r d r1] r1(1) by simp
  have "Regist_section r1 (c\<lparr>call_pc := At_Delete v d\<rparr>) r' (c\<lparr>call_pc := Finished\<rparr>)"
    using Regist_section.delete [of "c\<lparr>call_pc := At_Delete v d\<rparr>" v d r1 r'] r1(2) by simp
  from sections.more [OF Regist_section.stop [OF assms(1)] sections.more [OF draw sections.more [OF this sections.none]]] show ?thesis .
qed

lemma serial_step_run:
  assumes "serial_step s t"
  shows "registry_step\<^sup>*\<^sup>* s t"
  using assms
proof cases
  case (arrive k name ip port)
  then show ?thesis by (auto intro: registry_step.arrive)
next
  case (busy k c)
  from sections.more [OF Regist_section.check_busy [OF busy(3,4)] sections.none] sections_run [OF _ refl busy(2)] busy(1)
  show ?thesis by fastforce
next
  case (gave_up k c)
  from sections.more [OF Regist_section.wait_cancelled [OF gave_up(3), of "rgy_reg s"] sections.none] sections_run [OF _ refl gave_up(2)] gave_up(1)
  show ?thesis by fastforce
next
  case (admitted k c v r reply)
  from sections_run [OF sections_admit [OF admitted(3-6)] refl admitted(2)] admitted(1) show ?thesis by simp
next
  case (polled k c v kept reply)
  from sections_run [OF sections_poll [OF polled(3-5)] refl polled(2)] polled(1) show ?thesis by simp
next
  case (left k c v kept r)
  from sections_run [OF sections_leave [OF left(3,4)] refl left(2)] left(1) show ?thesis by simp
qed

text \<open>So the concurrent handler simulates its serial runs, and its invariant holds in them.\<close>

interpretation serial: simulation registry_start registry_step registry_inv registry_start serial_step "(=)"
  by unfold_locales (auto intro: serial_step_run)

section \<open>Every call is a session\<close>

text \<open>What a call in its loop and the node behind it know: the node has replayed all replies of the call.\<close>

definition session_of :: "Registrar \<Rightarrow> regist_call \<Rightarrow> nat \<Rightarrow> nat \<Rightarrow> session" where
  "session_of r c v kept = \<lparr>ses_reg = r, ses_own = v, ses_kept = kept,
     ses_peers = replay (concat (map rr_operation_cmd (call_replies c))) Map.empty\<rparr>"

fun serial_call :: "Registrar \<Rightarrow> regist_call \<Rightarrow> regist_pc \<Rightarrow> bool" where
  "serial_call r c At_Check = (call_replies c = [])"
| "serial_call r c At_Wait = (call_replies c = [])"
| "serial_call r c (At_Loop v kept) = session_inv (session_of r c v kept)"
| "serial_call r c Finished = True"
| "serial_call r c _ = False"

definition serial_inv :: "registry \<Rightarrow> bool" where
  "serial_inv s \<longleftrightarrow> registry_inv s \<and> history (rgy_reg s) \<and>
     (\<forall>k c. rgy_calls s k = Some c \<longrightarrow> serial_call (rgy_reg s) c (call_pc c))"

lemma serial_call_cases:
  assumes "serial_call r c (call_pc c)"
  obtains "call_pc c \<in> {At_Check, At_Wait}" "call_replies c = []" | "call_pc c = Finished"
    | v kept where "call_pc c = At_Loop v kept" "session_inv (session_of r c v kept)"
  using assms by (cases "call_pc c") auto

lemma session_of_session:
  "session_step (session_of r c v kept) ((session_of r c v kept)\<lparr>ses_reg := r'\<rparr>) \<Longrightarrow>
     session_inv (session_of r c v kept) \<Longrightarrow> session_inv (session_of r' c v kept)"
  using session_step_inv [of "session_of r c v kept" "(session_of r c v kept)\<lparr>ses_reg := r'\<rparr>"] by (simp add: session_of_def)

text \<open>The other calls see a registration and a departure as a step of their session.\<close>

lemma serial_call_admit:
  assumes "serial_call r c (call_pc c)" and "\<not> Registrar_find_exist_node name r"
  shows "serial_call (snd (Registrar_admit name ip port r)) c (call_pc c)"
  using assms(1)
proof (cases rule: serial_call_cases)
  case (3 v kept)
  have "session_step (session_of r c v kept) ((session_of r c v kept)\<lparr>ses_reg := snd (Registrar_admit name ip port r)\<rparr>)"
    using session_step.other_admitted [of name "session_of r c v kept" ip port] assms(2) by (simp add: session_of_def)
  with 3 session_of_session show ?thesis by auto
qed auto

lemma serial_call_leave:
  assumes "serial_call r c (call_pc c)" and "live r v" and "Registrar_deregistration v r = Inr r'" and "v \<notin> pc_versions (call_pc c)"
  shows "serial_call r' c (call_pc c)"
  using assms(1)
proof (cases rule: serial_call_cases)
  case (3 w kept)
  have "session_step (session_of r c w kept) ((session_of r c w kept)\<lparr>ses_reg := r'\<rparr>)"
    using session_step.other_left [of "session_of r c w kept" v r'] assms(2-4) 3(1) by (simp add: session_of_def)
  with 3 session_of_session show ?thesis by auto
qed auto

lemma session_of_reply:
  "session_of r (c\<lparr>call_pc := p, call_replies := call_replies c @ [reply]\<rparr>) v kept =
     \<lparr>ses_reg = r, ses_own = v, ses_kept = kept,
       ses_peers = replay (rr_operation_cmd reply) (replay (concat (map rr_operation_cmd (call_replies c))) Map.empty)\<rparr>"
  by (simp add: session_of_def replay_def)

lemma serial_admitted:
  assumes "history r" and "call_replies c = []" and "\<not> Registrar_find_exist_node (call_name c) r"
    and "Registrar_admit (call_name c) (call_ip c) (call_port c) r = (v, r')" and "Registrar_list 0 (int v - 1) r' = Inr reply"
  shows "session_inv (session_of r' (c\<lparr>call_pc := p, call_replies := call_replies c @ [reply]\<rparr>) v v)"
proof -
  have "session_open (call_name c) (call_ip c) (call_port c) r =
      Inr (session_of r' (c\<lparr>call_pc := p, call_replies := call_replies c @ [reply]\<rparr>) v v)"
    using assms(2,4,5) unfolding session_of_reply by (simp add: session_open_def replay_def)
  with assms(1,3) show ?thesis by (blast intro: session_start_inv session_start.intros)
qed

lemma serial_polled:
  assumes "session_inv (session_of r c v kept)" and "int kept + 1 \<le> int (reg_version r) - 1"
    and "Registrar_list (kept + 1) (int (reg_version r) - 1) r = Inr reply"
    and "c' = c\<lparr>call_pc := p, call_replies := call_replies c @ [reply]\<rparr>"
  shows "session_poll (session_of r c v kept) = Inr (session_of r c' v (nat (int (reg_version r) - 1)))"
  using assms(2,3) unfolding assms(4) session_of_reply by (simp add: session_poll_def session_of_def Let_def)

lemma serial_step_inv:
  assumes inv: "serial_inv s" and step: "serial_step s t"
  shows "serial_inv t"
proof -
  have reg: "registry_inv s" and hist: "history (rgy_reg s)"
    and calls: "\<And>k c. rgy_calls s k = Some c \<Longrightarrow> serial_call (rgy_reg s) c (call_pc c)"
    using inv by (auto simp: serial_inv_def)
  have "registry_inv t" using serial.impl.step_inv [OF _ step] reg by blast
  moreover from step have "history (rgy_reg t) \<and> (\<forall>k c. rgy_calls t k = Some c \<longrightarrow> serial_call (rgy_reg t) c (call_pc c))"
  proof cases
    case (busy k c)
    have "call_replies c = []" using calls [OF busy(2)] busy(3) by simp
    with hist calls busy(1) show ?thesis by (auto split: if_splits)
  next
    case (admitted k c v r reply)
    have r: "r = snd (Registrar_admit (call_name c) (call_ip c) (call_port c) (rgy_reg s))" using admitted(5) by simp
    have "call_replies c = []" using calls [OF admitted(2)] admitted(3) by auto
    from serial_admitted [OF hist this admitted(4-6)] calls serial_call_admit [OF _ admitted(4)] hist admitted(1,4) show ?thesis
      by (auto simp: r intro: history.admit split: if_splits)
  next
    case (polled k c v kept reply)
    have "session_inv (session_of (rgy_reg s) c v kept)" using calls [OF polled(2)] polled(3) by simp
    with serial_polled [OF this polled(4,5) refl] session_step_inv calls hist polled(1) show ?thesis
      by (auto intro: session_step.polled split: if_splits)
  next
    case (left k c v kept r)
    have v: "call_ok (rgy_reg s) c" using reg left(2) by (auto simp: registry_inv_def)
    then have live: "live (rgy_reg s) v" using left(3) by (auto simp: call_ok_def live_def call_info_def)
    have "v \<notin> pc_versions (call_pc e)" if "rgy_calls s j = Some e" "j \<noteq> k" for j e
      using reg left(2,3) that unfolding registry_inv_def by fastforce
    with serial_call_leave [OF calls live left(4)] history.leave [OF hist live left(4)] left(1) show ?thesis
      by (auto split: if_splits)
  qed (use hist calls in \<open>auto split: if_splits\<close>)
  ultimately show ?thesis by (simp add: serial_inv_def)
qed

interpretation serial_sessions: invariant_system registry_start serial_step serial_inv
proof unfold_locales
  show "registry_start s \<Longrightarrow> serial_inv s" for s
    by (auto simp: serial_inv_def registry_start_inv registry_start_def intro: history.init)
qed (rule serial_step_inv)

section \<open>Properties\<close>

text \<open>
  C14: the concurrent registrar serves every node exactly, if its log is changed serially.  Take any run of any number of concurrent
  calls of \<^verbatim>\<open>Regist\<close> in which the check of a name, its registration and the first list of a call are not
  interleaved with sections of other calls, and its departure is not either.  Then no two live registrations
  have the same name; and every call in its loop can make a round after which the node behind
  it, which has replayed all replies of the call, knows exactly the other live nodes with their addresses.
\<close>

theorem serial_calls_exact:
  assumes "registry_start s0" and "serial_step\<^sup>*\<^sup>* s0 s" and "rgy_calls s k = Some c" and "call_pc c = At_Loop v kept"
  shows "(\<forall>i j. live (rgy_reg s) i \<and> live (rgy_reg s) j \<and> name_at (rgy_reg s) i = name_at (rgy_reg s) j \<longrightarrow> i = j) \<and>
    (\<exists>t c'. registry_step\<^sup>*\<^sup>* s t \<and> rgy_reg t = rgy_reg s \<and> rgy_calls t k = Some c' \<and>
       replay (concat (map rr_operation_cmd (call_replies c'))) Map.empty = alive_peers (rgy_reg s) v)"
proof -
  have inv: "serial_inv s" by (rule serial_sessions.reachable_inv [OF assms(1,2)])
  then have "log_wf (rgy_reg s)" by (simp add: serial_inv_def history_log_wf)
  then have "\<forall>i j. live (rgy_reg s) i \<and> live (rgy_reg s) j \<and> name_at (rgy_reg s) i = name_at (rgy_reg s) j \<longrightarrow> i = j"
    by (blast intro: live_unique)
  moreover have ses: "session_inv (session_of (rgy_reg s) c v kept)" using inv assms(3,4) by (fastforce simp: serial_inv_def)
  from session_poll_alive [OF ses] obtain u where
    u: "session_poll (session_of (rgy_reg s) c v kept) = Inr u" "ses_peers u = alive_peers (rgy_reg s) v"
    by (auto simp: session_of_def)
  have "\<exists>t c'. registry_step\<^sup>*\<^sup>* s t \<and> rgy_reg t = rgy_reg s \<and> rgy_calls t k = Some c' \<and>
      replay (concat (map rr_operation_cmd (call_replies c'))) Map.empty = alive_peers (rgy_reg s) v"
  proof (cases "int kept + 1 \<le> int (reg_version (rgy_reg s)) - 1")
    case True
    with u(1) obtain reply where reply: "Registrar_list (kept + 1) (int (reg_version (rgy_reg s)) - 1) (rgy_reg s) = Inr reply"
      by (auto simp: session_poll_def session_of_def Let_def bind_result_Inr_iff)
    let ?c = "c\<lparr>call_pc := At_Loop v (nat (int (reg_version (rgy_reg s)) - 1)), call_replies := call_replies c @ [reply]\<rparr>"
    have "replay (concat (map rr_operation_cmd (call_replies ?c))) Map.empty = alive_peers (rgy_reg s) v"
      using serial_polled [OF ses True reply refl] u by (auto simp: session_of_def)
    with serial_step_run [OF serial_step.polled [OF assms(3,4) True reply]] show ?thesis by fastforce
  next
    case False
    with u have "replay (concat (map rr_operation_cmd (call_replies c))) Map.empty = alive_peers (rgy_reg s) v"
      by (auto simp: session_poll_def session_of_def)
    with assms(3) show ?thesis by blast
  qed
  ultimately show ?thesis by blast
qed

text \<open>Two nodes register one after the other.\<close>

definition demo_second :: Registrar where
  "demo_second = snd (Registrar_admit ''hello/sub'' ''127.0.0.1'' 4001 (reg_one ''hello/pub'' 4000))"

lemma demo_second_live: "live demo_second 1" "history demo_second" "reg_version demo_second = 2"
proof -
  have free: "\<not> Registrar_find_exist_node ''hello/pub'' Registrar_init" "\<not> Registrar_find_exist_node ''hello/sub'' (reg_one ''hello/pub'' 4000)"
    by (simp_all add: reg_one_def Registrar_find_exist_node_def Registrar_admit_simps Registrar_init_def)
  have one: "history (reg_one ''hello/pub'' 4000)" unfolding reg_one_def by (rule history.admit [OF history.init free(1)])
  have v: "reg_version (reg_one ''hello/pub'' 4000) = 1" by (simp add: reg_one_def Registrar_admit_simps Registrar_init_def)
  then show "reg_version demo_second = 2" by (simp add: demo_second_def Registrar_admit_simps)
  show "history demo_second" unfolding demo_second_def by (rule history.admit [OF one free(2)])
  show "live demo_second 1"
    using log_wfD(1) [OF history_log_wf [OF one]] v by (simp add: demo_second_def live_def nodes_admit Registrar_admit_simps)
qed

lemma demo_serial_run:
  "\<exists>reply. serial_step\<^sup>*\<^sup>* \<lparr>rgy_reg = Registrar_init, rgy_calls = Map.empty\<rparr>
     (two_calls demo_second (call_at ''hello/pub'' 4000 (At_Loop 0 0) [first_reply]) (call_at ''hello/sub'' 4001 (At_Loop 1 1) [reply]))"
proof -
  let ?r1 = "reg_one ''hello/pub'' 4000" and ?a = "\<lambda>pc l. call_at ''hello/pub'' 4000 pc l" and ?b = "\<lambda>pc l. call_at ''hello/sub'' 4001 pc l"
  let ?s = "\<lambda>r l. \<lparr>rgy_reg = r, rgy_calls = l\<rparr>"
  obtain reply where reply: "Registrar_list 0 (int 1 - 1) demo_second = Inr reply"
    using Registrar_list_sent [OF history_log_wf [OF demo_second_live(2)], of 0 1] demo_second_live(3) by auto
  have "serial_step (?s Registrar_init Map.empty) (?s Registrar_init [0 \<mapsto> ?a At_Check []])"
    using serial_step.arrive [of "?s Registrar_init Map.empty" 0 "''hello/pub''" "''127.0.0.1''" 4000] by (simp add: call_at_def)
  moreover have "serial_step (?s Registrar_init [0 \<mapsto> ?a At_Check []]) (?s ?r1 [0 \<mapsto> ?a (At_Loop 0 0) [first_reply]])"
    using serial_step.admitted [of "?s Registrar_init [0 \<mapsto> ?a At_Check []]" 0 "?a At_Check []" 0 ?r1 first_reply]
    by (simp add: call_at_def Registrar_list_def first_reply_def reg_one_def prod_eq_iff Registrar_admit_simps Registrar_find_exist_node_def Registrar_init_def)
  moreover have "serial_step (?s ?r1 [0 \<mapsto> ?a (At_Loop 0 0) [first_reply]]) (two_calls ?r1 (?a (At_Loop 0 0) [first_reply]) (?b At_Check []))"
    using serial_step.arrive [of "?s ?r1 [0 \<mapsto> ?a (At_Loop 0 0) [first_reply]]" 1 "''hello/sub''" "''127.0.0.1''" 4001]
    by (simp add: call_at_def two_calls_def)
  moreover have "\<not> Registrar_find_exist_node ''hello/sub'' ?r1" "Registrar_admit ''hello/sub'' ''127.0.0.1'' 4001 ?r1 = (1, demo_second)"
    by (simp_all add: reg_one_def Registrar_find_exist_node_def Registrar_admit_simps Registrar_init_def demo_second_def prod_eq_iff)
  then have "serial_step (two_calls ?r1 (?a (At_Loop 0 0) [first_reply]) (?b At_Check []))
      (two_calls demo_second (?a (At_Loop 0 0) [first_reply]) (?b (At_Loop 1 1) [reply]))"
    using serial_step.admitted [of "two_calls ?r1 (?a (At_Loop 0 0) [first_reply]) (?b At_Check [])" 1 "?b At_Check []" 1 demo_second reply] reply
    by (simp add: call_at_def two_calls_def)
  ultimately show ?thesis by (meson converse_rtranclp_into_rtranclp rtranclp.rtrancl_refl)
qed

theorem serial_calls_exact_witness:
  "\<exists>s t c'. rgy_calls s 0 \<noteq> None \<and> live (rgy_reg s) 1 \<and> registry_step\<^sup>*\<^sup>* s t \<and> rgy_calls t 0 = Some c' \<and>
     replay (concat (map rr_operation_cmd (call_replies c'))) Map.empty = alive_peers (rgy_reg s) 0"
proof -
  let ?a = "call_at ''hello/pub'' 4000 (At_Loop 0 0) [first_reply]"
  obtain s where run: "serial_step\<^sup>*\<^sup>* \<lparr>rgy_reg = Registrar_init, rgy_calls = Map.empty\<rparr> s"
    and s: "rgy_calls s 0 = Some ?a" "rgy_reg s = demo_second"
    using demo_serial_run by (auto simp: two_calls_def)
  have "registry_start \<lparr>rgy_reg = Registrar_init, rgy_calls = Map.empty\<rparr>" by (simp add: registry_start_def)
  from serial_calls_exact [OF this run s(1), of 0 0] s demo_second_live(1) show ?thesis
    by (fastforce simp: call_at_def)
qed

end
