(* ===== verification/Registrar_Wait.thy ===== *)
theory Registrar_Wait
  imports Registrar
begin

text \<open>
  The loop of \<^verbatim>\<open>RegistServiceImpl::Regist\<close> and \<^verbatim>\<open>Healthy_Check\<close> (\<^verbatim>\<open>Registrar.cpp\<close>): how a call waits for the others, and
  what the periodic wake-up is for.  \<open>session\<close> has what the call and the node behind it know; here are the
  points at which its thread can be, and the condition variable.
\<close>

section \<open>The loop\<close>

datatype loop_pc =
    In_Head    \<comment> \<open>at the head of the loop\<close>
  | In_Wait    \<comment> \<open>blocked in \<open>cv.wait\<close>\<close>
  | Woken      \<comment> \<open>behind \<open>cv.wait\<close>\<close>
  | Ended      \<comment> \<open>deregistered and returned\<close>

record waiter =
  wt_session :: session
  wt_pc :: loop_pc
  wt_cancelled :: bool

text \<open>The end of the call, one round behind the wait (\<open>write_ok\<close> is the answer of \<^verbatim>\<open>Write\<close>), and what the thread does next.\<close>

definition end_call :: "waiter \<Rightarrow> waiter result" where
  "end_call w =
     bind_result (Registrar_deregistration (ses_own (wt_session w)) (ses_reg (wt_session w))) (\<lambda>r.
       Inr (w\<lparr>wt_session := (wt_session w)\<lparr>ses_reg := r\<rparr>, wt_pc := Ended\<rparr>))"

definition loop_round :: "bool \<Rightarrow> waiter \<Rightarrow> waiter result" where
  "loop_round write_ok w =
     (let s = wt_session w; cversion = int (reg_version (ses_reg s)) - 1 in
      if int (ses_kept s) + 1 \<le> cversion then
        bind_result (Registrar_list (ses_kept s + 1) cversion (ses_reg s)) (\<lambda>reply.
          if \<not> write_ok then end_call w
          else Inr (w\<lparr>wt_session := s\<lparr>ses_kept := nat cversion, ses_peers := replay (rr_operation_cmd reply) (ses_peers s)\<rparr>,
                      wt_pc := In_Head\<rparr>))
      else Inr (w\<lparr>wt_pc := In_Head\<rparr>))"

definition loop_step :: "bool \<Rightarrow> waiter \<Rightarrow> waiter result" where
  "loop_step write_ok w =
     (case wt_pc w of
        In_Head \<Rightarrow> if wt_cancelled w then end_call w else Inr (w\<lparr>wt_pc := In_Wait\<rparr>)
      | Woken \<Rightarrow> loop_round write_ok w
      | _ \<Rightarrow> Inr w)"

text \<open>A round of \<^verbatim>\<open>Healthy_Check\<close>, which is also what every other \<^verbatim>\<open>notify_all\<close> does to the call.\<close>

definition Healthy_Check :: "waiter \<Rightarrow> waiter" where
  "Healthy_Check w = w\<lparr>wt_pc := (case wt_pc w of In_Wait \<Rightarrow> Woken | pc \<Rightarrow> pc)\<rparr>"

text \<open>The thread runs until it blocks or returns: two steps are enough from every point.\<close>

definition run_until_blocked :: "bool \<Rightarrow> waiter \<Rightarrow> waiter result" where
  "run_until_blocked write_ok w = bind_result (loop_step write_ok w) (loop_step write_ok)"

inductive waiter_step :: "waiter \<Rightarrow> waiter \<Rightarrow> bool" where
  own: "loop_step write_ok w = Inr w' \<Longrightarrow> waiter_step w w'"
| notify: "waiter_step w (Healthy_Check w)"
| cancel: "waiter_step w (w\<lparr>wt_cancelled := True\<rparr>)"
| other: "wt_pc w \<noteq> Ended \<Longrightarrow> session_step (wt_session w) t \<Longrightarrow> ses_kept t = ses_kept (wt_session w) \<Longrightarrow>
    ses_peers t = ses_peers (wt_session w) \<Longrightarrow> waiter_step w (w\<lparr>wt_session := t\<rparr>)"

definition waiter_start :: "waiter \<Rightarrow> bool" where
  "waiter_start w \<longleftrightarrow> session_start (wt_session w) \<and> wt_pc w = In_Head \<and> \<not> wt_cancelled w"

section \<open>The loop refines the session\<close>

text \<open>A round of the loop is a poll of the session, unless the reply cannot be written.\<close>

lemma loop_round_poll:
  "loop_round True w = bind_result (session_poll (wt_session w)) (\<lambda>t. Inr (w\<lparr>wt_session := t, wt_pc := In_Head\<rparr>))"
  by (simp add: loop_round_def session_poll_def Let_def bind_result_assoc)

lemma end_call_returns:
  assumes "session_inv (wt_session w)"
  obtains r where "Registrar_deregistration (ses_own (wt_session w)) (ses_reg (wt_session w)) = Inr r"
    "end_call w = Inr (w\<lparr>wt_session := (wt_session w)\<lparr>ses_reg := r\<rparr>, wt_pc := Ended\<rparr>)"
    "\<And>i. live r i \<longleftrightarrow> live (ses_reg (wt_session w)) i \<and> i \<noteq> ses_own (wt_session w)"
proof -
  let ?r = "ses_reg (wt_session w)" and ?v = "ses_own (wt_session w)"
  have len: "reg_version ?r \<le> length (reg_nodes ?r)" and v: "?v < reg_version ?r"
    using assms log_wfD(1) by (auto simp: session_inv_def)
  then obtain r where r: "Registrar_deregistration ?v ?r = Inr r" using Registrar_deregistration_defined by blast
  with that [of r] live_deregistration [OF len v r] show ?thesis by (simp add: end_call_def)
qed

lemma loop_round_cases:
  assumes "session_inv (wt_session w)"
  obtains (polled) t where "loop_round ok w = Inr (w\<lparr>wt_session := t, wt_pc := In_Head\<rparr>)" "session_inv t"
      "ses_reg t = ses_reg (wt_session w)" "ses_own t = ses_own (wt_session w)"
      "ok \<Longrightarrow> ses_peers t = alive_peers (ses_reg (wt_session w)) (ses_own (wt_session w))"
      "t = wt_session w \<or> session_poll (wt_session w) = Inr t"
    | (failed) "\<not> ok" "loop_round ok w = end_call w"
proof -
  obtain t where t: "session_poll (wt_session w) = Inr t" "session_inv t" "ses_reg t = ses_reg (wt_session w)"
      "ses_own t = ses_own (wt_session w)" "ses_peers t = alive_peers (ses_reg (wt_session w)) (ses_own (wt_session w))"
    using session_poll_inv [OF assms] session_poll_alive [OF assms] by (metis sum.inject(2))
  show thesis
  proof (cases ok)
    case True
    with t polled show thesis by (simp add: loop_round_poll)
  next
    case False
    then show thesis
    proof (cases "int (ses_kept (wt_session w)) + 1 \<le> int (reg_version (ses_reg (wt_session w))) - 1")
      case True
      with t(1) False have "loop_round ok w = end_call w"
        by (auto simp: loop_round_def session_poll_def Let_def bind_result_Inr_iff)
      with False failed show thesis by simp
    next
      case no: False
      with False assms polled [of "wt_session w"] show thesis by (simp add: loop_round_def Let_def)
    qed
  qed
qed

text \<open>
  The loop refines the session.  While the call has not ended, its thread is where the session is, and every
  step of the thread, of the health check and of the other calls is a step of the session or none: the
  invariant of the session holds in all states of the loop.
\<close>

lemma loop_step_simulated:
  assumes "session_inv (wt_session w)" and "loop_step ok w = Inr w'" and "wt_pc w' \<noteq> Ended"
  shows "session_step\<^sup>*\<^sup>* (wt_session w) (wt_session w')"
proof (cases "wt_pc w")
  case Woken
  from assms(1) show ?thesis
  proof (cases rule: loop_round_cases [where ok = ok])
    case (polled t)
    with assms(2) Woken have "wt_session w' = t" by (auto simp: loop_step_def)
    with polled(6) show ?thesis by (auto intro: session_step.polled)
  next
    case failed
    with assms(2) Woken have "end_call w = Inr w'" by (simp add: loop_step_def)
    with assms(3) show ?thesis by (auto simp: end_call_def bind_result_Inr_iff)
  qed
qed (use assms(2,3) in \<open>auto simp: loop_step_def end_call_def bind_result_Inr_iff split: if_splits\<close>)

lemma waiter_step_simulated:
  assumes "wt_pc w \<noteq> Ended \<longrightarrow> wt_session w = s" and "session_inv s" and "waiter_step w w'"
  shows "\<exists>t. session_step\<^sup>*\<^sup>* s t \<and> (wt_pc w' \<noteq> Ended \<longrightarrow> wt_session w' = t)"
  using assms(3)
proof cases
  case (own ok)
  with assms(1,2) loop_step_simulated [of w ok w'] show ?thesis
    by (cases "wt_pc w = Ended") (auto simp: loop_step_def)
next
  case (other t)
  with assms(1) show ?thesis by auto
qed (use assms(1) in \<open>auto simp: Healthy_Check_def split: loop_pc.splits\<close>)

interpretation waiter: simulation session_start session_step session_inv waiter_start waiter_step
  "\<lambda>w s. wt_pc w \<noteq> Ended \<longrightarrow> wt_session w = s"
  by unfold_locales (auto simp: waiter_start_def intro: waiter_step_simulated)

lemma waiter_inv: "waiter_start w0 \<Longrightarrow> waiter_step\<^sup>*\<^sup>* w0 w \<Longrightarrow> wt_pc w \<noteq> Ended \<Longrightarrow> session_inv (wt_session w)"
  using waiter.impl.reachable_inv by blast

section \<open>Properties\<close>

text \<open>A step of a thread that is behind the wait, with what it leaves.\<close>

lemma run_not_cancelled:
  assumes "session_inv (wt_session w)" and "\<not> wt_cancelled w" and "wt_pc w = Woken"
  shows "\<exists>w'. run_until_blocked True w = Inr w' \<and> wt_pc w' = In_Wait \<and> \<not> wt_cancelled w' \<and> session_inv (wt_session w') \<and>
    ses_reg (wt_session w') = ses_reg (wt_session w) \<and> ses_own (wt_session w') = ses_own (wt_session w) \<and>
    ses_peers (wt_session w') = alive_peers (ses_reg (wt_session w)) (ses_own (wt_session w))"
  using assms(1)
proof (cases rule: loop_round_cases [where ok = True])
  case (polled t)
  with assms(2,3) show ?thesis by (simp add: run_until_blocked_def loop_step_def)
qed (use assms in simp)

lemma run_cancelled:
  assumes "session_inv (wt_session w)" and "wt_cancelled w" and "wt_pc w = Woken \<or> wt_pc w = In_Head"
  shows "\<exists>w'. run_until_blocked ok w = Inr w' \<and> wt_pc w' = Ended \<and>
    (\<forall>i. live (ses_reg (wt_session w')) i \<longleftrightarrow> live (ses_reg (wt_session w)) i \<and> i \<noteq> ses_own (wt_session w))"
proof -
  obtain r where r: "end_call w = Inr (w\<lparr>wt_session := (wt_session w)\<lparr>ses_reg := r\<rparr>, wt_pc := Ended\<rparr>)"
    "\<And>i. live r i \<longleftrightarrow> live (ses_reg (wt_session w)) i \<and> i \<noteq> ses_own (wt_session w)"
    using end_call_returns [OF assms(1)] by metis
  show ?thesis
  proof (cases "wt_pc w = In_Head")
    case True
    with assms(2) r show ?thesis by (simp add: run_until_blocked_def loop_step_def)
  next
    case False
    then have woken: "wt_pc w = Woken" using assms(3) by simp
    from assms(1) show ?thesis
    proof (cases rule: loop_round_cases [where ok = ok])
      case (polled t)
      let ?w = "w\<lparr>wt_session := t, wt_pc := In_Head\<rparr>"
      from polled(2) have "session_inv (wt_session ?w)" by simp
      then obtain r' where "end_call ?w = Inr (?w\<lparr>wt_session := t\<lparr>ses_reg := r'\<rparr>, wt_pc := Ended\<rparr>)"
        "\<And>i. live r' i \<longleftrightarrow> live (ses_reg (wt_session w)) i \<and> i \<noteq> ses_own (wt_session w)"
        using end_call_returns [of ?w] polled(3,4) by (metis waiter.select_convs(1) waiter.surjective waiter.update_convs(1,2))
      with polled(1) woken assms(2) show ?thesis by (simp add: run_until_blocked_def loop_step_def)
    next
      case failed
      with woken r show ?thesis by (simp add: run_until_blocked_def loop_step_def)
    qed
  qed
qed

text \<open>
  Without the health check a registration can be missed.  \<^verbatim>\<open>cv.wait\<close> has no predicate, so that a notification that comes
  while the call is not blocked is lost: there is a run in which another node registers and notifies, and
  the call then waits with a node that does not know of it.
\<close>

lemma registration_notification_lost:
  "\<exists>w0 w1 w2 w. waiter_start w0 \<and> waiter_step w0 w1 \<and> Healthy_Check w1 = w2 \<and> waiter_step w2 w \<and>
     wt_pc w = In_Wait \<and> \<not> wt_cancelled w \<and> ses_peers (wt_session w) = Map.empty \<and>
     alive_peers (ses_reg (wt_session w)) (ses_own (wt_session w)) = [''hello/pub'' \<mapsto> (''127.0.0.1'', 4000)]"
proof -
  let ?r1 = "snd (Registrar_admit ''hello/sub'' ''127.0.0.1'' 4001 Registrar_init)"
  let ?r2 = "snd (Registrar_admit ''hello/pub'' ''127.0.0.1'' 4000 ?r1)"
  have free: "\<not> Registrar_find_exist_node ''hello/sub'' Registrar_init" "\<not> Registrar_find_exist_node ''hello/pub'' ?r1"
    by (simp_all add: Registrar_find_exist_node_def Registrar_admit_simps Registrar_init_def)
  have h1: "history ?r1" by (rule history.admit [OF history.init free(1)])
  have v: "reg_version ?r1 = 1" "reg_version ?r2 = 2"
    by (simp_all add: Registrar_admit_simps Registrar_init_def)
  have wf: "log_wf ?r1" "log_wf ?r2" using h1 history.admit [OF h1 free(2)] by (auto intro: history_log_wf)
  let ?s = "\<lparr>ses_reg = ?r1, ses_own = 0, ses_kept = 0, ses_peers = Map.empty\<rparr>"
  have "session_open ''hello/sub'' ''127.0.0.1'' 4001 Registrar_init = Inr ?s"
    using Registrar_list_sent [OF wf(1), of 0 0]
    by (simp add: session_open_def case_prod_beta Registrar_admit_simps Registrar_init_def replay_def)
  with free(1) have start: "session_start ?s" by (blast intro: session_start.intros history.init)
  let ?w = "\<lambda>s pc. \<lparr>wt_session = s, wt_pc = pc, wt_cancelled = False\<rparr>"
  have "session_step ?s (?s\<lparr>ses_reg := ?r2\<rparr>)" using session_step.other_admitted [of _ ?s] free(2) by simp
  then have "waiter_step (?w ?s In_Head) (?w (?s\<lparr>ses_reg := ?r2\<rparr>) In_Head)"
    using waiter_step.other [of "?w ?s In_Head" "?s\<lparr>ses_reg := ?r2\<rparr>"] by simp
  moreover have "waiter_step (?w (?s\<lparr>ses_reg := ?r2\<rparr>) In_Head) (?w (?s\<lparr>ses_reg := ?r2\<rparr>) In_Wait)"
    by (rule waiter_step.own [where write_ok = True]) (simp add: loop_step_def)
  moreover have "Healthy_Check (?w (?s\<lparr>ses_reg := ?r2\<rparr>) In_Head) = ?w (?s\<lparr>ses_reg := ?r2\<rparr>) In_Head"
    by (simp add: Healthy_Check_def)
  moreover have "reg_nodes ?r2 ! 1 = (- 1, \<lparr>ni_ip = ''127.0.0.1'', ni_port = 4000, ni_name = ''hello/pub'', ni_code = ADD\<rparr>)"
    using log_wfD(1) [OF wf(1)] v(1) by (simp add: nodes_admit)
  then have "alive_peers ?r2 0 = [''hello/pub'' \<mapsto> (''127.0.0.1'', 4000)]"
    using v by (auto simp: alive_peers_def live_def upt_rec)
  moreover have "waiter_start (?w ?s In_Head)" using start by (simp add: waiter_start_def)
  ultimately show ?thesis
    by (intro exI [of _ "?w ?s In_Head"] exI [of _ "?w (?s\<lparr>ses_reg := ?r2\<rparr>) In_Head"] exI [of _ "?w (?s\<lparr>ses_reg := ?r2\<rparr>) In_Wait"])
      simp
qed



end
