(* ===== verification/Async_Socket.thy ===== *)
theory Async_Socket
  imports Prelude
begin

text \<open>
  \<^verbatim>\<open>cpp/src/AsyncSocket.cpp\<close> (the Linux branch): the base class of the TCP server and client, a thin
  layer over non-blocking sockets and epoll.

  The operating system answers through arguments: a system call of the source is an argument of the
  definition that makes it.  \<open>sock_interest\<close> is the interest list of the epoll instance, which only
  \<^verbatim>\<open>epoll_ctl\<close> and \<^verbatim>\<open>close\<close> change, and \<open>sock_closed\<close> records the calls of \<^verbatim>\<open>close\<close> in order.
\<close>

unbundle bit_operations_syntax

record Socket =
  sock_epoll_fd :: int
  sock_interest :: "nat \<rightharpoonup> 32 word"
  sock_closed :: "nat list"

definition EPOLLIN :: "32 word" where "EPOLLIN = 1"
definition EPOLLPRI :: "32 word" where "EPOLLPRI = 2"
definition EPOLLERR :: "32 word" where "EPOLLERR = 8"
definition EPOLLHUP :: "32 word" where "EPOLLHUP = 16"
definition O_NONBLOCK :: "32 word" where "O_NONBLOCK = 2048"

lemmas epoll_masks = EPOLLIN_def EPOLLPRI_def EPOLLERR_def EPOLLHUP_def

section \<open>Operations\<close>

text \<open>
  \<open>getfl\<close> is the answer of \<^verbatim>\<open>fcntl(fd, F_GETFL, 0)\<close>, \<open>setfl\<close> answers \<^verbatim>\<open>fcntl(fd, F_SETFL, flags)\<close>.
\<close>

definition Socket_set_nonblock :: "int \<Rightarrow> (32 word \<Rightarrow> int) \<Rightarrow> int" where
  "Socket_set_nonblock getfl setfl =
     (if getfl = - 1 then - 1
      else if setfl (word_of_int getfl OR O_NONBLOCK) = - 1 then - 1
      else 0)"

definition Socket_create_socket :: "int \<Rightarrow> int \<Rightarrow> (32 word \<Rightarrow> int) \<Rightarrow> int" where
  "Socket_create_socket sockfd getfl setfl =
     (if sockfd < 0 then sockfd
      else if Socket_set_nonblock getfl setfl < 0 then - 1
      else sockfd)"

text \<open>\<open>ctl\<close> is the answer of \<^verbatim>\<open>epoll_ctl\<close>.\<close>

definition Socket_add_epoll_event ::
    "int \<Rightarrow> nat \<Rightarrow> 32 word \<Rightarrow> 'z Socket_scheme \<Rightarrow> int \<times> 'z Socket_scheme" where
  "Socket_add_epoll_event ctl fd events s =
     (if ctl < 0 then (- 1, s)
      else (0, s\<lparr>sock_interest := (sock_interest s)(fd \<mapsto> events)\<rparr>))"

definition Socket_delete_epoll_event :: "int \<Rightarrow> nat \<Rightarrow> 'z Socket_scheme \<Rightarrow> int \<times> 'z Socket_scheme" where
  "Socket_delete_epoll_event ctl fd s =
     (if ctl < 0 then (- 1, s)
      else (0, s\<lparr>sock_interest := (sock_interest s)(fd := None)\<rparr>))"

definition Socket_init_epoll :: "int \<Rightarrow> 'z Socket_scheme \<Rightarrow> int \<times> 'z Socket_scheme" where
  "Socket_init_epoll created s =
     (let s' = s\<lparr>sock_epoll_fd := created\<rparr> in if created < 0 then (- 1, s') else (0, s'))"

text \<open>\<^verbatim>\<open>close(fd)\<close> of the C library: the kernel also drops the descriptor from the interest list.\<close>

definition close_fd :: "nat \<Rightarrow> 'z Socket_scheme \<Rightarrow> 'z Socket_scheme" where
  "close_fd fd s = s\<lparr>sock_interest := (sock_interest s)(fd := None), sock_closed := sock_closed s @ [fd]\<rparr>"

lemma close_fd_simps [simp]:
  "sock_interest (close_fd fd s) = (sock_interest s)(fd := None)"
  "sock_closed (close_fd fd s) = sock_closed s @ [fd]"
  "Socket.more (close_fd fd s) = Socket.more s"
  by (simp_all add: close_fd_def)

section \<open>Addresses as text\<close>

text \<open>
  \<^verbatim>\<open>inet_ntop(AF_INET, ...)\<close> of the C library: the address in dotted decimal, provided that the text
  and its terminating zero fit into the buffer.
\<close>

type_synonym ip4 = "byte \<times> byte \<times> byte \<times> byte"

definition dotted :: "ip4 \<Rightarrow> string" where
  "dotted ip = (case ip of (a, b, c, d) \<Rightarrow>
     decimal (unat a) @ ''.'' @ decimal (unat b) @ ''.'' @ decimal (unat c) @ ''.'' @ decimal (unat d))"

definition inet_ntop :: "ip4 \<Rightarrow> nat \<Rightarrow> string option" where
  "inet_ntop ip buf_len = (if length (dotted ip) + 1 \<le> buf_len then Some (dotted ip) else None)"

text \<open>\<^verbatim>\<open>string(p)\<close> for a \<^verbatim>\<open>const char*\<close> that may be null.\<close>

definition string_of_cstr :: "string option \<Rightarrow> string result" where
  "string_of_cstr p = (case p of None \<Rightarrow> Inl Null_String | Some s \<Rightarrow> Inr s)"

lemma length_decimal:
  "n < 1000 \<Longrightarrow> length (decimal n) = (if n < 10 then 1 else if n < 100 then 2 else 3)"
  by (subst decimal.simps, subst decimal.simps, subst decimal.simps) auto

lemma length_decimal_byte:
  "length (decimal (unat (b :: byte))) = (if unat b < 10 then 1 else if unat b < 100 then 2 else 3)"
proof -
  have "unat b < 256" using unsigned_less [of b] by simp
  then show ?thesis by (intro length_decimal) simp
qed

lemma length_dotted:
  "length (dotted (a, b, c, d)) \<le> 15"
  "length (dotted (a, b, c, d)) = 15 \<longleftrightarrow> 100 \<le> unat a \<and> 100 \<le> unat b \<and> 100 \<le> unat c \<and> 100 \<le> unat d"
  by (auto simp: dotted_def length_decimal_byte)

text \<open>
  The sources pass a buffer of 15 bytes, one less than \<^verbatim>\<open>INET_ADDRSTRLEN\<close>: it is too small exactly
  for the addresses all of whose four numbers have three digits.
\<close>

lemma inet_ntop_15:
  "inet_ntop (a, b, c, d) 15 =
     (if 100 \<le> unat a \<and> 100 \<le> unat b \<and> 100 \<le> unat c \<and> 100 \<le> unat d then None
      else Some (dotted (a, b, c, d)))"
  using length_dotted [of a b c d] by (auto simp: inet_ntop_def)

lemma colon_notin_dotted: "CHR '':'' \<notin> set (dotted ip)"
  using set_decimal [of "CHR '':''"] by (cases ip) (fastforce simp: dotted_def)

text \<open>The token of a peer, \<^verbatim>\<open>ip + ":" + to_string(port)\<close>, determines its address and port.\<close>

definition addr_token :: "string \<Rightarrow> int \<Rightarrow> string" where
  "addr_token ip port = ip @ '':'' @ to_string port"

lemma addr_token_not_Nil [simp]: "addr_token ip port \<noteq> []" "[] \<noteq> addr_token ip port"
  by (simp_all add: addr_token_def)

lemma addr_token_inject: "addr_token ip port = addr_token ip' port' \<longleftrightarrow> ip = ip' \<and> port = port'"
  using colon_split_unique [of ip "CHR '':''" "to_string port" ip' "to_string port'"]
  by (auto simp: addr_token_def colon_notin_to_string to_string_inject)

lemma Socket_set_nonblock_flag:
  assumes "Socket_set_nonblock getfl setfl = 0"
  shows "\<exists>flags. setfl flags \<noteq> - 1 \<and> flags AND O_NONBLOCK = O_NONBLOCK"
proof -
  from assms have "setfl (word_of_int getfl OR O_NONBLOCK) \<noteq> - 1"
    by (auto simp: Socket_set_nonblock_def split: if_splits)
  moreover have "(word_of_int getfl OR O_NONBLOCK) AND O_NONBLOCK = O_NONBLOCK"
    by (simp add: bit.conj_disj_distrib2)
  ultimately show ?thesis by blast
qed

end
