(* ===== verification/TCP_Server.thy ===== *)
theory TCP_Server
  imports Serialization Async_Socket
begin

text \<open>
  \<^verbatim>\<open>cpp/src/TCPServer.cpp\<close>: the receiving end of the topic connections.

  A server accepts connections on its listening socket, waits for the connection handshake to tell it
  which topic a peer publishes (\<^verbatim>\<open>accept_client\<close>), and from then on reads the peer's bytes, decodes
  them with the topic's decoder and calls the subscribers.  The answers of the system calls are
  arguments; the C++ dynamic type behind a \<^verbatim>\<open>Decoder*\<close> is the protobuf interface \<open>pbs topic\<close>.
\<close>

section \<open>State\<close>

record ('m, 'f) TCPServer = Socket +
  srv_decoders :: "string \<rightharpoonup> ('m, 'f) SpecifiedDecoder"
  srv_addr_to_topic :: "string \<rightharpoonup> string"
  srv_fd_to_addr :: "string list"
  srv_fd_receive_data :: "bytes list"
  srv_unmapped_addr_to_fd :: "string \<rightharpoonup> nat"
  srv_fd :: int
  srv_ip :: string
  srv_port :: int
  srv_buf_size :: nat     \<comment> \<open>the function-local static of \<open>handle_client_event\<close>\<close>

definition max_buffer_size :: nat where "max_buffer_size = 65536"

text \<open>The answers of the system calls that the treatment of one event makes.\<close>

datatype accept_answer = Accept_EAGAIN | Accept_Error | Accepted nat ip4 "16 word"

datatype recv_end = Recv_EAGAIN | Recv_Empty | Recv_Error

record sys_answers =
  ans_accept :: accept_answer
  ans_getfl :: int
  ans_setfl :: "32 word \<Rightarrow> int"
  ans_ctl :: int
  ans_chunks :: "bytes list"
  ans_end :: recv_end

record event =
  ev_fd :: nat
  ev_events :: "32 word"
  ev_ans :: sys_answers

datatype epoll_answer = Epoll_EAGAIN | Epoll_Error | Epoll_Events "event list"

section \<open>Operations\<close>

text \<open>\<open>created\<close> is the answer of \<^verbatim>\<open>epoll_create\<close>; \<^verbatim>\<open>tcp_srv_fd\<close> starts uninitialised, as \<open>garbage\<close>.\<close>

definition TCPServer_new :: "int \<Rightarrow> int \<Rightarrow> string \<Rightarrow> int \<Rightarrow> ('m, 'f) TCPServer" where
  "TCPServer_new created garbage ip port =
     (let s = \<lparr>sock_epoll_fd = garbage, sock_interest = Map.empty, sock_closed = [],
               srv_decoders = Map.empty, srv_addr_to_topic = Map.empty, srv_fd_to_addr = [],
               srv_fd_receive_data = [], srv_unmapped_addr_to_fd = Map.empty, srv_fd = garbage,
               srv_ip = ip, srv_port = port, srv_buf_size = 8192\<rparr>;
          s' = snd (Socket_init_epoll created s)
      in s'\<lparr>srv_fd_to_addr := vec_resize 100 '''' (srv_fd_to_addr s')\<rparr>)"

definition TCPServer_bind_socket :: "int \<Rightarrow> nat \<Rightarrow> ('m, 'f) TCPServer \<Rightarrow> int \<times> ('m, 'f) TCPServer" where
  "TCPServer_bind_socket bound fd s = (if bound < 0 then (- 1, close_fd fd s) else (0, s))"

definition TCPServer_listen_socket :: "int \<Rightarrow> nat \<Rightarrow> ('m, 'f) TCPServer \<Rightarrow> int \<times> ('m, 'f) TCPServer" where
  "TCPServer_listen_socket listened fd s = (if listened < 0 then (- 1, close_fd fd s) else (0, s))"

text \<open>\<open>name\<close> is the port in the address that \<^verbatim>\<open>getsockname\<close> returns, if it succeeds.\<close>

definition TCPServer_get_socket_info ::
    "16 word option \<Rightarrow> nat \<Rightarrow> ('m, 'f) TCPServer \<Rightarrow> int \<times> ('m, 'f) TCPServer" where
  "TCPServer_get_socket_info name fd s =
     (case name of None \<Rightarrow> (- 1, close_fd fd s) | Some port \<Rightarrow> (0, s\<lparr>srv_port := uint port\<rparr>))"

record init_answers =
  ia_sockfd :: int
  ia_getfl :: int
  ia_setfl :: "32 word \<Rightarrow> int"
  ia_bind :: int
  ia_listen :: int
  ia_getsockname :: "16 word option"
  ia_ctl :: int

definition TCPServer_init_tcp_srv :: "init_answers \<Rightarrow> ('m, 'f) TCPServer \<Rightarrow> int \<times> ('m, 'f) TCPServer" where
  "TCPServer_init_tcp_srv a s =
     (let fd = Socket_create_socket (ia_sockfd a) (ia_getfl a) (ia_setfl a);
          s = s\<lparr>srv_fd := fd\<rparr> in
      if fd < 0 then (- 1, s)
      else let (r, s) = TCPServer_bind_socket (ia_bind a) (nat fd) s in
      if r < 0 then (- 1, s)
      else let (r, s) = TCPServer_listen_socket (ia_listen a) (nat fd) s in
      if r < 0 then (- 1, s)
      else let (r, s) = TCPServer_get_socket_info (ia_getsockname a) (nat fd) s in
      if r < 0 then (- 1, s)
      else let (r, s) = Socket_add_epoll_event (ia_ctl a) (nat fd) (EPOLLIN OR EPOLLPRI OR EPOLLERR) s in
      if r < 0 then (- 1, s)
      else (srv_port s, s))"

text \<open>
  \<^verbatim>\<open>accept_client\<close> calls itself every 100 ms until the peer's address is known.
  \<open>TCPServer_map_client\<close> is its first branch; in \<open>TCPServer_accept_client\<close> below the spin thread runs
  between two attempts.
\<close>

definition TCPServer_map_client ::
    "int \<Rightarrow> string \<Rightarrow> string \<Rightarrow> nat \<Rightarrow> ('m, 'f) TCPServer \<Rightarrow> ('m, 'f) TCPServer result" where
  "TCPServer_map_client ctl topic token fd s =
     (let s1 = s\<lparr>srv_addr_to_topic := (srv_addr_to_topic s)(token \<mapsto> topic)\<rparr>;
          data = (if length (srv_fd_receive_data s1) \<le> fd
                  then vec_resize (length (srv_fd_receive_data s1) + 100) [] (srv_fd_receive_data s1)
                  else srv_fd_receive_data s1)
      in bind_result (vec_set data fd []) (\<lambda>data'.
           let s2 = snd (Socket_add_epoll_event ctl fd (EPOLLIN OR EPOLLPRI) (s1\<lparr>srv_fd_receive_data := data'\<rparr>))
           in Inr (s2\<lparr>srv_unmapped_addr_to_fd := (srv_unmapped_addr_to_fd s2)(token := None)\<rparr>)))"

definition TCPServer_accept_new_client ::
    "sys_answers \<Rightarrow> ('m, 'f) TCPServer \<Rightarrow> (int \<times> ('m, 'f) TCPServer) result" where
  "TCPServer_accept_new_client a s =
     (case ans_accept a of
        Accept_EAGAIN \<Rightarrow> Inr (0, s)
      | Accept_Error \<Rightarrow> Inr (- 1, s)
      | Accepted client_fd ip port \<Rightarrow>
          if Socket_set_nonblock (ans_getfl a) (ans_setfl a) < 0 then Inr (- 1, close_fd client_fd s)
          else bind_result (string_of_cstr (inet_ntop ip 15)) (\<lambda>src_ip.
            let addrs = (if length (srv_fd_to_addr s) \<le> client_fd
                         then vec_resize (length (srv_fd_to_addr s) + 100) '''' (srv_fd_to_addr s)
                         else srv_fd_to_addr s);
                token = addr_token src_ip (uint port)
            in bind_result (vec_set addrs client_fd token) (\<lambda>addrs'.
                 Inr (0, s\<lparr>srv_fd_to_addr := addrs',
                           srv_unmapped_addr_to_fd := (srv_unmapped_addr_to_fd s)(token \<mapsto> client_fd)\<rparr>))))"

definition TCPServer_close_and_delete_event ::
    "int \<Rightarrow> nat \<Rightarrow> ('m, 'f) TCPServer \<Rightarrow> ('m, 'f) TCPServer result" where
  "TCPServer_close_and_delete_event ctl fd s =
     bind_result (vec_get (srv_fd_to_addr s) fd) (\<lambda>token.
       bind_result (vec_set (srv_fd_to_addr s) fd '''') (\<lambda>addrs.
         bind_result (vec_set (srv_fd_receive_data s) fd []) (\<lambda>data.
           Inr (close_fd fd (snd (Socket_delete_epoll_event ctl fd
             (s\<lparr>srv_unmapped_addr_to_fd := (srv_unmapped_addr_to_fd s)(token := None),
                srv_addr_to_topic := (srv_addr_to_topic s)(token := None),
                srv_fd_to_addr := addrs, srv_fd_receive_data := data\<rparr>)))))))"

text \<open>
  The receive loop of \<^verbatim>\<open>handle_client_event\<close>.  A non-blocking socket yields some chunks of data and
  then an answer that ends the loop; the calls of subscriber callbacks are returned in order.
\<close>

definition next_buf_size :: "nat \<Rightarrow> nat \<Rightarrow> nat" where
  "next_buf_size buf_size recv_ret =
     (let b = (if buf_size = recv_ret then buf_size * 2 else buf_size)
      in if b > max_buffer_size then max_buffer_size else b)"

definition recv_chunk ::
    "(string \<Rightarrow> 'm protobuf) \<Rightarrow> string \<Rightarrow> nat \<Rightarrow> bytes \<Rightarrow> ('m, 'f) TCPServer \<Rightarrow>
       (('m, 'f) TCPServer \<times> ('f \<times> 'm) list) result" where
  "recv_chunk pbs topic fd chunk s =
     bind_result (vec_get (srv_fd_receive_data s) fd) (\<lambda>old.
       let data = old @ chunk in
       case srv_decoders s topic of
         None \<Rightarrow> Inl Null_Deref
       | Some d \<Rightarrow>
           bind_result (SpecifiedDecoder_decode (pbs topic) data d) (\<lambda>(delete_size, d1).
             let (d2, calls) = SpecifiedDecoder_handle d1 in
             bind_result (vec_set (srv_fd_receive_data s) fd (drop (nat delete_size) data)) (\<lambda>recv.
               Inr (s\<lparr>srv_decoders := (srv_decoders s)(topic \<mapsto> d2), srv_fd_receive_data := recv,
                      srv_buf_size := next_buf_size (srv_buf_size s) (length chunk)\<rparr>, calls))))"

fun recv_loop ::
    "(string \<Rightarrow> 'm protobuf) \<Rightarrow> string \<Rightarrow> nat \<Rightarrow> int \<Rightarrow> recv_end \<Rightarrow> bytes list \<Rightarrow> ('m, 'f) TCPServer \<Rightarrow>
       (('m, 'f) TCPServer \<times> ('f \<times> 'm) list) result" where
  "recv_loop pbs topic fd ctl stop [] s =
     (case stop of
        Recv_EAGAIN \<Rightarrow> Inr (s, [])
      | _ \<Rightarrow> bind_result (TCPServer_close_and_delete_event ctl fd s) (\<lambda>s'. Inr (s', [])))"
| "recv_loop pbs topic fd ctl stop (chunk # chunks) s =
     bind_result (recv_chunk pbs topic fd chunk s) (\<lambda>(s1, calls).
       bind_result (recv_loop pbs topic fd ctl stop chunks s1) (\<lambda>(s2, calls').
         Inr (s2, calls @ calls')))"

definition TCPServer_handle_client_event ::
    "(string \<Rightarrow> 'm protobuf) \<Rightarrow> sys_answers \<Rightarrow> nat \<Rightarrow> 32 word \<Rightarrow> ('m, 'f) TCPServer \<Rightarrow>
       (('m, 'f) TCPServer \<times> ('f \<times> 'm) list) result" where
  "TCPServer_handle_client_event pbs a client_fd revents s =
     (if revents AND (EPOLLERR OR EPOLLHUP) \<noteq> 0
      then bind_result (TCPServer_close_and_delete_event (ans_ctl a) client_fd s) (\<lambda>s'. Inr (s', []))
      else bind_result (vec_get (srv_fd_to_addr s) client_fd) (\<lambda>client_addr.
        case srv_addr_to_topic s client_addr of
          None \<Rightarrow> Inr (s, [])
        | Some topic \<Rightarrow>
            if srv_decoders s topic = None then Inr (s, [])
            else recv_loop pbs topic client_fd (ans_ctl a) (ans_end a) (ans_chunks a) s))"

text \<open>One round of \<^verbatim>\<open>for (int i = 0; i < event_ret; i++)\<close>, and the loop with the return value \<^verbatim>\<open>ret\<close>.\<close>

definition event_round ::
    "(string \<Rightarrow> 'm protobuf) \<Rightarrow> event \<Rightarrow> ('m, 'f) TCPServer \<Rightarrow>
       (bool \<times> ('m, 'f) TCPServer \<times> (nat \<times> 'f \<times> 'm) list) result" where
  "event_round pbs e s =
     (if int (ev_fd e) = srv_fd s
      then bind_result (TCPServer_accept_new_client (ev_ans e) s) (\<lambda>(r, s'). Inr (r < 0, s', []))
      else bind_result (TCPServer_handle_client_event pbs (ev_ans e) (ev_fd e) (ev_events e) s)
        (\<lambda>(s', calls). Inr (False, s', map (Pair (ev_fd e)) calls)))"

fun event_loop ::
    "(string \<Rightarrow> 'm protobuf) \<Rightarrow> event list \<Rightarrow> int \<Rightarrow> ('m, 'f) TCPServer \<Rightarrow>
       (int \<times> ('m, 'f) TCPServer \<times> (nat \<times> 'f \<times> 'm) list) result" where
  "event_loop pbs [] ret s = Inr (ret, s, [])"
| "event_loop pbs (e # es) ret s =
     bind_result (event_round pbs e s) (\<lambda>(failed, s1, log).
       bind_result (event_loop pbs es (if failed then - 1 else ret) s1) (\<lambda>(ret', s2, log').
         Inr (ret', s2, log @ log')))"

definition TCPServer_event_handler ::
    "(string \<Rightarrow> 'm protobuf) \<Rightarrow> epoll_answer \<Rightarrow> ('m, 'f) TCPServer \<Rightarrow>
       (int \<times> ('m, 'f) TCPServer \<times> (nat \<times> 'f \<times> 'm) list) result" where
  "TCPServer_event_handler pbs w s =
     (case w of
        Epoll_EAGAIN \<Rightarrow> Inr (0, s, [])
      | Epoll_Error \<Rightarrow> Inr (- 1, s, [])
      | Epoll_Events es \<Rightarrow> if es = [] then Inr (0, s, []) else event_loop pbs es 0 s)"

text \<open>
  \<open>spin_rounds\<close>: a thread that calls \<^verbatim>\<open>spinOnce\<close> again and again, with all the calls it makes.

  \<open>TCPServer_accept_client\<close>: every element of \<open>rounds\<close> is what the spin thread does during one sleep
  of 100 ms.  \<open>None\<close>: after all these attempts the call has still not returned.
\<close>

fun spin_rounds ::
    "(string \<Rightarrow> 'm protobuf) \<Rightarrow> epoll_answer list \<Rightarrow> ('m, 'f) TCPServer \<Rightarrow>
       (('m, 'f) TCPServer \<times> (nat \<times> 'f \<times> 'm) list) result" where
  "spin_rounds pbs [] s = Inr (s, [])"
| "spin_rounds pbs (w # ws) s =
     bind_result (TCPServer_event_handler pbs w s) (\<lambda>(ret, s1, log).
       bind_result (spin_rounds pbs ws s1) (\<lambda>(s2, log'). Inr (s2, log @ log')))"

fun TCPServer_accept_client ::
    "(string \<Rightarrow> 'm protobuf) \<Rightarrow> int \<Rightarrow> string \<Rightarrow> string \<Rightarrow> int \<Rightarrow> epoll_answer list list \<Rightarrow>
       ('m, 'f) TCPServer \<Rightarrow> ('m, 'f) TCPServer result option" where
  "TCPServer_accept_client pbs ctl topic ip port rounds s =
     (let token = addr_token ip port in
      case srv_unmapped_addr_to_fd s token of
        Some fd \<Rightarrow> Some (TCPServer_map_client ctl topic token fd s)
      | None \<Rightarrow>
          (case rounds of
             [] \<Rightarrow> None
           | ws # rounds' \<Rightarrow>
               (case spin_rounds pbs ws s of
                  Inl err \<Rightarrow> Some (Inl err)
                | Inr (s', log) \<Rightarrow> TCPServer_accept_client pbs ctl topic ip port rounds' s')))"

declare TCPServer_accept_client.simps [simp del]

text \<open>
  The part of \<^verbatim>\<open>NodeHandler::subscribe_impl\<close> that works on the server's decoders.  \<open>url\<close> names the
  message type of the subscription; the \<^verbatim>\<open>static_cast\<close> is only valid if it is the decoder's type.
\<close>

definition subscribe_decoder ::
    "(string \<Rightarrow> 'm protobuf) \<Rightarrow> string \<Rightarrow> string \<Rightarrow> 'f \<Rightarrow> ('m, 'f) TCPServer \<Rightarrow> ('m, 'f) TCPServer result" where
  "subscribe_decoder pbs topic url cb s =
     (let d = (case srv_decoders s topic of None \<Rightarrow> \<lparr>dec_msgs = [], dec_functions = []\<rparr> | Some d \<Rightarrow> d) in
      if get_typeurl (pbs topic) \<noteq> url then Inl Bad_Downcast
      else Inr (s\<lparr>srv_decoders := (srv_decoders s)(topic \<mapsto> SpecifiedDecoder_add_callback cb d)\<rparr>))"

section \<open>Receiving refines the framing specification\<close>

lemma recv_chunk_deframe:
  assumes "fd < length (srv_fd_receive_data s)" and "srv_decoders s topic = Some d" and "dec_msgs d = []"
    and "length (srv_fd_receive_data s ! fd @ chunk) < 2 ^ 31"
    and "deframe (pbs topic) (srv_fd_receive_data s ! fd @ chunk) = Some (ms, r)"
  shows "recv_chunk pbs topic fd chunk s =
    Inr (s\<lparr>srv_fd_receive_data := (srv_fd_receive_data s)[fd := r],
           srv_buf_size := next_buf_size (srv_buf_size s) (length chunk)\<rparr>, deliver (dec_functions d) ms)"
proof -
  let ?data = "srv_fd_receive_data s ! fd @ chunk"
  have rest: "drop (length ?data - length r) ?data = r"
    using deframe_rest [OF assms(5)] by metis
  have "(srv_decoders s)(topic \<mapsto> d\<lparr>dec_msgs := []\<rparr>) = srv_decoders s"
    using assms(2,3) by (cases d) auto
  with assms(1-3) rest show ?thesis
    using SpecifiedDecoder_decode_deframe [OF assms(4,5), of d]
    by (simp add: recv_chunk_def vec_get_Inr vec_set_Inr SpecifiedDecoder_handle_eq)
qed

text \<open>However the network cuts the byte stream, the callbacks get the messages of the whole stream.\<close>

lemma recv_loop_deframe:
  assumes "protobuf_laws (pbs topic)"
    and "fd < length (srv_fd_receive_data s)" and "srv_decoders s topic = Some d" and "dec_msgs d = []"
    and "length (srv_fd_receive_data s ! fd @ concat chunks) < 2 ^ 31"
    and "deframe (pbs topic) (srv_fd_receive_data s ! fd @ concat chunks) = Some (ms, r)"
    and "chunks \<noteq> [] \<or> deframe (pbs topic) (srv_fd_receive_data s ! fd) = Some ([], srv_fd_receive_data s ! fd)"
  shows "recv_loop pbs topic fd ctl Recv_EAGAIN chunks s =
    Inr (s\<lparr>srv_fd_receive_data := (srv_fd_receive_data s)[fd := r],
           srv_buf_size := foldl next_buf_size (srv_buf_size s) (map length chunks)\<rparr>,
         deliver (dec_functions d) ms)"
  using assms(2-)
proof (induction chunks arbitrary: s ms)
  case Nil
  then show ?case by simp
next
  case (Cons c cs)
  let ?old = "srv_fd_receive_data s ! fd"
  have "deframe (pbs topic) ((?old @ c) @ concat cs) \<noteq> None" using Cons.prems(5) by simp
  then obtain ms1 r1 where part: "deframe (pbs topic) (?old @ c) = Some (ms1, r1)"
    using deframe_prefix [OF assms(1)] by fastforce
  let ?s1 = "s\<lparr>srv_fd_receive_data := (srv_fd_receive_data s)[fd := r1],
           srv_buf_size := next_buf_size (srv_buf_size s) (length c)\<rparr>"
  have chunk: "recv_chunk pbs topic fd c s = Inr (?s1, deliver (dec_functions d) ms1)"
    using recv_chunk_deframe [of fd s topic d c pbs ms1 r1] Cons.prems part by simp
  obtain ms2 where ms2: "deframe (pbs topic) (r1 @ concat cs) = Some (ms2, r)" "ms = ms1 @ ms2"
    using deframe_append [OF assms(1) part, of "concat cs"] Cons.prems(5) by auto
  note rest = deframe_rest [OF part]
  have "recv_loop pbs topic fd ctl Recv_EAGAIN cs ?s1 =
      Inr (?s1\<lparr>srv_fd_receive_data := (srv_fd_receive_data ?s1)[fd := r],
         srv_buf_size := foldl next_buf_size (srv_buf_size ?s1) (map length cs)\<rparr>, deliver (dec_functions d) ms2)"
    by (rule Cons.IH) (use Cons.prems(1-4) rest ms2(1) in simp_all)
  then show ?case by (simp add: chunk ms2(2) deliver_append)
qed

section \<open>The receive buffer size\<close>

definition buf_sizes :: "nat set" where "buf_sizes = {8192, 16384, 32768, 65536}"

lemma next_buf_size_cases:
  "b \<in> buf_sizes \<Longrightarrow> next_buf_size b n \<in> buf_sizes \<and> b \<le> next_buf_size b n"
  by (auto simp: buf_sizes_def next_buf_size_def max_buffer_size_def)

section \<open>The invariant of the connection tables\<close>

abbreviation addr_of :: "('m, 'f) TCPServer \<Rightarrow> nat \<Rightarrow> string" where
  "addr_of s fd \<equiv> srv_fd_to_addr s ! fd"

definition conn_ok :: "('m, 'f) TCPServer \<Rightarrow> bool" where
  "conn_ok s \<longleftrightarrow>
     (\<forall>i j. i < length (srv_fd_to_addr s) \<longrightarrow> j < length (srv_fd_to_addr s) \<longrightarrow>
        addr_of s i \<noteq> [] \<longrightarrow> addr_of s i = addr_of s j \<longrightarrow> i = j)"

definition unmapped_ok :: "('m, 'f) TCPServer \<Rightarrow> bool" where
  "unmapped_ok s \<longleftrightarrow>
     (\<forall>tok fd. srv_unmapped_addr_to_fd s tok = Some fd \<longrightarrow>
        fd < length (srv_fd_to_addr s) \<and> addr_of s fd = tok \<and> tok \<noteq> [] \<and>
        sock_interest s fd = None \<and> srv_addr_to_topic s tok = None)"

definition watched_ok :: "('m, 'f) TCPServer \<Rightarrow> bool" where
  "watched_ok s \<longleftrightarrow>
     (\<forall>fd. sock_interest s fd \<noteq> None \<longrightarrow> int fd \<noteq> srv_fd s \<longrightarrow>
        fd < length (srv_fd_to_addr s) \<and> fd < length (srv_fd_receive_data s) \<and>
        addr_of s fd \<noteq> [] \<and> srv_addr_to_topic s (addr_of s fd) \<noteq> None)"

definition topics_ok :: "('m, 'f) TCPServer \<Rightarrow> bool" where
  "topics_ok s \<longleftrightarrow>
     (\<forall>tok. srv_addr_to_topic s tok \<noteq> None \<longrightarrow>
        tok \<noteq> [] \<and> (\<exists>fd < length (srv_fd_to_addr s). addr_of s fd = tok))"

definition drained :: "('m, 'f) TCPServer \<Rightarrow> bool" where
  "drained s \<longleftrightarrow> (\<forall>t d. srv_decoders s t = Some d \<longrightarrow> dec_msgs d = [])"

definition listener_ok :: "('m, 'f) TCPServer \<Rightarrow> bool" where
  "listener_ok s \<longleftrightarrow> (\<forall>fd < length (srv_fd_to_addr s). int fd = srv_fd s \<longrightarrow> addr_of s fd = [])"

definition srv_wf :: "('m, 'f) TCPServer \<Rightarrow> bool" where
  "srv_wf s \<longleftrightarrow> conn_ok s \<and> unmapped_ok s \<and> watched_ok s \<and> topics_ok s \<and> drained s \<and> listener_ok s \<and>
     srv_buf_size s \<in> buf_sizes"

lemmas wf_defs = srv_wf_def conn_ok_def unmapped_ok_def watched_ok_def topics_ok_def drained_def listener_ok_def

text \<open>What a step leaves alone when it only reads data.\<close>

definition same_tables :: "('m, 'f) TCPServer \<Rightarrow> ('m, 'f) TCPServer \<Rightarrow> bool" where
  "same_tables s s' \<longleftrightarrow>
     sock_interest s' = sock_interest s \<and> srv_addr_to_topic s' = srv_addr_to_topic s \<and>
     srv_fd_to_addr s' = srv_fd_to_addr s \<and> srv_unmapped_addr_to_fd s' = srv_unmapped_addr_to_fd s \<and>
     srv_fd s' = srv_fd s \<and> length (srv_fd_receive_data s') = length (srv_fd_receive_data s) \<and>
     (\<forall>t. map_option dec_functions (srv_decoders s' t) = map_option dec_functions (srv_decoders s t))"

lemma same_tables_refl [simp]: "same_tables s s"
  by (simp add: same_tables_def)

lemma same_tables_trans: "same_tables s s' \<Longrightarrow> same_tables s' s'' \<Longrightarrow> same_tables s s''"
  by (auto simp: same_tables_def)

lemma srv_wf_same_tables:
  "same_tables s s' \<Longrightarrow> srv_wf s \<Longrightarrow> drained s' \<Longrightarrow> srv_buf_size s' \<in> buf_sizes \<Longrightarrow> srv_wf s'"
  unfolding wf_defs same_tables_def by simp

lemma decode_dec_functions:
  "SpecifiedDecoder_decode pb buf d = Inr (n, d') \<Longrightarrow> dec_functions d' = dec_functions d"
  by (auto simp: SpecifiedDecoder_decode_def bind_result_Inr_iff)

lemma recv_chunk_Inr:
  assumes "recv_chunk pbs topic fd chunk s = Inr (s', calls)"
  shows "same_tables s s'" and "\<And>i. i \<noteq> fd \<Longrightarrow> srv_fd_receive_data s' ! i = srv_fd_receive_data s ! i"
    and "drained s \<Longrightarrow> drained s'"
    and "srv_buf_size s' = next_buf_size (srv_buf_size s) (length chunk)"
proof -
  let ?data = "srv_fd_receive_data s ! fd @ chunk"
  obtain d n d1 where fd: "fd < length (srv_fd_receive_data s)" and d: "srv_decoders s topic = Some d"
    and dec: "SpecifiedDecoder_decode (pbs topic) ?data d = Inr (n, d1)"
    and s': "s' = s\<lparr>srv_decoders := (srv_decoders s)(topic \<mapsto> d1\<lparr>dec_msgs := []\<rparr>),
        srv_fd_receive_data := (srv_fd_receive_data s)[fd := drop (nat n) ?data],
        srv_buf_size := next_buf_size (srv_buf_size s) (length chunk)\<rparr>"
    using assms
    by (auto simp: recv_chunk_def bind_result_Inr_iff vec_get_eq_Inr_iff vec_set_eq_Inr_iff
        SpecifiedDecoder_handle_eq Let_def split: option.splits prod.splits)
  show "same_tables s s'"
    using d decode_dec_functions [OF dec] by (auto simp: s' same_tables_def)
  show "drained s \<Longrightarrow> drained s'" by (auto simp: s' drained_def)
  show "\<And>i. i \<noteq> fd \<Longrightarrow> srv_fd_receive_data s' ! i = srv_fd_receive_data s ! i"
    and "srv_buf_size s' = next_buf_size (srv_buf_size s) (length chunk)"
    by (simp_all add: s')
qed

subsection \<open>Closing a connection\<close>

lemma close_and_delete_Inr_iff:
  "TCPServer_close_and_delete_event ctl fd s = Inr s' \<longleftrightarrow>
     fd < length (srv_fd_to_addr s) \<and> fd < length (srv_fd_receive_data s) \<and>
     s' = s\<lparr>sock_interest := (sock_interest s)(fd := None), sock_closed := sock_closed s @ [fd],
            srv_unmapped_addr_to_fd := (srv_unmapped_addr_to_fd s)(addr_of s fd := None),
            srv_addr_to_topic := (srv_addr_to_topic s)(addr_of s fd := None),
            srv_fd_to_addr := (srv_fd_to_addr s)[fd := []],
            srv_fd_receive_data := (srv_fd_receive_data s)[fd := []]\<rparr>"
  by (auto simp: TCPServer_close_and_delete_event_def bind_result_Inr_iff vec_get_eq_Inr_iff
      vec_set_eq_Inr_iff Socket_delete_epoll_event_def close_fd_def)

lemma close_and_delete_defined:
  assumes "srv_wf s" and "sock_interest s fd \<noteq> None" and "int fd \<noteq> srv_fd s"
  shows "\<exists>s'. TCPServer_close_and_delete_event ctl fd s = Inr s'"
proof -
  from assms have "fd < length (srv_fd_to_addr s) \<and> fd < length (srv_fd_receive_data s)"
    unfolding srv_wf_def watched_ok_def by blast
  then show ?thesis by (simp only: close_and_delete_Inr_iff) blast
qed

lemma srv_wf_close [preserve]:
  assumes wf: "srv_wf s" and "TCPServer_close_and_delete_event ctl fd s = Inr s'"
  shows "srv_wf s'"
proof -
  from assms(2) have len: "fd < length (srv_fd_to_addr s)" "fd < length (srv_fd_receive_data s)"
    and s': "s' = s\<lparr>sock_interest := (sock_interest s)(fd := None), sock_closed := sock_closed s @ [fd],
            srv_unmapped_addr_to_fd := (srv_unmapped_addr_to_fd s)(addr_of s fd := None),
            srv_addr_to_topic := (srv_addr_to_topic s)(addr_of s fd := None),
            srv_fd_to_addr := (srv_fd_to_addr s)[fd := []],
            srv_fd_receive_data := (srv_fd_receive_data s)[fd := []]\<rparr>"
    by (simp_all only: close_and_delete_Inr_iff)
  have uniq: "i = fd" if "i < length (srv_fd_to_addr s)" "addr_of s i \<noteq> []" "addr_of s i = addr_of s fd" for i
    using wf that len unfolding srv_wf_def conn_ok_def by blast
  have "conn_ok s'" using wf len unfolding srv_wf_def conn_ok_def s'
    by (auto simp: nth_list_update)
  moreover have "unmapped_ok s'" using wf len uniq unfolding srv_wf_def unmapped_ok_def s'
    by (auto simp: nth_list_update)
  moreover have "watched_ok s'" using wf len uniq unfolding srv_wf_def watched_ok_def s'
    by (auto simp: nth_list_update)
  moreover have "topics_ok s'" unfolding topics_ok_def
  proof (intro allI impI)
    fix tok assume tok: "srv_addr_to_topic s' tok \<noteq> None"
    then have ne: "tok \<noteq> addr_of s fd" "srv_addr_to_topic s tok \<noteq> None" by (auto simp: s' split: if_splits)
    with wf obtain i where "tok \<noteq> []" "i < length (srv_fd_to_addr s)" "addr_of s i = tok"
      unfolding srv_wf_def topics_ok_def by blast
    moreover from this ne(1) have "fd \<noteq> i" by auto
    ultimately show "tok \<noteq> [] \<and> (\<exists>i<length (srv_fd_to_addr s'). addr_of s' i = tok)"
      by (intro conjI exI [of _ i]) (auto simp: s')
  qed
  moreover have "drained s' \<and> listener_ok s' \<and> srv_buf_size s' \<in> buf_sizes"
    using wf len unfolding srv_wf_def drained_def listener_ok_def s' by (auto simp: nth_list_update)
  ultimately show ?thesis by (simp add: srv_wf_def)
qed

subsection \<open>Mapping a connection to its topic\<close>

lemma map_client_Inr_iff:
  "TCPServer_map_client ctl topic token fd s = Inr s' \<longleftrightarrow>
     fd < length (srv_fd_receive_data s) + 100 \<and>
     s' = s\<lparr>sock_interest := (if ctl < 0 then sock_interest s
                              else (sock_interest s)(fd \<mapsto> EPOLLIN OR EPOLLPRI)),
            srv_addr_to_topic := (srv_addr_to_topic s)(token \<mapsto> topic),
            srv_fd_receive_data :=
              (if length (srv_fd_receive_data s) \<le> fd
               then vec_resize (length (srv_fd_receive_data s) + 100) [] (srv_fd_receive_data s)
               else srv_fd_receive_data s)[fd := []],
            srv_unmapped_addr_to_fd := (srv_unmapped_addr_to_fd s)(token := None)\<rparr>"
  by (auto simp: TCPServer_map_client_def bind_result_Inr_iff vec_set_eq_Inr_iff Let_def
      Socket_add_epoll_event_def)

lemma srv_wf_map_client [preserve]:
  assumes wf: "srv_wf s" and un: "srv_unmapped_addr_to_fd s token = Some fd"
    and "TCPServer_map_client ctl topic token fd s = Inr s'"
  shows "srv_wf s'"
proof -
  define data where "data = (if length (srv_fd_receive_data s) \<le> fd
      then vec_resize (length (srv_fd_receive_data s) + 100) [] (srv_fd_receive_data s)
      else srv_fd_receive_data s)"
  from assms(3) have lim: "fd < length (srv_fd_receive_data s) + 100"
    and s': "s' = s\<lparr>sock_interest := (if ctl < 0 then sock_interest s
                              else (sock_interest s)(fd \<mapsto> EPOLLIN OR EPOLLPRI)),
            srv_addr_to_topic := (srv_addr_to_topic s)(token \<mapsto> topic),
            srv_fd_receive_data := data[fd := []],
            srv_unmapped_addr_to_fd := (srv_unmapped_addr_to_fd s)(token := None)\<rparr>"
    by (simp_all only: map_client_Inr_iff data_def)
  have len: "length (srv_fd_receive_data s) \<le> length data" "fd < length data"
    using lim by (auto simp: data_def)
  from un wf have fd: "fd < length (srv_fd_to_addr s)" "addr_of s fd = token" "token \<noteq> []"
    unfolding srv_wf_def unmapped_ok_def by blast+
  have "conn_ok s'" using wf unfolding srv_wf_def conn_ok_def s' by simp
  moreover have "unmapped_ok s'" using wf fd unfolding srv_wf_def unmapped_ok_def s' by auto
  moreover have "watched_ok s'" using wf fd len unfolding srv_wf_def watched_ok_def s'
    by (auto intro: less_le_trans)
  moreover have "topics_ok s'" using wf fd unfolding srv_wf_def topics_ok_def s' by auto
  moreover have "drained s' \<and> listener_ok s' \<and> srv_buf_size s' \<in> buf_sizes"
    using wf unfolding srv_wf_def drained_def listener_ok_def s' by simp
  ultimately show ?thesis by (simp add: srv_wf_def)
qed

subsection \<open>Accepting a connection\<close>

text \<open>
  What the operating system promises of an accepted connection: its descriptor is not in use, and no
  open connection has the same peer address.
\<close>

definition accept_fresh :: "('m, 'f) TCPServer \<Rightarrow> nat \<Rightarrow> ip4 \<Rightarrow> 16 word \<Rightarrow> bool" where
  "accept_fresh s fd ip port \<longleftrightarrow>
     (fd < length (srv_fd_to_addr s) \<longrightarrow> addr_of s fd = []) \<and> int fd \<noteq> srv_fd s \<and>
     addr_token (dotted ip) (uint port) \<notin> set (srv_fd_to_addr s)"

definition register_conn :: "nat \<Rightarrow> string \<Rightarrow> ('m, 'f) TCPServer \<Rightarrow> ('m, 'f) TCPServer" where
  "register_conn fd token s =
     s\<lparr>srv_fd_to_addr := (if length (srv_fd_to_addr s) \<le> fd
          then vec_resize (length (srv_fd_to_addr s) + 100) [] (srv_fd_to_addr s)
          else srv_fd_to_addr s)[fd := token],
       srv_unmapped_addr_to_fd := (srv_unmapped_addr_to_fd s)(token \<mapsto> fd)\<rparr>"

lemma accept_new_client_cases:
  assumes "TCPServer_accept_new_client a s = Inr (r, s')"
  obtains (unchanged) "s' = s" "r = 0 \<or> r = - 1" "\<forall>fd ip port. ans_accept a \<noteq> Accepted fd ip port"
    | (refused) fd ip port where "ans_accept a = Accepted fd ip port" "r = - 1" "s' = close_fd fd s"
    | (accepted) fd ip port where "ans_accept a = Accepted fd ip port" "r = 0"
      "fd < length (srv_fd_to_addr s) + 100" "s' = register_conn fd (addr_token (dotted ip) (uint port)) s"
  using assms
  by (auto simp: TCPServer_accept_new_client_def bind_result_Inr_iff vec_set_eq_Inr_iff Let_def
      string_of_cstr_def inet_ntop_def register_conn_def split: accept_answer.splits if_splits)

text \<open>The tables after a new connection has been entered.\<close>

lemma register_conn_keeps [simp]:
  "sock_interest (register_conn fd tok s) = sock_interest s" "srv_addr_to_topic (register_conn fd tok s) = srv_addr_to_topic s"
  "srv_unmapped_addr_to_fd (register_conn fd tok s) = (srv_unmapped_addr_to_fd s)(tok \<mapsto> fd)"
  "srv_fd (register_conn fd tok s) = srv_fd s" "srv_fd_receive_data (register_conn fd tok s) = srv_fd_receive_data s"
  "srv_decoders (register_conn fd tok s) = srv_decoders s" "srv_buf_size (register_conn fd tok s) = srv_buf_size s"
  by (simp_all add: register_conn_def)

lemma register_conn_addrs:
  assumes "fd < length (srv_fd_to_addr s) + 100"
  shows "length (srv_fd_to_addr s) \<le> length (srv_fd_to_addr (register_conn fd tok s))"
    and "fd < length (srv_fd_to_addr (register_conn fd tok s))"
    and "i < length (srv_fd_to_addr (register_conn fd tok s)) \<Longrightarrow> addr_of (register_conn fd tok s) i =
      (if i = fd then tok else if i < length (srv_fd_to_addr s) then addr_of s i else [])"
  using assms by (auto simp: register_conn_def nth_list_update nth_vec_resize split: if_splits)

text \<open>A fresh connection is known nowhere yet.\<close>

lemma fresh_unknown:
  assumes wf: "srv_wf s" and fresh: "accept_fresh s fd ip port"
  shows "i < length (srv_fd_to_addr s) \<Longrightarrow> addr_of s i \<noteq> addr_token (dotted ip) (uint port)"
    and "fd < length (srv_fd_to_addr s) \<Longrightarrow> addr_of s fd = []" and "int fd \<noteq> srv_fd s"
    and "sock_interest s fd = None" and "srv_addr_to_topic s (addr_token (dotted ip) (uint port)) = None"
proof -
  let ?tok = "addr_token (dotted ip) (uint port)"
  show new: "addr_of s i \<noteq> ?tok" if "i < length (srv_fd_to_addr s)" for i
    using fresh nth_mem [OF that] unfolding accept_fresh_def by metis
  show free: "fd < length (srv_fd_to_addr s) \<Longrightarrow> addr_of s fd = []" "int fd \<noteq> srv_fd s"
    using fresh by (auto simp: accept_fresh_def)
  show "sock_interest s fd = None" using wf free unfolding srv_wf_def watched_ok_def by blast
  show "srv_addr_to_topic s ?tok = None" using wf new unfolding srv_wf_def topics_ok_def by blast
qed

lemma srv_wf_register_conn [preserve]:
  assumes wf: "srv_wf s" and fresh: "accept_fresh s fd ip port"
    and lim: "fd < length (srv_fd_to_addr s) + 100"
  shows "srv_wf (register_conn fd (addr_token (dotted ip) (uint port)) s)" (is "srv_wf ?s")
proof -
  let ?tok = "addr_token (dotted ip) (uint port)"
  note len = register_conn_addrs(1,2) [OF lim, of ?tok] and addr = register_conn_addrs(3) [OF lim, of _ ?tok]
  note unknown = fresh_unknown [OF wf fresh]
  note new = unknown(1) and free = unknown(2,3)
  have old: "i < length (srv_fd_to_addr ?s) \<and> addr_of ?s i = addr_of s i"
    if "i < length (srv_fd_to_addr s)" "addr_of s i \<noteq> []" for i
    using that len free by (auto simp: addr)
  have "conn_ok ?s" using wf new unfolding srv_wf_def conn_ok_def
    by (auto simp: addr split: if_splits) metis+
  moreover have "unmapped_ok ?s" unfolding unmapped_ok_def
  proof (intro allI impI)
    fix tok i assume i: "srv_unmapped_addr_to_fd ?s tok = Some i"
    show "i < length (srv_fd_to_addr ?s) \<and> addr_of ?s i = tok \<and> tok \<noteq> [] \<and> sock_interest ?s i = None \<and>
        srv_addr_to_topic ?s tok = None"
    proof (cases "tok = ?tok")
      case True
      with i have "i = fd" by simp
      with True len(2) unknown(4,5) show ?thesis by (simp add: addr)
    next
      case False
      with i have "srv_unmapped_addr_to_fd s tok = Some i" by simp
      with wf have "i < length (srv_fd_to_addr s)" "addr_of s i = tok" "tok \<noteq> []"
        "sock_interest s i = None" "srv_addr_to_topic s tok = None"
        unfolding srv_wf_def unmapped_ok_def by blast+
      with old [of i] show ?thesis by simp
    qed
  qed
  moreover have "watched_ok ?s" using wf old unfolding srv_wf_def watched_ok_def register_conn_keeps by metis
  moreover have "topics_ok ?s" unfolding topics_ok_def
  proof (intro allI impI)
    fix tok assume "srv_addr_to_topic ?s tok \<noteq> None"
    with wf obtain i where i: "tok \<noteq> []" "i < length (srv_fd_to_addr s)" "addr_of s i = tok"
      by (auto simp: srv_wf_def topics_ok_def)
    then show "tok \<noteq> [] \<and> (\<exists>fd<length (srv_fd_to_addr ?s). addr_of ?s fd = tok)"
      using free len by (intro conjI exI [of _ i]) (auto simp: addr)
  qed
  moreover have "drained ?s \<and> listener_ok ?s \<and> srv_buf_size ?s \<in> buf_sizes"
    using wf free unfolding srv_wf_def drained_def listener_ok_def by (auto simp: addr)
  ultimately show ?thesis by (simp add: srv_wf_def)
qed

section \<open>The abstract view\<close>

text \<open>
  A client of the server sees, for every watched connection, the topic it is mapped to and the bytes
  of its incomplete last frame, and for every topic its subscribers.
\<close>

definition conn_view :: "('m, 'f) TCPServer \<Rightarrow> nat \<rightharpoonup> string \<times> bytes" where
  "conn_view s fd =
     (if sock_interest s fd = None \<or> int fd = srv_fd s then None
      else map_option (\<lambda>t. (t, srv_fd_receive_data s ! fd)) (srv_addr_to_topic s (addr_of s fd)))"

definition subscribers :: "('m, 'f) TCPServer \<Rightarrow> string \<rightharpoonup> 'f list" where
  "subscribers s t = map_option dec_functions (srv_decoders s t)"

lemma conn_view_Some:
  assumes "srv_wf s" and "conn_view s fd = Some (t, b)"
  shows "fd < length (srv_fd_to_addr s)" "fd < length (srv_fd_receive_data s)" "addr_of s fd \<noteq> []"
    "srv_addr_to_topic s (addr_of s fd) = Some t" "srv_fd_receive_data s ! fd = b"
    "int fd \<noteq> srv_fd s" "sock_interest s fd \<noteq> None"
proof -
  from assms(2) show view: "srv_addr_to_topic s (addr_of s fd) = Some t" "srv_fd_receive_data s ! fd = b"
    "int fd \<noteq> srv_fd s" "sock_interest s fd \<noteq> None"
    by (auto simp: conn_view_def split: if_splits)
  with assms(1) show "fd < length (srv_fd_to_addr s)" "fd < length (srv_fd_receive_data s)" "addr_of s fd \<noteq> []"
    unfolding srv_wf_def watched_ok_def by blast+
qed

lemma conn_view_same_tables:
  assumes "same_tables s s'" and "srv_fd_receive_data s' ! fd = srv_fd_receive_data s ! fd"
  shows "conn_view s' fd = conn_view s fd"
  using assms by (simp add: conn_view_def same_tables_def)

lemma subscribers_same_tables: "same_tables s s' \<Longrightarrow> subscribers s' = subscribers s"
  by (rule ext) (simp add: same_tables_def subscribers_def)

lemma conn_view_close:
  assumes "srv_wf s" and "TCPServer_close_and_delete_event ctl fd s = Inr s'"
  shows "conn_view s' = (conn_view s)(fd := None)" and "subscribers s' = subscribers s" and "srv_fd s' = srv_fd s"
proof -
  from assms(2) have len: "fd < length (srv_fd_to_addr s)"
    and s': "s' = s\<lparr>sock_interest := (sock_interest s)(fd := None), sock_closed := sock_closed s @ [fd],
            srv_unmapped_addr_to_fd := (srv_unmapped_addr_to_fd s)(addr_of s fd := None),
            srv_addr_to_topic := (srv_addr_to_topic s)(addr_of s fd := None),
            srv_fd_to_addr := (srv_fd_to_addr s)[fd := []],
            srv_fd_receive_data := (srv_fd_receive_data s)[fd := []]\<rparr>"
    by (simp_all only: close_and_delete_Inr_iff)
  show "conn_view s' = (conn_view s)(fd := None)"
  proof
    fix i
    show "conn_view s' i = ((conn_view s)(fd := None)) i"
    proof (cases "i \<noteq> fd \<and> sock_interest s i \<noteq> None \<and> int i \<noteq> srv_fd s")
      case True
      with assms(1) have "i < length (srv_fd_to_addr s)" "addr_of s i \<noteq> []"
        unfolding srv_wf_def watched_ok_def by blast+
      with assms(1) len True have "addr_of s i \<noteq> addr_of s fd"
        unfolding srv_wf_def conn_ok_def by blast
      with True show ?thesis by (auto simp: conn_view_def s')
    qed (auto simp: conn_view_def s')
  qed
  show "subscribers s' = subscribers s" "srv_fd s' = srv_fd s" by (simp_all add: subscribers_def s' fun_eq_iff)
qed

text \<open>Mapping a connection to its topic leaves what the server knows of every other watched connection.\<close>

lemma map_client_others:
  assumes wf: "srv_wf s" and un: "srv_unmapped_addr_to_fd s token = Some fd"
    and map: "TCPServer_map_client ctl topic token fd s = Inr s'"
    and i: "i \<noteq> fd" "sock_interest s i \<noteq> None" "int i \<noteq> srv_fd s"
  shows "conn_view s' i = conn_view s i"
proof -
  have fd: "fd < length (srv_fd_to_addr s)" "addr_of s fd = token"
    using un wf unfolding srv_wf_def unmapped_ok_def by blast+
  from wf i have w: "i < length (srv_fd_to_addr s)" "addr_of s i \<noteq> []" "i < length (srv_fd_receive_data s)"
    unfolding srv_wf_def watched_ok_def by blast+
  from wf have "addr_of s i = addr_of s fd \<Longrightarrow> i = fd" unfolding srv_wf_def conn_ok_def using w fd(1) by blast
  with i(1) fd(2) have "addr_of s i \<noteq> token" by auto
  with map i(1) w(3) have "sock_interest s' i = sock_interest s i" "srv_fd s' = srv_fd s"
    "srv_addr_to_topic s' (addr_of s' i) = srv_addr_to_topic s (addr_of s i)"
    "srv_fd_receive_data s' ! i = srv_fd_receive_data s ! i"
    by (auto simp: map_client_Inr_iff nth_vec_resize)
  then show ?thesis by (simp only: conn_view_def)
qed

lemma conn_view_map_client:
  assumes wf: "srv_wf s" and un: "srv_unmapped_addr_to_fd s token = Some fd"
    and map: "TCPServer_map_client ctl topic token fd s = Inr s'" and "0 \<le> ctl"
  shows "conn_view s' = (conn_view s)(fd \<mapsto> (topic, []))" and "subscribers s' = subscribers s"
proof -
  have fd: "fd < length (srv_fd_to_addr s)" "addr_of s fd = token" "token \<noteq> []"
    using un wf unfolding srv_wf_def unmapped_ok_def by blast+
  with wf have nosrv: "int fd \<noteq> srv_fd s" unfolding srv_wf_def listener_ok_def by blast
  show "conn_view s' = (conn_view s)(fd \<mapsto> (topic, []))"
  proof
    fix i
    consider "i = fd" | "i \<noteq> fd" "sock_interest s i \<noteq> None" "int i \<noteq> srv_fd s"
      | "i \<noteq> fd" "sock_interest s i = None \<or> int i = srv_fd s" by fastforce
    then show "conn_view s' i = ((conn_view s)(fd \<mapsto> (topic, []))) i"
    proof cases
      case 2
      then show ?thesis using map_client_others [OF wf un map 2] by simp
    qed (use map assms(4) fd nosrv in \<open>auto simp: conn_view_def map_client_Inr_iff\<close>)
  qed
  show "subscribers s' = subscribers s" using map by (auto simp: subscribers_def map_client_Inr_iff)
qed

lemma conn_view_register_conn:
  assumes wf: "srv_wf s" and fresh: "accept_fresh s fd ip port"
  shows "conn_view (register_conn fd tok s) = conn_view s"
    and "subscribers (register_conn fd tok s) = subscribers s"
proof -
  show "conn_view (register_conn fd tok s) = conn_view s"
  proof
    fix i
    show "conn_view (register_conn fd tok s) i = conn_view s i"
    proof (cases "sock_interest s i \<noteq> None \<and> int i \<noteq> srv_fd s")
      case True
      with wf have "i < length (srv_fd_to_addr s)" "addr_of s i \<noteq> []"
        unfolding srv_wf_def watched_ok_def by blast+
      moreover from this fresh have "fd \<noteq> i" by (auto simp: accept_fresh_def)
      ultimately show ?thesis by (simp add: conn_view_def register_conn_def nth_vec_resize)
    qed (auto simp: conn_view_def register_conn_def)
  qed
  show "subscribers (register_conn fd tok s) = subscribers s"
    by (simp add: subscribers_def register_conn_def fun_eq_iff)
qed

section \<open>Events\<close>

text \<open>What a step of the server that concerns one connection leaves alone.\<close>

definition keeps_others :: "nat \<Rightarrow> ('m, 'f) TCPServer \<Rightarrow> ('m, 'f) TCPServer \<Rightarrow> bool" where
  "keeps_others fd s s' \<longleftrightarrow>
     srv_wf s' \<and> subscribers s' = subscribers s \<and> srv_fd s' = srv_fd s \<and>
     length (srv_fd_to_addr s) \<le> length (srv_fd_to_addr s') \<and>
     (\<forall>i. i \<noteq> fd \<longrightarrow> conn_view s' i = conn_view s i)"

lemma keeps_others_trans:
  "keeps_others fd s s' \<Longrightarrow> keeps_others fd s' s'' \<Longrightarrow> keeps_others fd s s''"
  by (auto simp: keeps_others_def)

lemma keeps_others_close:
  assumes "srv_wf s" and "TCPServer_close_and_delete_event ctl fd s = Inr s'"
  shows "keeps_others fd s s'"
  using conn_view_close [OF assms] srv_wf_close [OF assms] assms(2)
  by (auto simp: keeps_others_def close_and_delete_Inr_iff)

lemma keeps_others_chunk:
  assumes "srv_wf s" and "recv_chunk pbs topic fd chunk s = Inr (s', calls)"
  shows "keeps_others fd s s'"
proof -
  note chunk = recv_chunk_Inr [OF assms(2)]
  have "srv_buf_size s' \<in> buf_sizes"
    using assms(1) next_buf_size_cases by (simp add: chunk(4) srv_wf_def)
  with srv_wf_same_tables [OF chunk(1) assms(1)] chunk(3) assms(1) have "srv_wf s'"
    by (simp add: srv_wf_def)
  moreover have "srv_fd s' = srv_fd s \<and> srv_fd_to_addr s' = srv_fd_to_addr s"
    using chunk(1) by (simp add: same_tables_def)
  ultimately show ?thesis
    using conn_view_same_tables [OF chunk(1) chunk(2)] subscribers_same_tables [OF chunk(1)]
    by (simp add: keeps_others_def)
qed

lemma keeps_others_recv_loop:
  assumes "srv_wf s" and "recv_loop pbs topic fd ctl stop chunks s = Inr (s', calls)"
  shows "keeps_others fd s s'"
  using assms
proof (induction chunks arbitrary: s calls)
  case Nil
  then show ?case
    using keeps_others_close [of s ctl fd s']
    by (auto simp: bind_result_Inr_iff split: recv_end.splits) (simp add: keeps_others_def)
next
  case (Cons c cs)
  then obtain s1 c1 c2 where "recv_chunk pbs topic fd c s = Inr (s1, c1)"
    "recv_loop pbs topic fd ctl stop cs s1 = Inr (s', c2)"
    by (auto simp: bind_result_Inr_iff)
  with keeps_others_chunk [OF Cons.prems(1)] Cons.IH show ?case
    by (metis keeps_others_def keeps_others_trans)
qed

lemma handle_client_event_cases:
  assumes "TCPServer_handle_client_event pbs a fd revents s = Inr (s', calls)"
  obtains (closed) "TCPServer_close_and_delete_event (ans_ctl a) fd s = Inr s'" "calls = []"
    | (ignored) "s' = s" "calls = []"
    | (received) topic where "recv_loop pbs topic fd (ans_ctl a) (ans_end a) (ans_chunks a) s = Inr (s', calls)"
  using assms
  by (auto simp: TCPServer_handle_client_event_def bind_result_Inr_iff split: if_splits option.splits)

lemma keeps_others_handle:
  assumes "srv_wf s" and "TCPServer_handle_client_event pbs a fd revents s = Inr (s', calls)"
  shows "keeps_others fd s s'"
  using assms(2)
proof (cases rule: handle_client_event_cases)
  case ignored
  then show ?thesis using assms(1) by (simp add: keeps_others_def)
qed (use assms(1) in \<open>blast intro: keeps_others_close keeps_others_recv_loop\<close>)+

text \<open>
  What epoll and accept promise of one event: it is an event of the listening socket, and then an
  accepted connection is fresh, or of a watched connection.
\<close>

definition event_ok :: "event \<Rightarrow> ('m, 'f) TCPServer \<Rightarrow> bool" where
  "event_ok e s \<longleftrightarrow>
     (if int (ev_fd e) = srv_fd s
      then (case ans_accept (ev_ans e) of Accepted fd ip port \<Rightarrow> accept_fresh s fd ip port | _ \<Rightarrow> True)
      else sock_interest s (ev_fd e) \<noteq> None)"

lemma fresh_not_watched:
  assumes "srv_wf s" and "accept_fresh s fd ip port"
  shows "sock_interest s fd = None"
  using assms unfolding srv_wf_def watched_ok_def accept_fresh_def by blast

lemma keeps_all_accept:
  assumes "srv_wf s" and "TCPServer_accept_new_client a s = Inr (r, s')"
    and "\<And>fd ip port. ans_accept a = Accepted fd ip port \<Longrightarrow> accept_fresh s fd ip port"
  shows "srv_wf s' \<and> conn_view s' = conn_view s \<and> subscribers s' = subscribers s \<and> srv_fd s' = srv_fd s \<and>
    length (srv_fd_to_addr s) \<le> length (srv_fd_to_addr s')"
  using assms(2)
proof (cases rule: accept_new_client_cases)
  case unchanged
  then show ?thesis using assms(1) by simp
next
  case (refused fd ip port)
  then have same: "s' = s\<lparr>sock_closed := sock_closed s @ [fd]\<rparr>"
    using fresh_not_watched [OF assms(1) assms(3)] by (simp add: close_fd_def fun_upd_idem)
  then show ?thesis using assms(1) unfolding wf_defs conn_view_def subscribers_def fun_eq_iff by simp
next
  case (accepted fd ip port)
  note fresh = assms(3) [OF accepted(1)]
  show ?thesis
    using srv_wf_register_conn [OF assms(1) fresh accepted(3)] conn_view_register_conn [OF assms(1) fresh]
    by (simp add: accepted(4)) (simp add: register_conn_def)
qed

lemma event_round_keeps:
  assumes "srv_wf s" and "event_ok e s" and "event_round pbs e s = Inr (failed, s', log)"
  shows "keeps_others (ev_fd e) s s'" and "log \<noteq> [] \<Longrightarrow> int (ev_fd e) \<noteq> srv_fd s"
    and "\<forall>x\<in>set log. fst x = ev_fd e"
proof -
  show "keeps_others (ev_fd e) s s'"
  proof (cases "int (ev_fd e) = srv_fd s")
    case True
    then obtain r where "TCPServer_accept_new_client (ev_ans e) s = Inr (r, s')"
      using assms(3) by (auto simp: event_round_def bind_result_Inr_iff)
    moreover have "accept_fresh s fd ip port" if "ans_accept (ev_ans e) = Accepted fd ip port" for fd ip port
      using assms(2) True that by (simp add: event_ok_def)
    ultimately show ?thesis
      using keeps_all_accept [OF assms(1)] by (simp add: keeps_others_def)
  next
    case False
    with assms(1,3) show ?thesis
      by (auto simp: event_round_def bind_result_Inr_iff intro: keeps_others_handle)
  qed
  show "log \<noteq> [] \<Longrightarrow> int (ev_fd e) \<noteq> srv_fd s" "\<forall>x\<in>set log. fst x = ev_fd e"
    using assms(3) by (auto simp: event_round_def bind_result_Inr_iff split: if_splits)
qed

fun events_ok :: "(string \<Rightarrow> 'm protobuf) \<Rightarrow> event list \<Rightarrow> ('m, 'f) TCPServer \<Rightarrow> bool" where
  "events_ok pbs [] s = True"
| "events_ok pbs (e # es) s =
     (event_ok e s \<and>
      (case event_round pbs e s of Inl err \<Rightarrow> True | Inr (failed, s', log) \<Rightarrow> events_ok pbs es s'))"

section \<open>Streams\<close>

text \<open>The bytes that the events of one round, or of several, bring for connection \<open>x\<close>.\<close>

definition stream_of :: "nat \<Rightarrow> event list \<Rightarrow> bytes" where
  "stream_of x es = concat (map (\<lambda>e. concat (ans_chunks (ev_ans e))) (filter (\<lambda>e. ev_fd e = x) es))"

definition calls_of :: "nat \<Rightarrow> (nat \<times> 'f \<times> 'm) list \<Rightarrow> ('f \<times> 'm) list" where
  "calls_of x log = map snd (filter (\<lambda>l. fst l = x) log)"

lemma stream_of_simps [simp]:
  "stream_of x [] = []"
  "stream_of x (e # es) = (if ev_fd e = x then concat (ans_chunks (ev_ans e)) else []) @ stream_of x es"
  by (simp_all add: stream_of_def)

lemma calls_of_simps [simp]:
  "calls_of x [] = []" "calls_of x (l @ l') = calls_of x l @ calls_of x l'"
  "calls_of x (map (Pair x) cs) = cs"
  by (simp_all add: calls_of_def comp_def)

lemma calls_of_other: "\<forall>l\<in>set log. fst l = y \<Longrightarrow> x \<noteq> y \<Longrightarrow> calls_of x log = []"
  by (auto simp: calls_of_def filter_empty_conv)

text \<open>An event of \<open>x\<close> that leaves the connection open.\<close>

definition quiet :: "nat \<Rightarrow> event \<Rightarrow> bool" where
  "quiet x e \<longleftrightarrow> (ev_fd e = x \<longrightarrow>
     ev_events e AND (EPOLLERR OR EPOLLHUP) = 0 \<and> ans_end (ev_ans e) = Recv_EAGAIN)"

lemma event_round_stream:
  assumes wf: "srv_wf s" and view: "conn_view s x = Some (t, b)" and subs: "subscribers s t = Some fs"
    and laws: "protobuf_laws (pbs t)" and e: "ev_fd e = x" "quiet x e"
    and b: "deframe (pbs t) b = Some ([], b)"
    and data: "deframe (pbs t) (b @ stream_of x [e]) = Some (ms, r)" "length (b @ stream_of x [e]) < 2 ^ 31"
  shows "\<exists>s'. event_round pbs e s = Inr (False, s', map (Pair x) (deliver fs ms)) \<and>
    conn_view s' x = Some (t, r)"
proof -
  note v = conn_view_Some [OF wf view]
  from subs obtain d where d: "srv_decoders s t = Some d" "dec_functions d = fs"
    by (auto simp: subscribers_def)
  with wf have drained: "dec_msgs d = []" unfolding srv_wf_def drained_def by blast
  let ?cs = "ans_chunks (ev_ans e)"
  let ?s = "s\<lparr>srv_fd_receive_data := (srv_fd_receive_data s)[x := r],
           srv_buf_size := foldl next_buf_size (srv_buf_size s) (map length ?cs)\<rparr>"
  have "recv_loop pbs t x (ans_ctl (ev_ans e)) Recv_EAGAIN ?cs s = Inr (?s, deliver (dec_functions d) ms)"
    by (rule recv_loop_deframe) (use laws v d drained b data e in simp_all)
  then have "event_round pbs e s = Inr (False, ?s, map (Pair x) (deliver fs ms))"
    using v d e by (simp add: event_round_def TCPServer_handle_client_event_def quiet_def vec_get_Inr)
  moreover have "conn_view ?s x = Some (t, r)"
    using v by (auto simp: conn_view_def)
  ultimately show ?thesis by blast
qed

lemma event_loop_stream:
  assumes "srv_wf s" and "events_ok pbs es s" and "event_loop pbs es ret s = Inr (ret', s', log)"
    and "conn_view s x = Some (t, b)" and "subscribers s t = Some fs" and laws: "protobuf_laws (pbs t)"
    and "\<forall>e\<in>set es. quiet x e" and "deframe (pbs t) b = Some ([], b)"
    and "deframe (pbs t) (b @ stream_of x es) = Some (ms, r)" and "length (b @ stream_of x es) < 2 ^ 31"
  shows "srv_wf s' \<and> conn_view s' x = Some (t, r) \<and> subscribers s' = subscribers s \<and>
    calls_of x log = deliver fs ms"
  using assms(1-5,7-)
proof (induction es arbitrary: s ret log b ms)
  case Nil
  then show ?case by auto
next
  case (Cons e es)
  obtain failed s1 log1 log2 where round: "event_round pbs e s = Inr (failed, s1, log1)"
    and loop: "event_loop pbs es (if failed then - 1 else ret) s1 = Inr (ret', s', log2)"
    and log: "log = log1 @ log2"
    using Cons.prems(3) by (auto simp: bind_result_Inr_iff)
  have ok: "event_ok e s" "events_ok pbs es s1" using Cons.prems(2) round by auto
  note kept = event_round_keeps [OF Cons.prems(1) ok(1) round]
  have "deframe (pbs t) ((b @ stream_of x [e]) @ stream_of x es) = Some (ms, r)"
    using Cons.prems(8) by simp
  then obtain ms1 r1 where part: "deframe (pbs t) (b @ stream_of x [e]) = Some (ms1, r1)"
    using deframe_prefix [OF laws, of "b @ stream_of x [e]" "stream_of x es"] by fastforce
  obtain ms2 where ms2: "deframe (pbs t) (r1 @ stream_of x es) = Some (ms2, r)" "ms = ms1 @ ms2"
    using deframe_append [OF laws part, of "stream_of x es"] Cons.prems(8) by auto
  have one: "conn_view s1 x = Some (t, r1) \<and> calls_of x log1 = deliver fs ms1"
  proof (cases "ev_fd e = x")
    case True
    moreover have "quiet x e" using Cons.prems(6) by simp
    moreover have "length (b @ stream_of x [e]) < 2 ^ 31" using Cons.prems(9) by simp
    ultimately show ?thesis
      using event_round_stream [where pbs = pbs and e = e, OF Cons.prems(1,4,5) laws _ _ Cons.prems(7) part]
        round by auto
  next
    case False
    then have "ms1 = [] \<and> r1 = b" using part Cons.prems(7) by simp
    with False kept(1) Cons.prems(4) calls_of_other [OF kept(3)] show ?thesis
      by (simp add: keeps_others_def)
  qed
  have wf: "srv_wf s1" "subscribers s1 = subscribers s" using kept(1) by (auto simp: keeps_others_def)
  note rest = deframe_rest [OF part]
  have "srv_wf s' \<and> conn_view s' x = Some (t, r) \<and> subscribers s' = subscribers s1 \<and>
      calls_of x log2 = deliver fs ms2"
    by (rule Cons.IH [OF wf(1) ok(2) loop _ _ _ _ ms2(1)])
      (use one wf(2) Cons.prems(5,6,9) rest in auto)
  with one wf(2) show ?case by (simp add: log ms2(2) deliver_append)
qed

text \<open>Several rounds of the event handler; the rest of one round is the start of the next.\<close>

fun rounds_ok :: "(string \<Rightarrow> 'm protobuf) \<Rightarrow> event list list \<Rightarrow> ('m, 'f) TCPServer \<Rightarrow> bool" where
  "rounds_ok pbs [] s = True"
| "rounds_ok pbs (es # ess) s =
     (events_ok pbs es s \<and>
      (case TCPServer_event_handler pbs (Epoll_Events es) s of
         Inl err \<Rightarrow> True | Inr (ret, s', log) \<Rightarrow> rounds_ok pbs ess s'))"

text \<open>The receive buffer never reaches the range of \<^verbatim>\<open>int\<close>.\<close>

fun rounds_fit :: "'m protobuf \<Rightarrow> bytes \<Rightarrow> bytes list \<Rightarrow> bool" where
  "rounds_fit pb b [] = True"
| "rounds_fit pb b (bs # bss) =
     (length (b @ bs) < 2 ^ 31 \<and>
      (case deframe pb (b @ bs) of None \<Rightarrow> True | Some (ms, r) \<Rightarrow> rounds_fit pb r bss))"

lemma spin_rounds_stream:
  assumes "srv_wf s" and "rounds_ok pbs ess s" and "spin_rounds pbs (map Epoll_Events ess) s = Inr (s', log)"
    and "conn_view s x = Some (t, b)" and "subscribers s t = Some fs" and laws: "protobuf_laws (pbs t)"
    and "\<forall>es\<in>set ess. \<forall>e\<in>set es. quiet x e" and "deframe (pbs t) b = Some ([], b)"
    and "deframe (pbs t) (b @ concat (map (stream_of x) ess)) = Some (ms, r)"
    and "rounds_fit (pbs t) b (map (stream_of x) ess)"
  shows "srv_wf s' \<and> conn_view s' x = Some (t, r) \<and> subscribers s' = subscribers s \<and>
    calls_of x log = deliver fs ms"
  using assms(1-5,7-)
proof (induction ess arbitrary: s log b ms)
  case Nil
  then show ?case by auto
next
  case (Cons es ess)
  let ?bs = "stream_of x es"
  obtain ret s1 log1 log2 where step: "TCPServer_event_handler pbs (Epoll_Events es) s = Inr (ret, s1, log1)"
    and spin: "spin_rounds pbs (map Epoll_Events ess) s1 = Inr (s', log2)" and log: "log = log1 @ log2"
    using Cons.prems(3) by (auto simp: bind_result_Inr_iff)
  have loop: "event_loop pbs es 0 s = Inr (ret, s1, log1)"
    using step by (auto simp: TCPServer_event_handler_def split: if_splits)
  have ok: "events_ok pbs es s" "rounds_ok pbs ess s1" using Cons.prems(2) step by auto
  have "deframe (pbs t) ((b @ ?bs) @ concat (map (stream_of x) ess)) = Some (ms, r)"
    using Cons.prems(8) by simp
  then obtain ms1 r1 where part: "deframe (pbs t) (b @ ?bs) = Some (ms1, r1)"
    using deframe_prefix [OF laws, of "b @ ?bs"] by fastforce
  obtain ms2 where ms2: "deframe (pbs t) (r1 @ concat (map (stream_of x) ess)) = Some (ms2, r)" "ms = ms1 @ ms2"
    using deframe_append [OF laws part] Cons.prems(8) by auto
  have fit: "length (b @ ?bs) < 2 ^ 31" "rounds_fit (pbs t) r1 (map (stream_of x) ess)"
    using Cons.prems(9) part by auto
  have one: "srv_wf s1 \<and> conn_view s1 x = Some (t, r1) \<and> subscribers s1 = subscribers s \<and>
      calls_of x log1 = deliver fs ms1"
    using Cons.prems(6)
    by (intro event_loop_stream [OF Cons.prems(1) ok(1) loop Cons.prems(4,5) laws _ Cons.prems(7) part fit(1)]) simp
  note rest = deframe_rest [OF part]
  have "srv_wf s' \<and> conn_view s' x = Some (t, r) \<and> subscribers s' = subscribers s1 \<and>
      calls_of x log2 = deliver fs ms2"
    by (rule Cons.IH [OF _ ok(2) spin _ _ _ _ ms2(1) fit(2)]) (use one Cons.prems(5,6) rest in auto)
  with one show ?case by (simp add: log ms2(2) deliver_append)
qed

section \<open>Where the server can fail\<close>

lemma decode_loop_Inl: "decode_loop pb buf n off tot ms = Inl err \<Longrightarrow> err = Negative_Size"
proof (induction pb buf n off tot ms rule: decode_loop.induct)
  case (1 pb buf n off tot ms)
  from "1.prems" show ?case
    by (subst (asm) decode_loop.simps)
      (auto simp: Let_def split: if_splits option.splits dest: "1.IH" [OF _ refl])
qed

lemma recv_chunk_Inl:
  assumes "recv_chunk pbs topic fd chunk s = Inl err"
    and "fd < length (srv_fd_receive_data s)" and "srv_decoders s topic \<noteq> None"
  shows "err = Negative_Size"
  using assms
  by (auto simp: recv_chunk_def vec_get_Inr vec_set_Inr SpecifiedDecoder_decode_def bind_result_Inl_iff
      SpecifiedDecoder_handle_eq Let_def dest: decode_loop_Inl)

lemma recv_loop_Inl:
  assumes "recv_loop pbs topic fd ctl stop chunks s = Inl err" and "srv_decoders s topic \<noteq> None"
    and "fd < length (srv_fd_to_addr s)" and "fd < length (srv_fd_receive_data s)"
  shows "err = Negative_Size"
  using assms
proof (induction chunks arbitrary: s)
  case Nil
  then show ?case
    by (auto simp: TCPServer_close_and_delete_event_def vec_get_Inr vec_set_Inr split: recv_end.splits)
next
  case (Cons c cs)
  from Cons.prems(1) consider "recv_chunk pbs topic fd c s = Inl err"
    | s1 calls where "recv_chunk pbs topic fd c s = Inr (s1, calls)" "recv_loop pbs topic fd ctl stop cs s1 = Inl err"
    by (auto simp: bind_result_Inl_iff)
  then show ?case
  proof cases
    case 1
    with Cons.prems show ?thesis by (blast intro: recv_chunk_Inl)
  next
    case 2
    note tables = recv_chunk_Inr(1) [OF 2(1), unfolded same_tables_def]
    from tables Cons.prems(2) have "srv_decoders s1 topic \<noteq> None"
      by (metis map_option_is_None)
    with Cons.IH [OF 2(2)] Cons.prems(3,4) tables show ?thesis by simp
  qed
qed

text \<open>The ways in which an accepted connection can bring the server down.\<close>

definition long_peer :: "sys_answers \<Rightarrow> bool" where
  "long_peer a = (case ans_accept a of
     Accepted fd (i, j, k, l) port \<Rightarrow> 100 \<le> unat i \<and> 100 \<le> unat j \<and> 100 \<le> unat k \<and> 100 \<le> unat l
   | _ \<Rightarrow> False)"

definition far_fd :: "sys_answers \<Rightarrow> nat \<Rightarrow> bool" where
  "far_fd a n = (case ans_accept a of Accepted fd ip port \<Rightarrow> n + 100 \<le> fd | _ \<Rightarrow> False)"

lemma accept_new_client_Inl:
  assumes "TCPServer_accept_new_client a s = Inl err"
  shows "err = Null_String \<and> long_peer a \<or> err = Out_Of_Range \<and> far_fd a (length (srv_fd_to_addr s))"
proof -
  from assms obtain fd ip port where acc: "ans_accept a = Accepted fd ip port"
    by (auto simp: TCPServer_accept_new_client_def split: accept_answer.splits)
  obtain i j k l where "ip = (i, j, k, l)" by (cases ip)
  with assms acc show ?thesis
    by (auto simp: TCPServer_accept_new_client_def long_peer_def far_fd_def string_of_cstr_def inet_ntop_15
        vec_set_def Let_def split: if_splits)
qed

lemma event_round_Inl:
  assumes wf: "srv_wf s" and ok: "event_ok e s" and "event_round pbs e s = Inl err"
  shows "err = Negative_Size \<or> err = Null_String \<and> long_peer (ev_ans e) \<or>
    err = Out_Of_Range \<and> far_fd (ev_ans e) (length (srv_fd_to_addr s))"
proof (cases "int (ev_fd e) = srv_fd s")
  case True
  with assms(3) have "TCPServer_accept_new_client (ev_ans e) s = Inl err"
    by (auto simp: event_round_def bind_result_Inl_iff)
  from accept_new_client_Inl [OF this] show ?thesis by blast
next
  case False
  with ok have watched: "sock_interest s (ev_fd e) \<noteq> None" by (simp add: event_ok_def)
  with wf False have len: "ev_fd e < length (srv_fd_to_addr s)" "ev_fd e < length (srv_fd_receive_data s)"
    unfolding srv_wf_def watched_ok_def by blast+
  from False assms(3)
  have "TCPServer_handle_client_event pbs (ev_ans e) (ev_fd e) (ev_events e) s = Inl err"
    by (auto simp: event_round_def bind_result_Inl_iff)
  then have "err = Negative_Size"
    using len close_and_delete_defined [OF wf watched False, of "ans_ctl (ev_ans e)"]
    by (auto simp: TCPServer_handle_client_event_def vec_get_Inr bind_result_Inl_iff
        split: if_splits option.splits dest: recv_loop_Inl)
  then show ?thesis by blast
qed

lemma far_fd_mono: "far_fd a n \<Longrightarrow> m \<le> n \<Longrightarrow> far_fd a m"
  by (auto simp: far_fd_def split: accept_answer.splits)

lemma event_loop_Inl:
  assumes "srv_wf s" and "events_ok pbs es s" and "event_loop pbs es ret s = Inl err"
  shows "err = Negative_Size \<or>
    (\<exists>e\<in>set es. err = Null_String \<and> long_peer (ev_ans e) \<or>
       err = Out_Of_Range \<and> far_fd (ev_ans e) (length (srv_fd_to_addr s)))"
  using assms
proof (induction es arbitrary: s ret)
  case (Cons e es)
  from Cons.prems(3) consider "event_round pbs e s = Inl err"
    | failed s1 log ret' where "event_round pbs e s = Inr (failed, s1, log)" "event_loop pbs es ret' s1 = Inl err"
    by (auto simp: bind_result_Inl_iff)
  then show ?case
  proof cases
    case 1
    from Cons.prems(2) have "event_ok e s" by simp
    from event_round_Inl [OF Cons.prems(1) this 1] show ?thesis by auto
  next
    case 2
    from Cons.prems(2) 2(1) have ok: "event_ok e s" "events_ok pbs es s1" by auto
    from event_round_keeps(1) [OF Cons.prems(1) ok(1) 2(1)]
    have kept: "srv_wf s1" "length (srv_fd_to_addr s) \<le> length (srv_fd_to_addr s1)"
      by (auto simp: keeps_others_def)
    from Cons.IH [OF kept(1) ok(2) 2(2)] show ?thesis
      using far_fd_mono [OF _ kept(2)] by auto
  qed
qed simp

lemma srv_wf_event_loop [preserve]:
  assumes "srv_wf s" and "events_ok pbs es s" and "event_loop pbs es ret s = Inr (ret', s', log)"
  shows "srv_wf s'"
  using assms
proof (induction es arbitrary: s ret log)
  case (Cons e es)
  then obtain failed s1 log1 log2 ret1 where "event_round pbs e s = Inr (failed, s1, log1)"
    "event_loop pbs es ret1 s1 = Inr (ret', s', log2)"
    by (auto simp: bind_result_Inr_iff)
  with Cons.prems(1,2) Cons.IH event_round_keeps(1) [of s e pbs failed s1 log1] show ?case
    by (auto simp: keeps_others_def)
qed auto

section \<open>Runs of the server\<close>

text \<open>
  The spin thread handles events, handshake threads map connections to topics, and the application
  subscribes; each holds the server's lock while it does so.
\<close>

inductive tcp_step :: "(string \<Rightarrow> 'm protobuf) \<Rightarrow> ('m, 'f) TCPServer \<Rightarrow> ('m, 'f) TCPServer \<Rightarrow> bool"
  for pbs :: "string \<Rightarrow> 'm protobuf" where
  spin: "events_ok pbs es s \<Longrightarrow> TCPServer_event_handler pbs (Epoll_Events es) s = Inr (ret, s', log) \<Longrightarrow>
    tcp_step pbs s s'"
| handshake: "TCPServer_accept_client pbs ctl topic ip port [] s = Some (Inr s') \<Longrightarrow> tcp_step pbs s s'"
| subscribe: "subscribe_decoder pbs topic url cb s = Inr s' \<Longrightarrow> tcp_step pbs s s'"

text \<open>A server whose constructor and \<^verbatim>\<open>init_tcp_srv\<close> have run, the latter with success.\<close>

definition tcp_start :: "('m, 'f) TCPServer \<Rightarrow> bool" where
  "tcp_start s \<longleftrightarrow> (\<exists>created garbage ip port a r.
     TCPServer_init_tcp_srv a (TCPServer_new created garbage ip port) = (r, s) \<and> 0 \<le> r)"

lemma srv_wf_subscribe [preserve]:
  assumes "srv_wf s" and "subscribe_decoder pbs topic url cb s = Inr s'"
  shows "srv_wf s'"
proof -
  from assms(2) obtain d where "s' = s\<lparr>srv_decoders := (srv_decoders s)(topic \<mapsto> SpecifiedDecoder_add_callback cb d)\<rparr>"
    and d: "dec_msgs d = [] \<or> srv_decoders s topic = Some d"
    by (auto simp: subscribe_decoder_def Let_def split: if_splits option.splits)
  moreover have "dec_msgs (SpecifiedDecoder_add_callback cb d) = []"
    using assms(1) d unfolding srv_wf_def drained_def by (auto simp: SpecifiedDecoder_add_callback_def)
  ultimately show ?thesis using assms(1) unfolding wf_defs by simp
qed

lemma srv_wf_start:
  assumes "tcp_start s"
  shows "srv_wf s"
  using assms
  by (auto simp: tcp_start_def TCPServer_init_tcp_srv_def TCPServer_new_def TCPServer_bind_socket_def
      TCPServer_listen_socket_def TCPServer_get_socket_info_def Socket_add_epoll_event_def
      Socket_init_epoll_def Let_def wf_defs buf_sizes_def nth_vec_resize
      split: if_splits option.splits)

lemma tcp_step_inv:
  assumes "srv_wf s" and "tcp_step pbs s s'"
  shows "srv_wf s'"
  using assms(2)
proof cases
  case (spin es ret log)
  with assms(1) show ?thesis
    by (auto simp: TCPServer_event_handler_def intro: srv_wf_event_loop split: if_splits)
next
  case (handshake ctl topic ip port)
  then show ?thesis
    by (auto simp: TCPServer_accept_client.simps Let_def intro: srv_wf_map_client [OF assms(1)] split: option.splits)
next
  case (subscribe topic url cb)
  with assms(1) show ?thesis by (rule srv_wf_subscribe)
qed

interpretation tcp: invariant_system tcp_start "tcp_step pbs" srv_wf for pbs
  by unfold_locales (auto intro: srv_wf_start tcp_step_inv)

section \<open>Peer addresses\<close>

text \<open>Every address that waits for its topic is one that \<^verbatim>\<open>accept\<close> returned.\<close>

definition tokens_real :: "('m, 'f) TCPServer \<Rightarrow> bool" where
  "tokens_real s \<longleftrightarrow>
     (\<forall>tok. srv_unmapped_addr_to_fd s tok \<noteq> None \<longrightarrow> (\<exists>ip port. tok = addr_token (dotted ip) port))"

lemma dotted_not_Nil [simp]: "dotted ip \<noteq> []" "[] \<noteq> dotted ip"
  by (cases ip; simp add: dotted_def)+

lemma tokens_real_mono:
  "tokens_real s \<Longrightarrow> dom (srv_unmapped_addr_to_fd s') \<subseteq> dom (srv_unmapped_addr_to_fd s) \<Longrightarrow> tokens_real s'"
  unfolding tokens_real_def by blast

lemma recv_loop_unmapped:
  assumes "recv_loop pbs topic fd ctl stop chunks s = Inr (s', calls)"
  shows "dom (srv_unmapped_addr_to_fd s') \<subseteq> dom (srv_unmapped_addr_to_fd s)"
  using assms
proof (induction chunks arbitrary: s calls)
  case Nil
  then show ?case
    by (auto simp: bind_result_Inr_iff close_and_delete_Inr_iff split: recv_end.splits if_splits)
next
  case (Cons c cs)
  then obtain s1 c1 c2 where "recv_chunk pbs topic fd c s = Inr (s1, c1)"
    "recv_loop pbs topic fd ctl stop cs s1 = Inr (s', c2)"
    by (auto simp: bind_result_Inr_iff)
  with Cons.IH [of s1 c2] recv_chunk_Inr(1) show ?case
    unfolding same_tables_def by metis
qed

lemma tokens_real_round:
  assumes "tokens_real s" and "event_round pbs e s = Inr (failed, s', log)"
  shows "tokens_real s'"
proof (cases "int (ev_fd e) = srv_fd s")
  case True
  with assms(2) obtain r where "TCPServer_accept_new_client (ev_ans e) s = Inr (r, s')"
    by (auto simp: event_round_def bind_result_Inr_iff)
  then show ?thesis
    using assms(1)
    by (cases rule: accept_new_client_cases)
      (auto simp: tokens_real_def register_conn_def close_fd_def simp del: split_paired_Ex)
next
  case False
  with assms(2) obtain calls where
    "TCPServer_handle_client_event pbs (ev_ans e) (ev_fd e) (ev_events e) s = Inr (s', calls)"
    by (auto simp: event_round_def bind_result_Inr_iff)
  then have "dom (srv_unmapped_addr_to_fd s') \<subseteq> dom (srv_unmapped_addr_to_fd s)"
    by (cases rule: handle_client_event_cases)
      (auto simp: close_and_delete_Inr_iff split: if_splits dest: recv_loop_unmapped)
  with assms(1) show ?thesis by (rule tokens_real_mono)
qed

lemma tokens_real_loop:
  "tokens_real s \<Longrightarrow> event_loop pbs es ret s = Inr (ret', s', log) \<Longrightarrow> tokens_real s'"
  by (induction es arbitrary: s ret log) (fastforce simp: bind_result_Inr_iff dest: tokens_real_round)+

lemma tokens_real_handler:
  "tokens_real s \<Longrightarrow> TCPServer_event_handler pbs w s = Inr (ret, s', log) \<Longrightarrow> tokens_real s'"
  by (auto simp: TCPServer_event_handler_def dest: tokens_real_loop split: epoll_answer.splits if_splits)

lemma tokens_real_spin:
  "tokens_real s \<Longrightarrow> spin_rounds pbs ws s = Inr (s', log) \<Longrightarrow> tokens_real s'"
  by (induction ws arbitrary: s log) (fastforce simp: bind_result_Inr_iff dest: tokens_real_handler)+

lemma tokens_real_start: "tcp_start s \<Longrightarrow> tokens_real s"
  by (auto simp: tcp_start_def TCPServer_init_tcp_srv_def TCPServer_new_def TCPServer_bind_socket_def
      TCPServer_listen_socket_def TCPServer_get_socket_info_def Socket_add_epoll_event_def
      Socket_init_epoll_def Let_def tokens_real_def split: if_splits option.splits)

lemma tokens_real_step:
  assumes "tokens_real s" and "tcp_step pbs s s'"
  shows "tokens_real s'"
  using assms(2)
proof cases
  case (spin es ret log)
  with assms(1) show ?thesis by (blast dest: tokens_real_handler)
next
  case (handshake ctl topic ip port)
  then show ?thesis
    by (intro tokens_real_mono [OF assms(1)])
      (auto simp: TCPServer_accept_client.simps Let_def map_client_Inr_iff split: option.splits if_splits)
next
  case (subscribe topic url cb)
  then show ?thesis
    by (intro tokens_real_mono [OF assms(1)])
      (auto simp: subscribe_decoder_def Let_def split: if_splits)
qed

interpretation tcp_tokens: invariant_system tcp_start "tcp_step pbs" tokens_real for pbs
  by unfold_locales (auto intro: tokens_real_start tokens_real_step)

text \<open>An address without an IP part, the one in an empty reply, is never among them.\<close>

lemma accept_client_no_ip:
  assumes "tokens_real s"
  shows "TCPServer_accept_client pbs ctl topic '''' port rounds s \<noteq> Some (Inr s')"
  using assms
proof (induction rounds arbitrary: s)
  case Nil
  then have "srv_unmapped_addr_to_fd s (addr_token '''' port) = None"
    unfolding tokens_real_def by (metis addr_token_inject dotted_not_Nil(2))
  then show ?case by (simp add: TCPServer_accept_client.simps)
next
  case (Cons ws rounds)
  then have "srv_unmapped_addr_to_fd s (addr_token '''' port) = None"
    unfolding tokens_real_def by (metis addr_token_inject dotted_not_Nil(2))
  with Cons show ?case
    by (subst TCPServer_accept_client.simps)
      (auto split: sum.splits prod.splits dest: tokens_real_spin)
qed

section \<open>A concrete server\<close>

text \<open>
  A server that listens on descriptor 3, and the same server with a publisher of topic \<^verbatim>\<open>chat\<close> on
  descriptor 7 and one subscriber, the callback 0.
\<close>

definition demo_answers :: init_answers where
  "demo_answers = \<lparr>ia_sockfd = 3, ia_getfl = 2, ia_setfl = (\<lambda>flags. 0), ia_bind = 0, ia_listen = 0,
     ia_getsockname = Some 4000, ia_ctl = 0\<rparr>"

definition demo_start :: "(bytes, nat) TCPServer" where
  "demo_start = snd (TCPServer_init_tcp_srv demo_answers (TCPServer_new 5 0 ''10.0.0.2'' 0))"

definition demo_event :: "nat \<Rightarrow> accept_answer \<Rightarrow> bytes list \<Rightarrow> event" where
  "demo_event fd acc chunks = \<lparr>ev_fd = fd, ev_events = EPOLLIN,
     ev_ans = \<lparr>ans_accept = acc, ans_getfl = 2, ans_setfl = (\<lambda>flags. 0), ans_ctl = 0,
       ans_chunks = chunks, ans_end = Recv_EAGAIN\<rparr>\<rparr>"

lemma demo_start_eq:
  "demo_start = \<lparr>sock_epoll_fd = 5, sock_interest = [3 \<mapsto> EPOLLIN OR EPOLLPRI OR EPOLLERR], sock_closed = [],
     srv_decoders = Map.empty, srv_addr_to_topic = Map.empty, srv_fd_to_addr = replicate 100 [],
     srv_fd_receive_data = [], srv_unmapped_addr_to_fd = Map.empty, srv_fd = 3, srv_ip = ''10.0.0.2'',
     srv_port = 4000, srv_buf_size = 8192\<rparr>"
  by (simp add: demo_start_def demo_answers_def TCPServer_init_tcp_srv_def TCPServer_new_def
      Socket_create_socket_def Socket_set_nonblock_def TCPServer_bind_socket_def TCPServer_listen_socket_def
      TCPServer_get_socket_info_def Socket_add_epoll_event_def Socket_init_epoll_def vec_resize_def)

lemma tcp_start_demo: "tcp_start demo_start"
proof -
  have "TCPServer_init_tcp_srv demo_answers (TCPServer_new 5 0 ''10.0.0.2'' 0) = (4000, demo_start)"
    by (simp add: demo_start_def demo_answers_def TCPServer_init_tcp_srv_def TCPServer_new_def
        Socket_create_socket_def Socket_set_nonblock_def TCPServer_bind_socket_def TCPServer_listen_socket_def
        TCPServer_get_socket_info_def Socket_add_epoll_event_def Socket_init_epoll_def)
  then show ?thesis unfolding tcp_start_def by (metis zero_le_numeral)
qed

text \<open>An accepted connection with a short address, and its handshake, as steps.\<close>

lemma accept_step:
  assumes "srv_fd s = 3" and "accept_fresh s fd ip port" and "fd < length (srv_fd_to_addr s) + 100"
    and "length (dotted ip) < 15"
  shows "tcp_step pbs s (register_conn fd (addr_token (dotted ip) (uint port)) s)"
proof (rule tcp_step.spin)
  let ?e = "demo_event 3 (Accepted fd ip port) []"
  show handled: "TCPServer_event_handler pbs (Epoll_Events [?e]) s =
      Inr (0, register_conn fd (addr_token (dotted ip) (uint port)) s, [])"
    using assms
    by (simp add: TCPServer_event_handler_def event_round_def TCPServer_accept_new_client_def
        demo_event_def Socket_set_nonblock_def inet_ntop_def string_of_cstr_def vec_set_def
        register_conn_def Let_def)
  show "events_ok pbs [?e] s"
    using assms by (simp add: event_ok_def demo_event_def split: sum.splits)
qed

lemma handshake_step:
  assumes "srv_unmapped_addr_to_fd s (addr_token ip port) = Some fd"
    and "TCPServer_map_client ctl topic (addr_token ip port) fd s = Inr s'"
  shows "tcp_step pbs s s'"
  using assms
  by (intro tcp_step.handshake [where ctl = ctl and topic = topic and ip = ip and port = port])
    (simp add: TCPServer_accept_client.simps)

text \<open>Two publishers of \<^verbatim>\<open>chat\<close> on descriptors 7 and 8, and one subscriber.\<close>

definition demo_conns :: "(bytes, nat) TCPServer" where
  "demo_conns =
     \<lparr>sock_epoll_fd = 5,
      sock_interest = [3 \<mapsto> EPOLLIN OR EPOLLPRI OR EPOLLERR, 7 \<mapsto> EPOLLIN OR EPOLLPRI, 8 \<mapsto> EPOLLIN OR EPOLLPRI],
      sock_closed = [], srv_decoders = [''chat'' \<mapsto> \<lparr>dec_msgs = [], dec_functions = [0]\<rparr>],
      srv_addr_to_topic = [addr_token (dotted (10, 0, 0, 1)) 5000 \<mapsto> ''chat'', addr_token (dotted (10, 0, 0, 1)) 5001 \<mapsto> ''chat''],
      srv_fd_to_addr = (replicate 100 [])[7 := addr_token (dotted (10, 0, 0, 1)) 5000, 8 := addr_token (dotted (10, 0, 0, 1)) 5001],
      srv_fd_receive_data = replicate 100 [], srv_unmapped_addr_to_fd = Map.empty, srv_fd = 3,
      srv_ip = ''10.0.0.2'', srv_port = 4000, srv_buf_size = 8192\<rparr>"

lemma dotted_10 [simp]: "length (dotted (10, 0, 0, 1)) = 8"
  by (simp add: dotted_def length_decimal)

lemma demo_conns_reachable: "(tcp_step (\<lambda>t. example_pb))\<^sup>*\<^sup>* demo_start demo_conns"
proof -
  let ?t0 = "addr_token (dotted (10, 0, 0, 1)) 5000"
  let ?t1 = "addr_token (dotted (10, 0, 0, 1)) 5001"
  let ?s1 = "register_conn 7 ?t0 demo_start"
  let ?s2 = "register_conn 8 ?t1 ?s1"
  have ne: "?t0 \<noteq> ?t1" by (simp add: addr_token_inject)
  have same: "(replicate 100 [])[i := []] = replicate 100 []" for i
    by (cases "i < 100") (simp_all add: list_update_same_conv list_update_beyond)
  have s1: "tcp_step (\<lambda>t. example_pb) demo_start ?s1"
    using accept_step [of demo_start 7 "(10, 0, 0, 1)" 5000 "\<lambda>t. example_pb"]
    by (auto simp: accept_fresh_def demo_start_eq)
  have "?t1 \<notin> set ((replicate 100 [])[7 := ?t0])"
    using set_update_subset_insert [of "replicate 100 []" 7 ?t0] ne by auto
  then have s2: "tcp_step (\<lambda>t. example_pb) ?s1 ?s2"
    using accept_step [of ?s1 8 "(10, 0, 0, 1)" 5001 "\<lambda>t. example_pb"]
    by (simp add: accept_fresh_def demo_start_eq register_conn_def)
  let ?s3 = "?s2\<lparr>sock_interest := (sock_interest ?s2)(7 \<mapsto> EPOLLIN OR EPOLLPRI), srv_addr_to_topic := [?t0 \<mapsto> ''chat''],
      srv_fd_receive_data := replicate 100 [], srv_unmapped_addr_to_fd := [?t1 \<mapsto> 8]\<rparr>"
  have s3: "tcp_step (\<lambda>t. example_pb) ?s2 ?s3"
    by (rule handshake_step [where ip = "dotted (10, 0, 0, 1)" and port = 5000 and fd = 7 and ctl = 0 and topic = "''chat''"])
      (use ne in \<open>simp_all add: register_conn_def demo_start_eq map_client_Inr_iff vec_resize_def same fun_upd_twist\<close>)
  let ?s4 = "?s3\<lparr>sock_interest := (sock_interest ?s3)(8 \<mapsto> EPOLLIN OR EPOLLPRI), srv_addr_to_topic := [?t0 \<mapsto> ''chat'', ?t1 \<mapsto> ''chat''],
      srv_unmapped_addr_to_fd := Map.empty\<rparr>"
  have s4: "tcp_step (\<lambda>t. example_pb) ?s3 ?s4"
    by (rule handshake_step [where ip = "dotted (10, 0, 0, 1)" and port = 5001 and fd = 8 and ctl = 0 and topic = "''chat''"])
      (simp_all add: register_conn_def demo_start_eq map_client_Inr_iff same)
  have "tcp_step (\<lambda>t. example_pb) ?s4 demo_conns"
    by (rule tcp_step.subscribe [where topic = "''chat''" and url = "get_typeurl example_pb" and cb = 0])
      (simp add: subscribe_decoder_def demo_conns_def register_conn_def demo_start_eq SpecifiedDecoder_add_callback_def)
  with s1 s2 s3 s4 show ?thesis by (meson converse_rtranclp_into_rtranclp rtranclp.rtrancl_refl)
qed

section \<open>Properties\<close>

text \<open>
  C8: delivery.  Whatever way the network cuts a connection's bytes into chunks, and however the events
  of the connection are interleaved with those of other connections and with accepted connections over
  any number of rounds of the event handler, the subscribers of the connection's topic are called with
  exactly the messages whose frames the byte stream completes, in order, every subscriber once per
  message; and what stays in the connection's buffer is exactly the incomplete last frame.
\<close>

theorem topic_stream_delivered:
  assumes "tcp_start s0" and "(tcp_step pbs)\<^sup>*\<^sup>* s0 s" and "rounds_ok pbs ess s"
    and "spin_rounds pbs (map Epoll_Events ess) s = Inr (s', log)"
    and "conn_view s x = Some (t, b)" and "subscribers s t = Some fs" and "protobuf_laws (pbs t)"
    and "\<forall>es\<in>set ess. \<forall>e\<in>set es. quiet x e" and "deframe (pbs t) b = Some ([], b)"
    and "deframe (pbs t) (b @ concat (map (stream_of x) ess)) = Some (ms, r)"
    and "rounds_fit (pbs t) b (map (stream_of x) ess)"
  shows "conn_view s' x = Some (t, r) \<and> calls_of x log = deliver fs ms"
  using spin_rounds_stream [OF tcp.reachable_inv [OF assms(1,2)] assms(3-)] by blast

theorem topic_stream_delivered_witness:
  "\<exists>s' log. spin_rounds (\<lambda>t. example_pb)
       [Epoll_Events [demo_event 7 Accept_EAGAIN [[2, 0], [0, 0, 1, 7, 2, 0, 0, 0, 1, 8, 9, 0]]]] demo_conns =
       Inr (s', log) \<and>
     conn_view s' 7 = Some (''chat'', [9, 0]) \<and> calls_of 7 log = [(0, [7]), (0, [8])]"
proof -
  let ?pbs = "\<lambda>t :: string. example_pb"
  let ?cs = "[[2, 0], [0, 0, 1, 7, 2, 0, 0, 0, 1, 8, 9, 0]]"
  let ?e = "demo_event 7 Accept_EAGAIN ?cs"
  have "concat (map (serialize example_pb) [[7], [8]]) @ [9, 0] = concat ?cs"
    by (simp add: serialize_eq [OF protobuf_laws_example]) (simp add: example_pb_def example_write_def)
  moreover have "pb_ByteSize example_pb m = Suc (length m)" for m by (simp add: example_pb_def)
  ultimately have data: "deframe example_pb (concat ?cs) = Some ([[7], [8]], [9, 0])"
    using deframe_serialize_all [OF protobuf_laws_example, of "[[7], [8]]" "[9, 0]"]
    by (simp add: deframe_short)
  have wf: "srv_wf demo_conns" by (rule tcp.reachable_inv [OF tcp_start_demo demo_conns_reachable])
  have conns: "conn_view demo_conns 7 = Some (''chat'', [])" "subscribers demo_conns ''chat'' = Some [0]"
    by (simp_all add: conn_view_def subscribers_def demo_conns_def addr_token_inject)
  have e: "ev_fd ?e = 7" "quiet 7 ?e" "stream_of 7 [?e] = concat ?cs"
    by (simp_all add: demo_event_def quiet_def epoll_masks)
  have nil: "deframe example_pb [] = Some ([], [])" by (simp add: deframe_short)
  obtain s' where round: "event_round ?pbs ?e demo_conns = Inr (False, s', map (Pair 7) (deliver [0] [[7], [8]]))"
    using event_round_stream [where pbs = ?pbs, OF wf conns protobuf_laws_example e(1,2) nil, of "[[7], [8]]" "[9, 0]"]
      data e(3) by auto
  have ok: "rounds_ok ?pbs [[?e]] demo_conns"
    using round by (simp add: event_ok_def demo_event_def demo_conns_def split: sum.splits prod.splits)
  have spin: "spin_rounds ?pbs (map Epoll_Events [[?e]]) demo_conns =
      Inr (s', map (Pair 7) (deliver [0] [[7], [8]]))"
    by (simp add: TCPServer_event_handler_def round)
  have "conn_view s' 7 = Some (''chat'', [9, 0]) \<and>
      calls_of 7 (map (Pair 7) (deliver [0 :: nat] [[7 :: byte], [8]])) = deliver [0] [[7], [8]]"
    by (rule topic_stream_delivered [OF tcp_start_demo demo_conns_reachable ok spin conns])
      (use protobuf_laws_example e data nil in \<open>simp_all split: option.splits\<close>)
  with spin show ?thesis by (simp add: deliver_def)
qed



text \<open>
  C18: the event handler fails in three ways only.  In every reachable state, if it does not return, then
  a length field wrapped around in the decoder, or it accepted a peer whose four address numbers all
  have three digits, or it accepted a descriptor a hundred or more past the end of the address table.
\<close>

theorem event_handler_failures:
  assumes "tcp_start s0" and "(tcp_step pbs)\<^sup>*\<^sup>* s0 s" and "events_ok pbs es s"
    and "TCPServer_event_handler pbs (Epoll_Events es) s = Inl err"
  shows "err = Negative_Size \<or>
    (\<exists>e\<in>set es. err = Null_String \<and> long_peer (ev_ans e) \<or>
       err = Out_Of_Range \<and> far_fd (ev_ans e) (length (srv_fd_to_addr s)))"
  using event_loop_Inl [OF tcp.reachable_inv [OF assms(1,2)] assms(3), of 0 err] assms(4)
  by (auto simp: TCPServer_event_handler_def split: if_splits)

theorem event_handler_failures_witness:
  "\<exists>e. TCPServer_event_handler (\<lambda>t. example_pb) (Epoll_Events [e]) demo_start = Inl Null_String \<and>
     long_peer (ev_ans e)"
proof -
  let ?e = "demo_event 3 (Accepted 7 (192, 168, 100, 200) 5000) []"
  have fail: "TCPServer_event_handler (\<lambda>t. example_pb) (Epoll_Events [?e]) demo_start = Inl Null_String"
    by (simp add: TCPServer_event_handler_def event_round_def TCPServer_accept_new_client_def
        demo_event_def demo_start_eq Socket_set_nonblock_def inet_ntop_15 string_of_cstr_def)
  have "accept_fresh demo_start 7 (192, 168, 100, 200) 5000"
    by (auto simp: accept_fresh_def demo_start_eq)
  then have "events_ok (\<lambda>t. example_pb) [?e] demo_start"
    by (simp add: event_ok_def demo_event_def demo_start_eq split: sum.splits)
  from event_handler_failures [OF tcp_start_demo rtranclp.rtrancl_refl this fail] fail show ?thesis by auto
qed

text \<open>
  A failed handshake never ends.  \<^verbatim>\<open>TopicConnection\<close> answers a connection that could not be
  established with an empty reply; the subscriber then waits for a peer without an IP address.  In no
  reachable state and after no number of attempts, whatever the spin thread does between them, does
  \<^verbatim>\<open>accept_client\<close> return for such a reply.
\<close>

lemma accept_client_empty_reply_stuck:
  assumes "tcp_start s0" and "(tcp_step pbs)\<^sup>*\<^sup>* s0 s"
  shows "TCPServer_accept_client pbs ctl topic '''' port rounds s \<noteq> Some (Inr s')"
  by (rule accept_client_no_ip [OF tcp_tokens.reachable_inv [OF assms]])

text \<open>
  The two tables indexed by descriptors grow differently.  The address table starts with a hundred
  entries, the table of receive buffers with none, and each grows by a hundred at most once per access:
  there is a reachable state in which an accepted connection on descriptor 120 waits for its topic, and
  the handshake that maps it writes past the end of the table of receive buffers.
\<close>

lemma accept_client_buffer_overflow:
  "\<exists>s. (tcp_step (\<lambda>t. example_pb))\<^sup>*\<^sup>* demo_start s \<and>
     srv_unmapped_addr_to_fd s (addr_token (dotted (10, 0, 0, 1)) 5000) = Some 120 \<and>
     TCPServer_accept_client (\<lambda>t. example_pb) 0 ''chat'' (dotted (10, 0, 0, 1)) 5000 [] s = Some (Inl Out_Of_Range)"
proof -
  let ?s = "register_conn 120 (addr_token (dotted (10, 0, 0, 1)) 5000) demo_start"
  have "tcp_step (\<lambda>t. example_pb) demo_start ?s"
    using accept_step [of demo_start 120 "(10, 0, 0, 1)" 5000 "\<lambda>t. example_pb"]
    by (auto simp: accept_fresh_def demo_start_eq)
  moreover have "srv_unmapped_addr_to_fd ?s (addr_token (dotted (10, 0, 0, 1)) 5000) = Some 120"
    by (simp add: register_conn_def)
  moreover have "TCPServer_accept_client (\<lambda>t. example_pb) 0 ''chat'' (dotted (10, 0, 0, 1)) 5000 [] ?s =
      Some (Inl Out_Of_Range)"
    by (simp add: TCPServer_accept_client.simps register_conn_def TCPServer_map_client_def demo_start_eq vec_set_def)
  ultimately show ?thesis by blast
qed

end
