(* ===== verification/TCP_Client.thy ===== *)
theory TCP_Client
  imports Serialization Async_Socket "HOL-Library.Sublist"
begin

text \<open>
  \<^verbatim>\<open>cpp/src/TCPClient.cpp\<close> and \<^verbatim>\<open>Publisher::publish\<close>: the sending end of the topic connections.

  A client keeps, for every subscriber of a topic, a socket and a buffer of bytes that are not yet
  written.  \<^verbatim>\<open>publish\<close> appends a frame to every subscriber's buffer and writes as much as the socket
  takes.  An \<^verbatim>\<open>unordered_set\<close> is a set; the order in which a loop visits it is an argument.
  \<^verbatim>\<open>errno\<close> belongs to the calling thread: it is an argument and a result of what reads and sets it.
\<close>

section \<open>State\<close>

datatype errno = E_AGAIN | E_INPROGRESS | E_OTHER

record TCPClient = Socket +
  cli_topic_fd :: "string \<Rightarrow> nat set"
  cli_data :: "bytes list"
  cli_static_topic_cache :: "string \<Rightarrow> bytes set"

definition MAX_WRITE_BUFFER_SIZE :: nat where "MAX_WRITE_BUFFER_SIZE = 65536"

text \<open>The shared state of a \<^verbatim>\<open>promise\<close> and its \<^verbatim>\<open>future\<close>.\<close>

datatype 'a future = No_State | Pending | Ready 'a | Broken

fun future_get :: "'a future \<Rightarrow> 'a result option" where
  "future_get No_State = Some (Inl Future_No_State)"
| "future_get Pending = None"
| "future_get (Ready x) = Some (Inr x)"
| "future_get Broken = Some (Inl Broken_Promise)"

record client_info =
  ci_ip :: string
  ci_port :: int
  ci_connected :: "bool future"

definition empty_client_info :: client_info where
  "empty_client_info = \<lparr>ci_ip = '''', ci_port = 0, ci_connected = No_State\<rparr>"

definition TCPClient_new :: "int \<Rightarrow> TCPClient" where
  "TCPClient_new garbage = \<lparr>sock_epoll_fd = garbage, sock_interest = Map.empty, sock_closed = [],
     cli_topic_fd = (\<lambda>t. {}), cli_data = replicate 100 [], cli_static_topic_cache = (\<lambda>t. {})\<rparr>"

section \<open>Writing\<close>

text \<open>The answers of \<^verbatim>\<open>write\<close>: a number of bytes that were taken, or -1 and a value of \<^verbatim>\<open>errno\<close>.\<close>

datatype write_answer = Wrote nat | Write_Fail errno

datatype write_end = Stopped | Failed

text \<open>
  The loop of \<^verbatim>\<open>write_fd\<close> on the bytes \<open>rest\<close> that it still has to write (\<^verbatim>\<open>n\<close> is their number).
  The result is how the loop ended, \<^verbatim>\<open>errno\<close>, the bytes that \<^verbatim>\<open>n\<close> still counts, and the bytes that went
  to the socket; \<open>None\<close>: the answers are used up and the loop has not ended.
\<close>

fun write_loop :: "errno \<Rightarrow> write_answer list \<Rightarrow> bytes \<Rightarrow> (write_end \<times> errno \<times> bytes \<times> bytes) option" where
  "write_loop e ans [] = Some (Stopped, e, [], [])"
| "write_loop e [] (b # bs) = None"
| "write_loop e (Write_Fail e' # ans) (b # bs) =
     Some (if e' \<noteq> E_AGAIN then Failed else Stopped, e', b # bs, [])"
| "write_loop e (Wrote k # ans) (b # bs) =
     (let rest = b # bs in
      if k < length rest \<and> e = E_AGAIN then Some (Stopped, e, rest, take k rest)
      else map_option (\<lambda>(r, e', left, sent). (r, e', left, take k rest @ sent))
             (write_loop e ans (drop k rest)))"

definition TCPClient_close_and_delete_event :: "nat \<Rightarrow> TCPClient \<Rightarrow> TCPClient" where
  "TCPClient_close_and_delete_event fd c = close_fd fd c"

text \<open>\<^verbatim>\<open>write_fd\<close> returns its boolean, \<^verbatim>\<open>errno\<close>, the client and the bytes that went to the socket.\<close>

definition TCPClient_write_fd ::
    "errno \<Rightarrow> write_answer list \<Rightarrow> string \<Rightarrow> nat \<Rightarrow> TCPClient \<Rightarrow>
       (bool \<times> errno \<times> TCPClient \<times> bytes) result option" where
  "TCPClient_write_fd e ans topic fd c =
     (if length (cli_data c) \<le> fd then Some (Inl Out_Of_Range)
      else let to_send = cli_data c ! fd in
        case write_loop e ans to_send of
          None \<Rightarrow> None
        | Some (Failed, e', left, sent) \<Rightarrow>
            Some (Inr (False, e', TCPClient_close_and_delete_event fd
              (c\<lparr>cli_topic_fd := (cli_topic_fd c)(topic := cli_topic_fd c topic - {fd}),
                 cli_data := (cli_data c)[fd := []]\<rparr>), sent))
        | Some (Stopped, e', left, sent) \<Rightarrow>
            Some (Inr (True, e',
              c\<lparr>cli_data := (cli_data c)[fd := drop (length to_send - length left) (cli_data c ! fd)]\<rparr>, sent)))"

text \<open>
  The loop of \<^verbatim>\<open>write_to_socket\<close> over the subscribers in the order \<open>fds\<close>; \<open>ans fd\<close> are the answers of
  \<^verbatim>\<open>write\<close> on one socket.  The result lists what went to which socket.
\<close>

fun write_all ::
    "errno \<Rightarrow> (nat \<Rightarrow> write_answer list) \<Rightarrow> string \<Rightarrow> bytes \<Rightarrow> nat list \<Rightarrow> TCPClient \<Rightarrow>
       (errno \<times> TCPClient \<times> (nat \<times> bytes) list) result option" where
  "write_all e ans topic msg [] c = Some (Inr (e, c, []))"
| "write_all e ans topic msg (fd # fds) c =
     (if length (cli_data c) \<le> fd then Some (Inl Out_Of_Range)
      else if length (cli_data c ! fd) > MAX_WRITE_BUFFER_SIZE then write_all e ans topic msg fds c
      else
        (case TCPClient_write_fd e (ans fd) topic fd
                (c\<lparr>cli_data := (cli_data c)[fd := cli_data c ! fd @ msg]\<rparr>) of
           None \<Rightarrow> None
         | Some (Inl err) \<Rightarrow> Some (Inl err)
         | Some (Inr (True, e', c', sent)) \<Rightarrow>
             map_option (\<lambda>r. bind_result r (\<lambda>(e'', c'', wire). Inr (e'', c'', (fd, sent) # wire)))
               (write_all e' ans topic msg fds c')
         | Some (Inr (False, e', c', sent)) \<Rightarrow> Some (Inr (e', c', [(fd, sent)]))))"

definition TCPClient_write_to_socket ::
    "errno \<Rightarrow> (nat \<Rightarrow> write_answer list) \<Rightarrow> nat list \<Rightarrow> string \<Rightarrow> bytes \<Rightarrow> TCPClient \<Rightarrow>
       (errno \<times> TCPClient \<times> (nat \<times> bytes) list) result option" where
  "TCPClient_write_to_socket e ans order topic msg c = write_all e ans topic msg order c"

definition TCPClient_write_to_cache :: "string \<Rightarrow> bytes \<Rightarrow> TCPClient \<Rightarrow> bool \<times> TCPClient" where
  "TCPClient_write_to_cache topic data c =
     (data \<notin> cli_static_topic_cache c topic,
      c\<lparr>cli_static_topic_cache :=
          (cli_static_topic_cache c)(topic := insert data (cli_static_topic_cache c topic))\<rparr>)"

definition Publisher_publish ::
    "'m protobuf \<Rightarrow> errno \<Rightarrow> (nat \<Rightarrow> write_answer list) \<Rightarrow> nat list \<Rightarrow> string \<Rightarrow> 'm \<Rightarrow> bool \<Rightarrow> TCPClient \<Rightarrow>
       (errno \<times> TCPClient \<times> (nat \<times> bytes) list) result option" where
  "Publisher_publish pb e ans order pub_topic msg cache c =
     (let buffer = serialize pb msg in
      if cache then
        (let (inserted, c') = TCPClient_write_to_cache pub_topic buffer c in
         if \<not> inserted then Some (Inr (e, c', []))
         else TCPClient_write_to_socket e ans order pub_topic buffer c')
      else TCPClient_write_to_socket e ans order pub_topic buffer c)"

section \<open>Connecting\<close>

datatype connect_answer = Connect_Ok | Connect_Fail errno

record connect_answers =
  ca_sockfd :: int
  ca_getfl :: int
  ca_setfl :: "32 word \<Rightarrow> int"
  ca_inet_pton :: int
  ca_connect :: connect_answer
  ca_getsockname :: "(ip4 \<times> 16 word) option"

definition TCPClient_get_socket_info ::
    "(ip4 \<times> 16 word) option \<Rightarrow> nat \<Rightarrow> TCPClient \<Rightarrow> ((string \<times> int) option \<times> TCPClient) result" where
  "TCPClient_get_socket_info name fd c =
     (case name of
        None \<Rightarrow> Inr (None, TCPClient_close_and_delete_event fd c)
      | Some (ip, port) \<Rightarrow>
          bind_result (string_of_cstr (inet_ntop ip 15)) (\<lambda>src_ip. Inr (Some (src_ip, uint port), c)))"

text \<open>
  \<^verbatim>\<open>add_client\<close> up to the start of its thread.  The result is what it returns, the client, and the
  descriptor and topic that the thread is started with, if it is started.
\<close>

definition TCPClient_add_client ::
    "connect_answers \<Rightarrow> string \<Rightarrow> TCPClient \<Rightarrow> (client_info \<times> TCPClient \<times> (nat \<times> string) option) result" where
  "TCPClient_add_client a topic c =
     (let fd = Socket_create_socket (ca_sockfd a) (ca_getfl a) (ca_setfl a) in
      if fd < 0 then Inr (empty_client_info, c, None)
      else
        let info = empty_client_info\<lparr>ci_connected := Pending\<rparr>;
            failed = info\<lparr>ci_connected := Ready False\<rparr> in
        if ca_inet_pton a = 0
        then Inr (failed, TCPClient_close_and_delete_event (nat fd) c, None)
        else
          (case ca_connect a of
             Connect_Ok \<Rightarrow> Inr (info\<lparr>ci_connected := Broken\<rparr>, c, None)
           | Connect_Fail e \<Rightarrow>
               if e \<noteq> E_INPROGRESS
               then Inr (failed, TCPClient_close_and_delete_event (nat fd) c, None)
               else bind_result (TCPClient_get_socket_info (ca_getsockname a) (nat fd) c) (\<lambda>(src, c').
                 case src of
                   None \<Rightarrow> Inr (failed, TCPClient_close_and_delete_event (nat fd) c', None)
                 | Some (src_ip, src_port) \<Rightarrow>
                     Inr (info\<lparr>ci_ip := src_ip, ci_port := src_port\<rparr>, c', Some (nat fd, topic)))))"

record thread_answers =
  ta_select :: int
  ta_getsockopt :: int
  ta_err :: int
  ta_cache :: "bytes list"    \<comment> \<open>the cached messages of the topic in the order of iteration\<close>
  ta_errno :: errno
  ta_writes :: "write_answer list"

text \<open>
  The thread: the value of the promise, the client, and the bytes that went to the socket.  The code changes the tables
  in front of its lock; here the thread is one step, as if it held the lock from there on.
\<close>

definition TCPClient_connect_thread ::
    "thread_answers \<Rightarrow> nat \<Rightarrow> string \<Rightarrow> TCPClient \<Rightarrow> (bool \<times> TCPClient \<times> bytes) result option" where
  "TCPClient_connect_thread a fd topic c =
     (if ta_select a > 0 then
        if ta_getsockopt a < 0 then Some (Inr (False, c, []))
        else if ta_err a = 0 then
          (let c1 = c\<lparr>cli_topic_fd := (cli_topic_fd c)(topic := insert fd (cli_topic_fd c topic))\<rparr>;
               data = (if length (cli_data c1) \<le> fd
                       then vec_resize (length (cli_data c1) + 100) [] (cli_data c1) else cli_data c1);
               data_init = concat (ta_cache a) in
           case vec_set data fd data_init of
             Inl err \<Rightarrow> Some (Inl err)
           | Inr data' \<Rightarrow>
               map_option (\<lambda>r. bind_result r (\<lambda>(ok, e, c2, sent). Inr (True, c2, sent)))
                 (TCPClient_write_fd (ta_errno a) (ta_writes a) topic fd (c1\<lparr>cli_data := data'\<rparr>)))
        else Some (Inr (False, TCPClient_close_and_delete_event fd c, []))
      else Some (Inr (False, TCPClient_close_and_delete_event fd c, [])))"

section \<open>No byte is lost or sent twice\<close>

text \<open>
  \<open>clean_writes\<close>: no write takes only a part of its bytes while \<^verbatim>\<open>errno\<close> still holds \<^verbatim>\<open>EAGAIN\<close> from an
  earlier call.
\<close>

fun clean_writes :: "errno \<Rightarrow> write_answer list \<Rightarrow> bytes \<Rightarrow> bool" where
  "clean_writes e ans [] = True"
| "clean_writes e [] (b # bs) = True"
| "clean_writes e (Write_Fail e' # ans) (b # bs) = True"
| "clean_writes e (Wrote k # ans) (b # bs) =
     (k < length (b # bs) \<longrightarrow> e \<noteq> E_AGAIN \<and> clean_writes e ans (drop k (b # bs)))"

lemma write_loop_conserves:
  assumes "write_loop e ans rest = Some (r, e', left, sent)" and "clean_writes e ans rest"
  shows "sent @ left = rest"
  using assms
proof (induction e ans rest arbitrary: r e' left sent rule: write_loop.induct)
  case (4 e k ans b bs)
  show ?case
  proof (cases "k < length (b # bs)")
    case True
    with "4.prems" obtain sent' where "write_loop e ans (drop k (b # bs)) = Some (r, e', left, sent')"
      "sent = take k (b # bs) @ sent'" "clean_writes e ans (drop k (b # bs))"
      by (auto simp: Let_def)
    with "4.IH" [of "b # bs"] True "4.prems"(2) have "sent' @ left = drop k (b # bs)" by auto
    with \<open>sent = _\<close> show ?thesis using append_take_drop_id [of k "b # bs"] by simp
  next
    case False
    with "4.prems" show ?thesis by (auto simp: Let_def)
  qed
qed auto

lemma write_loop_left: "write_loop e ans rest = Some (r, e', left, sent) \<Longrightarrow> length left \<le> length rest"
proof (induction e ans rest arbitrary: r e' left sent rule: write_loop.induct)
  case (4 e k ans b bs)
  then show ?case by (fastforce simp: Let_def split: if_splits)
qed (auto split: if_splits)

text \<open>When every write takes something, as many answers as there are bytes are enough.\<close>

lemma write_loop_returns:
  assumes "length rest \<le> length ans" and "\<forall>k. Wrote k \<in> set ans \<longrightarrow> 0 < k"
  shows "\<exists>r. write_loop e ans rest = Some r"
  using assms
proof (induction e ans rest rule: write_loop.induct)
  case (4 e k ans b bs)
  show ?case
  proof (cases "k < length (b # bs) \<and> e = E_AGAIN")
    case False
    have "0 < k" using "4.prems"(2) by simp
    then have "\<exists>r. write_loop e ans (drop k (b # bs)) = Some r"
      using "4.IH" [OF refl False] "4.prems" by auto
    with False show ?thesis by (auto simp: Let_def)
  qed (simp add: Let_def)
qed auto

text \<open>\<open>sent_to x wire\<close>: the bytes that went to socket \<open>x\<close>.\<close>

definition sent_to :: "nat \<Rightarrow> (nat \<times> bytes) list \<Rightarrow> bytes" where
  "sent_to x wire = concat (map snd (filter (\<lambda>w. fst w = x) wire))"

lemma sent_to_simps [simp]:
  "sent_to x [] = []" "sent_to x ((fd, bs) # wire) = (if fd = x then bs else []) @ sent_to x wire"
  "sent_to x (w @ w') = sent_to x w @ sent_to x w'"
  by (simp_all add: sent_to_def)

lemma write_fd_cases:
  assumes "TCPClient_write_fd e ans topic fd c = Some (Inr (ok, e', c', sent))"
  obtains (stopped) left where "ok" "fd < length (cli_data c)"
      "write_loop e ans (cli_data c ! fd) = Some (Stopped, e', left, sent)"
      "c' = c\<lparr>cli_data := (cli_data c)[fd := drop (length (cli_data c ! fd) - length left) (cli_data c ! fd)]\<rparr>"
    | (failed) left where "\<not> ok" "fd < length (cli_data c)"
      "write_loop e ans (cli_data c ! fd) = Some (Failed, e', left, sent)"
      "c' = c\<lparr>sock_interest := (sock_interest c)(fd := None), sock_closed := sock_closed c @ [fd],
          cli_topic_fd := (cli_topic_fd c)(topic := cli_topic_fd c topic - {fd}),
          cli_data := (cli_data c)[fd := []]\<rparr>"
  using assms
  by (auto simp: TCPClient_write_fd_def Let_def TCPClient_close_and_delete_event_def close_fd_def
      split: if_splits option.splits write_end.splits prod.splits)

lemma write_fd_stream:
  assumes "TCPClient_write_fd e ans topic fd c = Some (Inr (True, e', c', sent))"
    and "clean_writes e ans (cli_data c ! fd)"
  shows "sent @ cli_data c' ! fd = cli_data c ! fd"
  using assms(1)
proof (cases rule: write_fd_cases)
  case (stopped left)
  from write_loop_conserves [OF stopped(3) assms(2)] have "cli_data c ! fd = sent @ left" by simp
  with stopped(2,4) show ?thesis by simp
qed simp

text \<open>The same along one publication, and what it leaves alone.\<close>

fun clean_all ::
    "errno \<Rightarrow> (nat \<Rightarrow> write_answer list) \<Rightarrow> string \<Rightarrow> bytes \<Rightarrow> nat list \<Rightarrow> TCPClient \<Rightarrow> bool" where
  "clean_all e ans topic msg [] c = True"
| "clean_all e ans topic msg (fd # fds) c =
     (if length (cli_data c) \<le> fd then True
      else if length (cli_data c ! fd) > MAX_WRITE_BUFFER_SIZE then clean_all e ans topic msg fds c
      else clean_writes e (ans fd) (cli_data c ! fd @ msg) \<and>
        (case TCPClient_write_fd e (ans fd) topic fd
                (c\<lparr>cli_data := (cli_data c)[fd := cli_data c ! fd @ msg]\<rparr>) of
           Some (Inr (True, e', c', sent)) \<Rightarrow> clean_all e' ans topic msg fds c'
         | _ \<Rightarrow> True))"

definition keeps_rest :: "nat \<Rightarrow> TCPClient \<Rightarrow> TCPClient \<Rightarrow> bool" where
  "keeps_rest fd c c' \<longleftrightarrow> length (cli_data c') = length (cli_data c) \<and>
     (\<forall>x. x \<noteq> fd \<longrightarrow> cli_data c' ! x = cli_data c ! x) \<and> set (sock_closed c) \<subseteq> set (sock_closed c')"

lemma write_fd_keeps_rest:
  assumes "TCPClient_write_fd e ans topic fd (c\<lparr>cli_data := (cli_data c)[fd := new]\<rparr>) = Some (Inr (ok, e', c', sent))"
  shows "keeps_rest fd c c'" and "\<not> ok \<Longrightarrow> fd \<in> set (sock_closed c')"
proof -
  from assms show "keeps_rest fd c c'"
    by (cases rule: write_fd_cases) (auto simp: keeps_rest_def)
  show "\<not> ok \<Longrightarrow> fd \<in> set (sock_closed c')"
    using assms by (cases rule: write_fd_cases) auto
qed

text \<open>
  One round of the loop: the subscriber is skipped, served, or dropped; in the last case the loop ends.
\<close>

lemma write_all_Cons_cases:
  assumes "write_all e ans topic msg (fd # fds) c = Some (Inr (e'', c'', wire))"
  obtains (skipped) "fd < length (cli_data c)" "length (cli_data c ! fd) > MAX_WRITE_BUFFER_SIZE"
      "write_all e ans topic msg fds c = Some (Inr (e'', c'', wire))"
    | (served) e' c' sent wire' where "fd < length (cli_data c)" "length (cli_data c ! fd) \<le> MAX_WRITE_BUFFER_SIZE"
      "TCPClient_write_fd e (ans fd) topic fd (c\<lparr>cli_data := (cli_data c)[fd := cli_data c ! fd @ msg]\<rparr>) =
         Some (Inr (True, e', c', sent))"
      "write_all e' ans topic msg fds c' = Some (Inr (e'', c'', wire'))" "wire = (fd, sent) # wire'"
    | (dropped) sent where "fd < length (cli_data c)" "length (cli_data c ! fd) \<le> MAX_WRITE_BUFFER_SIZE"
      "TCPClient_write_fd e (ans fd) topic fd (c\<lparr>cli_data := (cli_data c)[fd := cli_data c ! fd @ msg]\<rparr>) =
         Some (Inr (False, e'', c'', sent))" "wire = [(fd, sent)]"
  using assms
  by (auto simp: bind_result_Inr_iff split: if_splits option.splits sum.splits prod.splits bool.splits)

lemma write_all_untouched:
  assumes "write_all e ans topic msg fds c = Some (Inr (e', c', wire))"
  shows "length (cli_data c') = length (cli_data c)" and "set (sock_closed c) \<subseteq> set (sock_closed c')"
    and "x \<notin> set fds \<Longrightarrow> cli_data c' ! x = cli_data c ! x" and "x \<notin> set fds \<Longrightarrow> sent_to x wire = []"
proof -
  have "length (cli_data c') = length (cli_data c) \<and> set (sock_closed c) \<subseteq> set (sock_closed c') \<and>
      (x \<notin> set fds \<longrightarrow> cli_data c' ! x = cli_data c ! x \<and> sent_to x wire = [])"
    using assms
  proof (induction fds arbitrary: e c wire)
    case (Cons fd fds)
    from Cons.prems show ?case
    proof (cases rule: write_all_Cons_cases)
      case skipped
      with Cons.IH show ?thesis by auto
    next
      case (served e1 c1 sent wire')
      from Cons.IH [OF served(4)] write_fd_keeps_rest(1) [OF served(3)] served(5) show ?thesis
        by (auto simp: keeps_rest_def)
    next
      case (dropped sent)
      from write_fd_keeps_rest(1) [OF dropped(3)] dropped(4) show ?thesis
        by (auto simp: keeps_rest_def)
    qed
  qed simp
  then show "length (cli_data c') = length (cli_data c)" "set (sock_closed c) \<subseteq> set (sock_closed c')"
    "x \<notin> set fds \<Longrightarrow> cli_data c' ! x = cli_data c ! x" "x \<notin> set fds \<Longrightarrow> sent_to x wire = []"
    by simp_all
qed

text \<open>A publication contributes a whole frame to a subscriber's stream, or nothing.\<close>

lemma write_all_stream:
  assumes "write_all e ans topic msg fds c = Some (Inr (e', c', wire))" and "distinct fds"
    and "clean_all e ans topic msg fds c" and "x \<notin> set (sock_closed c')"
  shows "\<exists>acc\<in>{[], msg}. sent_to x wire @ cli_data c' ! x = cli_data c ! x @ acc"
  using assms
proof (induction fds arbitrary: e c wire)
  case (Cons fd fds)
  from Cons.prems(1) show ?case
  proof (cases rule: write_all_Cons_cases)
    case skipped
    with Cons.IH Cons.prems show ?thesis by simp
  next
    case (served e1 c1 sent wire')
    have clean: "clean_writes e (ans fd) (cli_data c ! fd @ msg)" "clean_all e1 ans topic msg fds c1"
      using Cons.prems(3) served by auto
    note rest = write_fd_keeps_rest(1) [OF served(3), unfolded keeps_rest_def]
    show ?thesis
    proof (cases "fd = x")
      case True
      with Cons.prems(2) have "x \<notin> set fds" by auto
      from write_all_untouched(3,4) [OF served(4) this] True
      have "sent_to x wire @ cli_data c' ! x = sent @ cli_data c1 ! fd" by (simp add: served(5))
      also have "\<dots> = cli_data c ! fd @ msg"
        using write_fd_stream [OF served(3)] clean(1) served(1) by simp
      finally show ?thesis using True by blast
    next
      case False
      with Cons.IH [OF served(4) _ clean(2) Cons.prems(4)] Cons.prems(2) rest show ?thesis
        by (simp add: served(5))
    qed
  next
    case (dropped sent)
    have "x \<noteq> fd" using write_fd_keeps_rest(2) [OF dropped(3)] Cons.prems(4) by auto
    with write_fd_keeps_rest(1) [OF dropped(3)] dropped(4) show ?thesis
      by (auto simp: keeps_rest_def)
  qed
qed simp

section \<open>Runs of publications\<close>

text \<open>One call of \<^verbatim>\<open>publish\<close> with what the operating system answers, and a sequence of calls on one topic.\<close>

record 'm publication =
  pub_msg :: 'm
  pub_cache :: bool
  pub_order :: "nat list"
  pub_errno :: errno
  pub_ans :: "nat \<Rightarrow> write_answer list"

fun publish_run ::
    "'m protobuf \<Rightarrow> string \<Rightarrow> 'm publication list \<Rightarrow> TCPClient \<Rightarrow>
       (TCPClient \<times> (nat \<times> bytes) list) result option" where
  "publish_run pb topic [] c = Some (Inr (c, []))"
| "publish_run pb topic (p # ps) c =
     (case Publisher_publish pb (pub_errno p) (pub_ans p) (pub_order p) topic (pub_msg p) (pub_cache p) c of
        None \<Rightarrow> None
      | Some (Inl err) \<Rightarrow> Some (Inl err)
      | Some (Inr (e', c', wire)) \<Rightarrow>
          map_option (\<lambda>r. bind_result r (\<lambda>(c'', wire'). Inr (c'', wire @ wire'))) (publish_run pb topic ps c'))"

definition clean_publish :: "'m protobuf \<Rightarrow> string \<Rightarrow> 'm publication \<Rightarrow> TCPClient \<Rightarrow> bool" where
  "clean_publish pb topic p c \<longleftrightarrow> distinct (pub_order p) \<and>
     clean_all (pub_errno p) (pub_ans p) topic (serialize pb (pub_msg p)) (pub_order p)
       (if pub_cache p then snd (TCPClient_write_to_cache topic (serialize pb (pub_msg p)) c) else c)"

fun clean_run :: "'m protobuf \<Rightarrow> string \<Rightarrow> 'm publication list \<Rightarrow> TCPClient \<Rightarrow> bool" where
  "clean_run pb topic [] c = True"
| "clean_run pb topic (p # ps) c =
     (clean_publish pb topic p c \<and>
      (case Publisher_publish pb (pub_errno p) (pub_ans p) (pub_order p) topic (pub_msg p) (pub_cache p) c of
         Some (Inr (e', c', wire)) \<Rightarrow> clean_run pb topic ps c'
       | _ \<Rightarrow> True))"

lemma write_to_cache_keeps [simp]:
  "cli_data (snd (TCPClient_write_to_cache topic data c)) = cli_data c"
  "sock_closed (snd (TCPClient_write_to_cache topic data c)) = sock_closed c"
  by (simp_all add: TCPClient_write_to_cache_def)

lemma publish_cases:
  assumes "Publisher_publish pb e ans order topic msg cache c = Some (Inr (e', c', wire))"
  obtains (cached) "cache" "c' = snd (TCPClient_write_to_cache topic (serialize pb msg) c)" "wire = []"
    | (written) "write_all e ans topic (serialize pb msg) order
        (if cache then snd (TCPClient_write_to_cache topic (serialize pb msg) c) else c) = Some (Inr (e', c', wire))"
  using assms
  by (auto simp: Publisher_publish_def TCPClient_write_to_socket_def Let_def split: if_splits prod.splits)

lemma publish_closed:
  assumes "Publisher_publish pb e ans order topic msg cache c = Some (Inr (e', c', wire))"
  shows "set (sock_closed c) \<subseteq> set (sock_closed c')"
  using assms
proof (cases rule: publish_cases)
  case written
  from write_all_untouched(2) [OF this] show ?thesis by (simp split: if_splits)
qed simp

lemma publish_stream:
  assumes "Publisher_publish pb (pub_errno p) (pub_ans p) (pub_order p) topic (pub_msg p) (pub_cache p) c =
      Some (Inr (e', c', wire))"
    and "clean_publish pb topic p c" and "x \<notin> set (sock_closed c')"
  shows "\<exists>acc\<in>{[], serialize pb (pub_msg p)}. sent_to x wire @ cli_data c' ! x = cli_data c ! x @ acc"
  using assms(1)
proof (cases rule: publish_cases)
  case written
  let ?c = "if pub_cache p then snd (TCPClient_write_to_cache topic (serialize pb (pub_msg p)) c) else c"
  have "\<exists>acc\<in>{[], serialize pb (pub_msg p)}. sent_to x wire @ cli_data c' ! x = cli_data ?c ! x @ acc"
    by (rule write_all_stream [OF written]) (use assms(2,3) in \<open>simp_all add: clean_publish_def\<close>)
  moreover have "cli_data ?c = cli_data c" by simp
  ultimately show ?thesis by metis
qed simp

lemma publish_run_closed:
  "publish_run pb topic ps c = Some (Inr (c', wire)) \<Longrightarrow> set (sock_closed c) \<subseteq> set (sock_closed c')"
proof (induction ps arbitrary: c wire)
  case (Cons p ps)
  then obtain e1 c1 w1 w2 where
    pub: "Publisher_publish pb (pub_errno p) (pub_ans p) (pub_order p) topic (pub_msg p) (pub_cache p) c = Some (Inr (e1, c1, w1))"
    and "publish_run pb topic ps c1 = Some (Inr (c', w2))"
    by (auto simp: bind_result_Inr_iff split: option.splits sum.splits prod.splits)
  with Cons.IH publish_closed [OF pub] show ?case by blast
qed simp

text \<open>And a sequence of publications whole frames of some of the messages, in order.\<close>

lemma publish_run_stream:
  assumes "publish_run pb topic ps c = Some (Inr (c', wire))" and "clean_run pb topic ps c"
    and "x \<notin> set (sock_closed c')"
  shows "\<exists>accepted. subseq accepted (map pub_msg ps) \<and>
    sent_to x wire @ cli_data c' ! x = cli_data c ! x @ concat (map (serialize pb) accepted)"
  using assms
proof (induction ps arbitrary: c wire)
  case (Cons p ps)
  then obtain e1 c1 w1 w2 where
    pub: "Publisher_publish pb (pub_errno p) (pub_ans p) (pub_order p) topic (pub_msg p) (pub_cache p) c = Some (Inr (e1, c1, w1))"
    and run: "publish_run pb topic ps c1 = Some (Inr (c', w2))" and wire: "wire = w1 @ w2"
    by (auto simp: bind_result_Inr_iff split: option.splits sum.splits prod.splits)
  have clean: "clean_publish pb topic p c" "clean_run pb topic ps c1" using Cons.prems(2) pub by auto
  obtain accepted where acc: "subseq accepted (map pub_msg ps)"
    "sent_to x w2 @ cli_data c' ! x = cli_data c1 ! x @ concat (map (serialize pb) accepted)"
    using Cons.IH [OF run clean(2) Cons.prems(3)] by blast
  have "x \<notin> set (sock_closed c1)" using publish_run_closed [OF run] Cons.prems(3) by blast
  from publish_stream [OF pub clean(1) this] consider "sent_to x w1 @ cli_data c1 ! x = cli_data c ! x"
    | "sent_to x w1 @ cli_data c1 ! x = cli_data c ! x @ serialize pb (pub_msg p)" by auto
  then show ?case
  proof cases
    case 1
    have "sent_to x wire @ cli_data c' ! x = (sent_to x w1 @ cli_data c1 ! x) @ concat (map (serialize pb) accepted)"
      using acc(2) by (simp add: wire)
    with 1 acc(1) show ?thesis by (intro exI [of _ accepted]) (simp add: list_emb_Cons)
  next
    case 2
    have "sent_to x wire @ cli_data c' ! x = (sent_to x w1 @ cli_data c1 ! x) @ concat (map (serialize pb) accepted)"
      using acc(2) by (simp add: wire)
    with 2 acc(1) show ?thesis by (intro exI [of _ "pub_msg p # accepted"]) simp
  qed
qed (auto intro: exI [of _ "[]"])

text \<open>How much a publication can add to a buffer.\<close>

lemma write_all_bound:
  assumes "write_all e ans topic msg fds c = Some (Inr (e', c', wire))"
  shows "length (cli_data c' ! x) \<le> max (length (cli_data c ! x)) (MAX_WRITE_BUFFER_SIZE + length msg)"
  using assms
proof (induction fds arbitrary: e c wire)
  case (Cons fd fds)
  have buf: "length (cli_data c1 ! x) \<le> max (length (cli_data c ! x)) (MAX_WRITE_BUFFER_SIZE + length msg)"
    if "TCPClient_write_fd e (ans fd) topic fd (c\<lparr>cli_data := (cli_data c)[fd := cli_data c ! fd @ msg]\<rparr>) =
        Some (Inr (ok, e1, c1, sent))" "length (cli_data c ! fd) \<le> MAX_WRITE_BUFFER_SIZE" for ok e1 c1 sent
    using that(1)
  proof (cases rule: write_fd_cases)
    case (stopped left)
    with that(2) show ?thesis by (cases "x = fd") auto
  next
    case (failed left)
    then show ?thesis by (cases "x = fd") auto
  qed
  from Cons.prems show ?case
  proof (cases rule: write_all_Cons_cases)
    case skipped
    with Cons.IH show ?thesis by simp
  next
    case (served e1 c1 sent wire')
    from Cons.IH [OF served(4)] buf [OF served(3,2)] show ?thesis by simp
  next
    case (dropped sent)
    with buf [OF dropped(3,2)] show ?thesis by simp
  qed
qed simp

section \<open>Properties\<close>


text \<open>A client with two subscribers of \<^verbatim>\<open>chat\<close>.\<close>

definition demo_client :: TCPClient where
  "demo_client = (TCPClient_new 0)\<lparr>cli_topic_fd := (\<lambda>t. if t = ''chat'' then {5, 6} else {})\<rparr>"

definition demo_pub :: "bytes \<Rightarrow> errno \<Rightarrow> write_answer list \<Rightarrow> write_answer list \<Rightarrow> bytes publication" where
  "demo_pub m e a5 a6 = \<lparr>pub_msg = m, pub_cache = False, pub_order = [5, 6], pub_errno = e,
     pub_ans = (\<lambda>fd. if fd = 5 then a5 else a6)\<rparr>"

lemma demo_serialize:
  "serialize example_pb [7] = [2, 0, 0, 0, 1, 7]" "serialize example_pb [8] = [2, 0, 0, 0, 1, 8]"
  by (simp_all add: serialize_eq [OF protobuf_laws_example]) (simp_all add: example_pb_def example_write_def)

lemmas demo_publish = demo_pub_def demo_client_def TCPClient_new_def Publisher_publish_def
  TCPClient_write_to_socket_def TCPClient_write_fd_def TCPClient_close_and_delete_event_def
  MAX_WRITE_BUFFER_SIZE_def demo_serialize Let_def






text \<open>
  \<^verbatim>\<open>write_fd\<close> returns.  On a socket whose writes take at least one byte or fail, it returns for any
  backlog of any subscriber; it makes at most as many writes as there are bytes.
\<close>

lemma write_fd_returns:
  assumes "fd < length (cli_data c)" and "length (cli_data c ! fd) \<le> length ans"
    and "\<forall>k. Wrote k \<in> set ans \<longrightarrow> 0 < k"
  shows "\<exists>ok e' c' sent. TCPClient_write_fd e ans topic fd c = Some (Inr (ok, e', c', sent))"
proof -
  obtain r e' left sent where loop: "write_loop e ans (cli_data c ! fd) = Some (r, e', left, sent)"
    using write_loop_returns [OF assms(2,3), of e] by (metis prod.exhaust)
  with assms(1) show ?thesis by (cases r) (auto simp: TCPClient_write_fd_def Let_def)
qed

text \<open>
  A stale \<^verbatim>\<open>EAGAIN\<close> corrupts the stream.  The loop takes \<^verbatim>\<open>errno == EAGAIN\<close> after a partial write for
  a failed write, although a successful write does not set \<^verbatim>\<open>errno\<close>: the bytes that were written stay
  in the buffer.  The next write sends them again, so the subscriber gets the first \<open>k\<close> bytes of the
  backlog twice.
\<close>

lemma stale_errno_duplicates:
  assumes "fd < length (cli_data c)" and "0 < k" and "k < length (cli_data c ! fd)"
  shows "TCPClient_write_fd E_AGAIN (Wrote k # ans) topic fd c =
      Some (Inr (True, E_AGAIN, c, take k (cli_data c ! fd))) \<and>
    TCPClient_write_fd e [Wrote (length (cli_data c ! fd))] topic fd c =
      Some (Inr (True, e, c\<lparr>cli_data := (cli_data c)[fd := []]\<rparr>, cli_data c ! fd))"
proof
  obtain b bs where bs: "cli_data c ! fd = b # bs" using assms(3) by (cases "cli_data c ! fd") auto
  have "(cli_data c)[fd := b # bs] = cli_data c" by (metis bs list_update_id)
  with assms bs show "TCPClient_write_fd E_AGAIN (Wrote k # ans) topic fd c =
      Some (Inr (True, E_AGAIN, c, take k (cli_data c ! fd)))"
    by (simp add: TCPClient_write_fd_def)
  from assms bs show "TCPClient_write_fd e [Wrote (length (cli_data c ! fd))] topic fd c =
      Some (Inr (True, e, c\<lparr>cli_data := (cli_data c)[fd := []]\<rparr>, cli_data c ! fd))"
    by (simp add: TCPClient_write_fd_def)
qed

text \<open>
  One broken subscriber costs the others the message.  When the write to a subscriber fails, the
  loop over the subscribers returns: none of the subscribers after it in the order of iteration is
  sent the message, and it is not buffered for them either.
\<close>

lemma failing_subscriber_starves_rest:
  assumes "fd < length (cli_data c)" and "length (cli_data c ! fd) \<le> MAX_WRITE_BUFFER_SIZE"
    and "ans fd = Write_Fail E_OTHER # ws" and "msg \<noteq> []" and "x \<noteq> fd"
  shows "\<exists>c'. TCPClient_write_to_socket e ans (fd # fds) topic msg c = Some (Inr (E_OTHER, c', [(fd, [])])) \<and>
    cli_data c' ! x = cli_data c ! x"
proof -
  obtain b bs where "cli_data c ! fd @ msg = b # bs" using assms(4) by (cases "cli_data c ! fd @ msg") auto
  with assms show ?thesis
    by (auto simp: TCPClient_write_to_socket_def TCPClient_write_fd_def TCPClient_close_and_delete_event_def
        close_fd_def)
qed

text \<open>
  A late subscriber gets the cached messages.  When the connection thread reports success, the bytes that it has sent
  followed by the bytes that it has left in the buffer are exactly the cached messages of the topic, and
  the socket is among the subscribers, unless it has failed since.
\<close>

lemma connect_thread_stream:
  assumes "TCPClient_connect_thread a fd topic c = Some (Inr (True, c', sent))"
    and "clean_writes (ta_errno a) (ta_writes a) (concat (ta_cache a))" and "fd \<notin> set (sock_closed c')"
  shows "fd \<in> cli_topic_fd c' topic \<and> sent @ cli_data c' ! fd = concat (ta_cache a)"
proof -
  let ?data = "if length (cli_data c) \<le> fd then vec_resize (length (cli_data c) + 100) [] (cli_data c) else cli_data c"
  let ?c = "c\<lparr>cli_topic_fd := (cli_topic_fd c)(topic := insert fd (cli_topic_fd c topic)),
      cli_data := ?data[fd := concat (ta_cache a)]\<rparr>"
  from assms(1) obtain ok e where len: "fd < length ?data"
    and wr: "TCPClient_write_fd (ta_errno a) (ta_writes a) topic fd ?c = Some (Inr (ok, e, c', sent))"
    by (auto simp: TCPClient_connect_thread_def vec_set_def Let_def bind_result_Inr_iff split: if_splits)
  have buf: "cli_data ?c ! fd = concat (ta_cache a)" using len by simp
  from wr show ?thesis
  proof (cases rule: write_fd_cases)
    case (stopped left)
    then have "sent @ cli_data c' ! fd = cli_data ?c ! fd"
      using write_fd_stream [of "ta_errno a" "ta_writes a" topic fd ?c e c' sent] wr buf assms(2) by simp
    with buf stopped(4) show ?thesis by simp
  next
    case (failed left)
    then show ?thesis using assms(3) by simp
  qed
qed

text \<open>The cache of a topic holds the frames of the messages that were published on it with the flag, and no others.\<close>

lemma publish_run_cache:
  assumes "publish_run pb topic ps c = Some (Inr (c', wire))"
  shows "cli_static_topic_cache c' topic =
    cli_static_topic_cache c topic \<union> (\<lambda>p. serialize pb (pub_msg p)) ` {p \<in> set ps. pub_cache p}"
  using assms
proof (induction ps arbitrary: c wire)
  case (Cons p ps)
  have frame: "cli_static_topic_cache d' = cli_static_topic_cache d"
    if "write_all e ans topic msg fds d = Some (Inr (e', d', w))" for e ans msg fds d e' d' w
    using that
  proof (induction fds arbitrary: e d w)
    case (Cons fd fds)
    from Cons.prems show ?case
      by (cases rule: write_all_Cons_cases) (auto dest!: Cons.IH elim!: write_fd_cases)
  qed simp
  from Cons.prems obtain e1 c1 w1 w2 where
    pub: "Publisher_publish pb (pub_errno p) (pub_ans p) (pub_order p) topic (pub_msg p) (pub_cache p) c = Some (Inr (e1, c1, w1))"
    and run: "publish_run pb topic ps c1 = Some (Inr (c', w2))"
    by (auto simp: bind_result_Inr_iff split: option.splits sum.splits prod.splits)
  from pub have "cli_static_topic_cache c1 topic =
      cli_static_topic_cache c topic \<union> (if pub_cache p then {serialize pb (pub_msg p)} else {})"
    by (cases rule: publish_cases) (auto dest!: frame simp: TCPClient_write_to_cache_def split: if_splits)
  with Cons.IH [OF run] show ?case by auto
qed simp

text \<open>
  The future of a new connection is not always set.  When no socket can be created the returned
  future has no shared state, and when \<^verbatim>\<open>connect\<close> succeeds at once the promise dies with the function:
  in both cases \<^verbatim>\<open>connected.get()\<close> in the caller throws.  In every other case without a crash it is
  set, or left to the connection thread that is started.
\<close>

lemma add_client_future:
  assumes "TCPClient_add_client a topic c = Inr (info, c', started)"
  shows "future_get (ci_connected info) =
    (if Socket_create_socket (ca_sockfd a) (ca_getfl a) (ca_setfl a) < 0 then Some (Inl Future_No_State)
     else if ca_inet_pton a \<noteq> 0 \<and> ca_connect a = Connect_Ok then Some (Inl Broken_Promise)
     else if started \<noteq> None then None else Some (Inr False))"
  using assms
  by (auto simp: TCPClient_add_client_def empty_client_info_def Let_def bind_result_Inr_iff
      split: if_splits connect_answer.splits option.splits)

text \<open>
  A failing \<^verbatim>\<open>getsockname\<close> closes the socket twice, once in \<^verbatim>\<open>get_socket_info\<close> and once in its caller;
  the second \<^verbatim>\<open>close\<close> can hit a descriptor that another thread was given in between.
\<close>

lemma add_client_double_close:
  assumes "Socket_create_socket (ca_sockfd a) (ca_getfl a) (ca_setfl a) = int fd"
    and "ca_inet_pton a \<noteq> 0" and "ca_connect a = Connect_Fail E_INPROGRESS" and "ca_getsockname a = None"
  shows "\<exists>info c'. TCPClient_add_client a topic c = Inr (info, c', None) \<and> sock_closed c' = sock_closed c @ [fd, fd]"
  using assms
  by (auto simp: TCPClient_add_client_def TCPClient_get_socket_info_def TCPClient_close_and_delete_event_def Let_def)

end
