(* ===== verification/Transform_Tree.thy ===== *)
theory Transform_Tree
  imports Prelude "HOL-Library.Finite_Map"
begin

text \<open>
  \<^verbatim>\<open>cpp/src/TransformTree.cpp\<close>: the tree of coordinate frames.

  A node of the tree is a frame with its parent and a time series of transforms into the parent; a
  query walks from two frames up to their lowest common ancestor and combines the transforms on the
  way.  A pointer to a node is its frame id: \<^verbatim>\<open>nodes\<close> has one node per id, created with that id and never
  removed.  KDL is not part of the repository: its frames are the record \<open>kdl\<close> of operations, and
  \<open>kdl_laws\<close> says that they compose as rigid motions do.
\<close>

section \<open>Data\<close>

record 'd TransformD =
  td_frame_id :: string
  td_child_frame_id :: string
  td_seconds :: int
  td_nanos :: int
  td_transition :: "'d \<times> 'd \<times> 'd"
  td_rotation :: "'d \<times> 'd \<times> 'd \<times> 'd"

record ('d, 'k) kdl =
  kdl_Frame :: "'d \<times> 'd \<times> 'd \<Rightarrow> 'd \<times> 'd \<times> 'd \<times> 'd \<Rightarrow> 'k"
  kdl_Identity :: 'k
  kdl_mult :: "'k \<Rightarrow> 'k \<Rightarrow> 'k"
  kdl_Inverse :: "'k \<Rightarrow> 'k"
  kdl_p :: "'k \<Rightarrow> 'd \<times> 'd \<times> 'd"
  kdl_GetQuaternion :: "'k \<Rightarrow> 'd \<times> 'd \<times> 'd \<times> 'd"

definition kdl_laws :: "('d, 'k) kdl \<Rightarrow> bool" where
  "kdl_laws K \<longleftrightarrow>
     (\<forall>a b c. kdl_mult K (kdl_mult K a b) c = kdl_mult K a (kdl_mult K b c)) \<and>
     (\<forall>a. kdl_mult K (kdl_Identity K) a = a \<and> kdl_mult K a (kdl_Identity K) = a) \<and>
     (\<forall>a. kdl_mult K (kdl_Inverse K a) a = kdl_Identity K \<and> kdl_mult K a (kdl_Inverse K a) = kdl_Identity K)"

text \<open>\<^verbatim>\<open>google::protobuf::Timestamp\<close>.\<close>

datatype stamp = Stamp (seconds: int) (nanos: int)

abbreviation stamp_of :: "'d TransformD \<Rightarrow> stamp" where
  "stamp_of tf \<equiv> Stamp (td_seconds tf) (td_nanos tf)"

text \<open>
  \<^verbatim>\<open>TransformEntry::operator<\<close> compares time stamps.  It is a linear order on them, which is what the \<^verbatim>\<open>std::set\<close>
  of entries rests on; below it is written \<open><\<close>.
\<close>

definition stamp_less :: "stamp \<Rightarrow> stamp \<Rightarrow> bool" where
  "stamp_less a b \<longleftrightarrow> seconds a < seconds b \<or> seconds a = seconds b \<and> nanos a < nanos b"

instantiation stamp :: linorder
begin

definition less_stamp :: "stamp \<Rightarrow> stamp \<Rightarrow> bool" where
  "a < b \<longleftrightarrow> stamp_less a b"

definition less_eq_stamp :: "stamp \<Rightarrow> stamp \<Rightarrow> bool" where
  "a \<le> b \<longleftrightarrow> stamp_less a b \<or> a = (b :: stamp)"

instance
  by intro_classes (auto simp: less_stamp_def less_eq_stamp_def stamp_less_def intro: stamp.expand)

end

definition toKDL :: "('d, 'k) kdl \<Rightarrow> 'd TransformD \<Rightarrow> 'k" where
  "toKDL K tf = kdl_Frame K (td_transition tf) (td_rotation tf)"

record 'd TransformTreeNode =
  tn_frame_id :: string
  tn_memory_duration :: int
  tn_parent :: "string option"
  tn_is_static :: bool
  tn_series :: "'d TransformD list"    \<comment> \<open>the \<open>std::set\<close>, in its order\<close>

definition TransformTreeNode_new :: "string \<Rightarrow> 'd TransformTreeNode" where
  "TransformTreeNode_new i = \<lparr>tn_frame_id = i, tn_memory_duration = 1000, tn_parent = None,
     tn_is_static = False, tn_series = []\<rparr>"

section \<open>The time series of a node\<close>

text \<open>\<^verbatim>\<open>set::insert\<close>: an entry whose key is already present is not inserted.\<close>

fun series_insert :: "'d TransformD \<Rightarrow> 'd TransformD list \<Rightarrow> 'd TransformD list" where
  "series_insert tf [] = [tf]"
| "series_insert tf (t # ts) =
     (if stamp_of tf < stamp_of t then tf # t # ts
      else if stamp_of t < stamp_of tf then t # series_insert tf ts
      else t # ts)"

text \<open>
  The difference that the code calls milliseconds: seconds times 1000 plus nanoseconds divided by 1000,
  the latter truncated towards zero.
\<close>

definition time_diff_ms :: "stamp \<Rightarrow> stamp \<Rightarrow> int" where
  "time_diff_ms l r = (seconds r - seconds l) * 1000 + trunc_div (nanos r - nanos l) 1000"

definition TransformTreeNode_cleanup :: "stamp \<Rightarrow> 'd TransformTreeNode \<Rightarrow> 'd TransformTreeNode" where
  "TransformTreeNode_cleanup current_time n =
     (if tn_is_static n then n
      else n\<lparr>tn_series := filter (\<lambda>tf. \<not> time_diff_ms current_time (stamp_of tf) > tn_memory_duration n) (tn_series n)\<rparr>)"

definition TransformTreeNode_push :: "'d TransformD \<Rightarrow> 'd TransformTreeNode \<Rightarrow> 'd TransformTreeNode" where
  "TransformTreeNode_push tf n =
     (let n' = n\<lparr>tn_series := series_insert tf (tn_series n)\<rparr>
      in TransformTreeNode_cleanup (stamp_of (last (tn_series n'))) n')"

text \<open>\<^verbatim>\<open>lower_bound\<close>, or the last entry if there is none: \<open>least_entry\<close> on a non-empty series.\<close>

definition least_entry :: "stamp \<Rightarrow> 'd TransformD list \<Rightarrow> 'd TransformD" where
  "least_entry least ts =
     (case dropWhile (\<lambda>t. stamp_of t < least) ts of [] \<Rightarrow> last ts | t # _ \<Rightarrow> t)"

text \<open>\<^verbatim>\<open>TransformTreeNode::transform\<close>: \<open>None\<close> for the return value false.\<close>

definition TransformTreeNode_transform ::
    "('d, 'k) kdl \<Rightarrow> stamp \<Rightarrow> int \<Rightarrow> 'd TransformTreeNode \<Rightarrow> 'k option" where
  "TransformTreeNode_transform K least_stamp tolerance_ms n =
     (if tn_series n = [] then None
      else if tn_is_static n \<or> tolerance_ms < 0 then Some (toKDL K (last (tn_series n)))
      else let found = least_entry least_stamp (tn_series n) in
        if \<bar>time_diff_ms least_stamp (stamp_of found)\<bar> \<le> tolerance_ms then Some (toKDL K found) else None)"

section \<open>The tree\<close>

record 'd TransformTree =
  tt_nodes :: "(string, 'd TransformTreeNode) fmap"
  tt_shared_ancestor :: "string \<rightharpoonup> string"

definition TransformTree_new :: "'d TransformTree" where
  "TransformTree_new = \<lparr>tt_nodes = fmempty, tt_shared_ancestor = Map.empty\<rparr>"

definition add_missing :: "string \<Rightarrow> (string, 'd TransformTreeNode) fmap \<Rightarrow> (string, 'd TransformTreeNode) fmap" where
  "add_missing i ns = (if i |\<in>| fmdom ns then ns else fmupd i (TransformTreeNode_new i) ns)"

definition TransformTree_addTransformNode :: "'d TransformD \<Rightarrow> bool \<Rightarrow> 'd TransformTree \<Rightarrow> 'd TransformTree" where
  "TransformTree_addTransformNode tf is_static t =
     (let child = td_child_frame_id tf;
          frame = td_frame_id tf;
          ns = add_missing frame (add_missing child (tt_nodes t)) in
      case fmlookup ns child of
        None \<Rightarrow> t
      | Some n \<Rightarrow>
          let n1 = (if is_static then n\<lparr>tn_is_static := True\<rparr> else n);
              n2 = TransformTreeNode_push tf n1;
              n3 = (if tn_parent n2 = None then n2\<lparr>tn_parent := Some frame\<rparr> else n2)
          in t\<lparr>tt_nodes := fmupd child n3 ns\<rparr>)"

definition ancestor_token :: "string \<Rightarrow> string \<Rightarrow> string" where
  "ancestor_token from to = (if to < from then from @ '':'' @ to else to @ '':'' @ from)"

lemma fcard_unvisited:
  assumes "fmlookup ns i = Some n" and "i |\<notin>| visited"
  shows "fcard (fmdom ns |-| finsert i visited) < fcard (fmdom ns |-| visited)"
proof (rule pfsubset_fcard_mono)
  have "i |\<in>| fmdom ns |-| visited" using assms by (auto intro: fmdomI)
  then show "fmdom ns |-| finsert i visited |\<subset>| fmdom ns |-| visited" by blast
qed

text \<open>
  The first loop of \<^verbatim>\<open>find_shared_ancestor\<close>: the nodes from \<open>root\<close> upwards, or \<open>None\<close> for a closed loop.
\<close>

function ancestors ::
    "(string, 'd TransformTreeNode) fmap \<Rightarrow> string fset \<Rightarrow> string option \<Rightarrow> string fset option" where
  "ancestors ns visited root =
     (case root of
        None \<Rightarrow> Some visited
      | Some i \<Rightarrow>
          if i |\<in>| visited then None
          else (case fmlookup ns i of
              None \<Rightarrow> Some (finsert i visited)
            | Some n \<Rightarrow> ancestors ns (finsert i visited) (tn_parent n)))"
  by pat_completeness auto
termination
  by (relation "measure (\<lambda>(ns, visited, root). fcard (fmdom ns |-| visited))")
    (simp_all only: wf_measure in_measure split fcard_unvisited simp_thms)

declare ancestors.simps [simp del]

text \<open>
  The second loop: the first node from \<open>root\<close> upwards that is among \<open>from_traversed\<close>.  The loop ends at
  such a node, at a closed loop, or with the null pointer.
\<close>

datatype ancestor_search = Shared string | Closed_Loop | Reached_Null

function search_up ::
    "(string, 'd TransformTreeNode) fmap \<Rightarrow> string fset \<Rightarrow> string fset \<Rightarrow> string option \<Rightarrow> ancestor_search" where
  "search_up ns from_traversed visited root =
     (case root of
        None \<Rightarrow> Reached_Null
      | Some i \<Rightarrow>
          if i |\<in>| visited then Closed_Loop
          else if i |\<in>| from_traversed then Shared i
          else (case fmlookup ns i of
              None \<Rightarrow> Reached_Null
            | Some n \<Rightarrow> search_up ns from_traversed (finsert i visited) (tn_parent n)))"
  by pat_completeness auto
termination
  by (relation "measure (\<lambda>(ns, from_traversed, visited, root). fcard (fmdom ns |-| visited))")
    (simp_all only: wf_measure in_measure split fcard_unvisited simp_thms)

declare search_up.simps [simp del]

definition TransformTree_find_shared_ancestor ::
    "string \<Rightarrow> string \<Rightarrow> 'd TransformTree \<Rightarrow> (bool \<times> 'd TransformTree) result" where
  "TransformTree_find_shared_ancestor from to t =
     (if from |\<notin>| fmdom (tt_nodes t) \<or> to |\<notin>| fmdom (tt_nodes t) then Inr (False, t)
      else (case ancestors (tt_nodes t) {||} (Some from) of
          None \<Rightarrow> Inr (False, t)
        | Some from_traversed \<Rightarrow>
            (case search_up (tt_nodes t) from_traversed {||} (Some to) of
               Closed_Loop \<Rightarrow> Inr (False, t)
             | Reached_Null \<Rightarrow> Inl Null_Deref
             | Shared root \<Rightarrow>
                 Inr (True, t\<lparr>tt_shared_ancestor := (tt_shared_ancestor t)(ancestor_token from to \<mapsto> root)\<rparr>))))"

text \<open>
  The loops of \<^verbatim>\<open>get_transform\<close>, which do not look for closed loops: \<open>None\<close> when the loop does not end,
  \<open>Some None\<close> for the return value false.
\<close>

partial_function (option) climb ::
    "('d, 'k) kdl \<Rightarrow> (string, 'd TransformTreeNode) fmap \<Rightarrow> stamp \<Rightarrow> int \<Rightarrow> string option \<Rightarrow>
       string option \<Rightarrow> 'k \<Rightarrow> 'k option option" where
  "climb K ns least_stamp tolerance_ms root current frame =
     (if current = None \<or> current = root then Some (Some frame)
      else (case fmlookup ns (the current) of
          None \<Rightarrow> Some (Some frame)
        | Some n \<Rightarrow>
            (case TransformTreeNode_transform K least_stamp tolerance_ms n of
               None \<Rightarrow> Some None
             | Some current_transform \<Rightarrow>
                 climb K ns least_stamp tolerance_ms root (tn_parent n) (kdl_mult K current_transform frame))))"

declare climb.simps [code]

definition TransformTree_get_transform ::
    "('d, 'k) kdl \<Rightarrow> string \<Rightarrow> string \<Rightarrow> stamp \<Rightarrow> int \<Rightarrow> 'd TransformTree \<Rightarrow> 'k option option" where
  "TransformTree_get_transform K from to least_stamp tolerance_ms t =
     (let root = tt_shared_ancestor t (ancestor_token from to) in
      case climb K (tt_nodes t) least_stamp tolerance_ms root (Some from) (kdl_Identity K) of
        None \<Rightarrow> None
      | Some None \<Rightarrow> Some None
      | Some (Some frame) \<Rightarrow>
          climb K (tt_nodes t) least_stamp tolerance_ms root (Some to) (kdl_Inverse K frame))"

definition TransformTree_transform ::
    "('d, 'k) kdl \<Rightarrow> string \<Rightarrow> string \<Rightarrow> stamp \<Rightarrow> int \<Rightarrow> 'd TransformTree \<Rightarrow>
       ('k option \<times> 'd TransformTree) result option" where
  "TransformTree_transform K from to least_stamp tolerance_ms t =
     (if tt_shared_ancestor t (ancestor_token from to) \<noteq> None
      then map_option (\<lambda>r. Inr (r, t)) (TransformTree_get_transform K from to least_stamp tolerance_ms t)
      else (case TransformTree_find_shared_ancestor from to t of
          Inl err \<Rightarrow> Some (Inl err)
        | Inr (False, t') \<Rightarrow> Some (Inr (None, t'))
        | Inr (True, t') \<Rightarrow>
            map_option (\<lambda>r. Inr (r, t')) (TransformTree_get_transform K from to least_stamp tolerance_ms t')))"

text \<open>The listener: its callbacks and its query.\<close>

definition TransformListener_tf_call_back :: "'d TransformD \<Rightarrow> 'd TransformTree \<Rightarrow> 'd TransformTree" where
  "TransformListener_tf_call_back tf t = TransformTree_addTransformNode tf False t"

text \<open>
  A static transform is entered and published again, cached, for subscribers that come later; what a
  callback or a broadcaster publishes is a message and the argument \<^verbatim>\<open>cache\<close>.
\<close>

definition TransformListener_static_tf_call_back ::
    "'d TransformD \<Rightarrow> 'd TransformTree \<Rightarrow> 'd TransformTree \<times> ('d TransformD \<times> bool)" where
  "TransformListener_static_tf_call_back tf t = (TransformTree_addTransformNode tf True t, (tf, True))"

definition TransformBroadcaster_sendTransform :: "'d TransformD \<Rightarrow> 'd TransformD \<times> bool" where
  "TransformBroadcaster_sendTransform tf = (tf, False)"

definition StaticTransformBroadcaster_sendTransform :: "'d TransformD \<Rightarrow> 'd TransformD \<times> bool" where
  "StaticTransformBroadcaster_sendTransform tf = (tf, True)"

definition TransformListener_lookupTransform ::
    "('d, 'k) kdl \<Rightarrow> string \<Rightarrow> string \<Rightarrow> 'd TransformD \<Rightarrow> int \<Rightarrow> 'd TransformTree \<Rightarrow>
       (bool \<times> 'd TransformD \<times> 'd TransformTree) result option" where
  "TransformListener_lookupTransform K from_tf to_tf tf timeout_ms t =
     map_option (\<lambda>r. bind_result r (\<lambda>(ret, t').
         Inr (case ret of
           None \<Rightarrow> (False, tf, t')
         | Some frame \<Rightarrow>
             (True, tf\<lparr>td_frame_id := from_tf, td_child_frame_id := to_tf, td_transition := kdl_p K frame,
                       td_rotation := kdl_GetQuaternion K frame\<rparr>, t'))))
       (TransformTree_transform K from_tf to_tf (stamp_of tf) timeout_ms t)"

section \<open>Paths\<close>

text \<open>\<open>is_path ns x xs r\<close>: \<open>xs\<close> are the nodes from \<open>x\<close> upwards to \<open>r\<close>, without \<open>r\<close>.\<close>

fun is_path :: "(string, 'd TransformTreeNode) fmap \<Rightarrow> string \<Rightarrow> string list \<Rightarrow> string \<Rightarrow> bool" where
  "is_path ns x [] r \<longleftrightarrow> x = r"
| "is_path ns x (i # is) r \<longleftrightarrow> i = x \<and> x \<noteq> r \<and>
     (case fmlookup ns x of
        None \<Rightarrow> False
      | Some n \<Rightarrow> (case tn_parent n of None \<Rightarrow> False | Some p \<Rightarrow> is_path ns p is r))"

text \<open>The transforms along a path, applied to \<open>frame\<close> in turn; \<open>None\<close> if a node has none that fits.\<close>

fun apply_path ::
    "('d, 'k) kdl \<Rightarrow> (string, 'd TransformTreeNode) fmap \<Rightarrow> stamp \<Rightarrow> int \<Rightarrow> string list \<Rightarrow> 'k \<Rightarrow> 'k option" where
  "apply_path K ns st tol [] frame = Some frame"
| "apply_path K ns st tol (i # is) frame =
     (case Option.bind (fmlookup ns i) (TransformTreeNode_transform K st tol) of
        None \<Rightarrow> None | Some T \<Rightarrow> apply_path K ns st tol is (kdl_mult K T frame))"

definition pose ::
    "('d, 'k) kdl \<Rightarrow> (string, 'd TransformTreeNode) fmap \<Rightarrow> stamp \<Rightarrow> int \<Rightarrow> string list \<Rightarrow> 'k option" where
  "pose K ns st tol xs = apply_path K ns st tol xs (kdl_Identity K)"

lemma climb_path:
  assumes "is_path ns x xs r"
  shows "climb K ns st tol (Some r) (Some x) frame = Some (apply_path K ns st tol xs frame)"
  using assms
proof (induction xs arbitrary: x frame)
  case Nil
  then show ?case by (subst climb.simps) simp
next
  case (Cons i "is")
  then show ?case
    by (subst climb.simps) (auto split: option.splits)
qed

lemma apply_path_pose:
  assumes "kdl_laws K"
  shows "apply_path K ns st tol xs frame = map_option (\<lambda>P. kdl_mult K P frame) (pose K ns st tol xs)"
proof -
  have assoc: "kdl_mult K a (kdl_mult K b c) = kdl_mult K (kdl_mult K a b) c" for a b c
    using assms by (simp add: kdl_laws_def)
  have "apply_path K ns st tol xs (kdl_mult K f frame) =
      map_option (\<lambda>P. kdl_mult K P frame) (apply_path K ns st tol xs f)" for f
    by (induction xs arbitrary: f) (auto simp: assoc split: option.splits)
  from this [of "kdl_Identity K"] assms show ?thesis by (simp add: pose_def kdl_laws_def)
qed

lemma ancestors_mono: "ancestors ns v root = Some A \<Longrightarrow> v |\<subseteq>| A"
proof (induction ns v root rule: ancestors.induct)
  case (1 ns v root)
  from "1.prems" show ?case
    by (subst (asm) ancestors.simps) (auto split: option.splits if_splits dest: "1.IH")
qed

lemma ancestors_self: "ancestors ns v (Some x) = Some A \<Longrightarrow> x |\<in>| A"
  by (subst (asm) ancestors.simps) (auto split: option.splits if_splits dest: ancestors_mono)

lemma ancestors_sound:
  "ancestors ns v root = Some A \<Longrightarrow> r |\<in>| A \<Longrightarrow> r |\<notin>| v \<Longrightarrow> \<exists>x xs. root = Some x \<and> is_path ns x xs r"
proof (induction ns v root rule: ancestors.induct)
  case (1 ns v root)
  show ?case
  proof (cases root)
    case None
    with "1.prems" show ?thesis by (simp add: ancestors.simps)
  next
    case (Some i)
    with "1.prems"(1) have i: "i |\<notin>| v" by (subst (asm) ancestors.simps) (auto split: if_splits)
    show ?thesis
    proof (cases "r = i")
      case True
      with Some show ?thesis by (intro exI [of _ i] exI [of _ "[]"]) simp
    next
      case False
      with "1.prems" Some i obtain n where n: "fmlookup ns i = Some n"
        and rec: "ancestors ns (finsert i v) (tn_parent n) = Some A"
        by (subst (asm) ancestors.simps) (auto split: option.splits)
      obtain p xs where "tn_parent n = Some p" "is_path ns p xs r"
        using "1.IH" [OF Some i n rec "1.prems"(2)] "1.prems"(3) False by auto
      with n Some False show ?thesis by (intro exI [of _ i] exI [of _ "i # xs"]) simp
    qed
  qed
qed

lemma ancestors_complete:
  "is_path ns x xs r \<Longrightarrow> ancestors ns v (Some x) = Some A \<Longrightarrow> r |\<in>| A"
proof (induction xs arbitrary: x v)
  case Nil
  then show ?case by (auto dest: ancestors_self)
next
  case (Cons i "is")
  then show ?case
    by (subst (asm) ancestors.simps) (auto split: option.splits if_splits)
qed

lemma search_up_Shared:
  "search_up ns F v root = Shared r \<Longrightarrow>
     r |\<in>| F \<and> (\<exists>y ys. root = Some y \<and> is_path ns y ys r \<and> (\<forall>i\<in>set ys. i |\<notin>| F))"
proof (induction ns F v root rule: search_up.induct)
  case (1 ns F v root)
  from "1.prems" obtain i where i: "root = Some i" "i |\<notin>| v"
    by (subst (asm) search_up.simps) (auto split: option.splits if_splits)
  show ?case
  proof (cases "i |\<in>| F")
    case True
    with "1.prems" i have "r = i" by (subst (asm) search_up.simps) simp
    with True i show ?thesis by (intro conjI exI [of _ i] exI [of _ "[]"]) auto
  next
    case False
    with "1.prems" i obtain n where n: "fmlookup ns i = Some n"
      and rec: "search_up ns F (finsert i v) (tn_parent n) = Shared r"
      by (subst (asm) search_up.simps) (auto split: option.splits)
    from "1.IH" [OF i False n rec] obtain p ys where "r |\<in>| F" "tn_parent n = Some p" "is_path ns p ys r"
      "\<forall>i\<in>set ys. i |\<notin>| F" by blast
    with n i False show ?thesis by (intro conjI exI [of _ i] exI [of _ "i # ys"]) auto
  qed
qed

lemma search_up_Null:
  "search_up ns F v root = Reached_Null \<Longrightarrow> root = Some y \<Longrightarrow> is_path ns y ys r \<Longrightarrow> r |\<notin>| F"
proof (induction ns F v root arbitrary: y ys rule: search_up.induct)
  case (1 ns F v root)
  note root = "1.prems"(2)
  from "1.prems"(1) root have y: "y |\<notin>| v" "y |\<notin>| F"
    by (subst (asm) search_up.simps, auto split: if_splits)+
  show ?case
  proof (cases ys)
    case Nil
    with "1.prems"(3) y show ?thesis by simp
  next
    case (Cons i "is")
    with "1.prems"(3) obtain n p where n: "fmlookup ns y = Some n" "tn_parent n = Some p" "is_path ns p is r"
      by (auto split: option.splits)
    with "1.prems"(1) root y have "search_up ns F (finsert y v) (tn_parent n) = Reached_Null"
      by (subst (asm) search_up.simps) simp
    from "1.IH" [OF root y n(1) this n(2,3)] show ?thesis .
  qed
qed

section \<open>Growth of the tree and the cache of ancestors\<close>

text \<open>A node keeps its parent for good.\<close>

definition extends :: "(string, 'd TransformTreeNode) fmap \<Rightarrow> (string, 'd TransformTreeNode) fmap \<Rightarrow> bool" where
  "extends ns ns' \<longleftrightarrow> (\<forall>i n p. fmlookup ns i = Some n \<longrightarrow> tn_parent n = Some p \<longrightarrow>
     (\<exists>n'. fmlookup ns' i = Some n' \<and> tn_parent n' = Some p))"

lemma is_path_extends: "is_path ns x xs r \<Longrightarrow> extends ns ns' \<Longrightarrow> is_path ns' x xs r"
proof (induction xs arbitrary: x)
  case (Cons i "is")
  then obtain n p where "fmlookup ns x = Some n" "tn_parent n = Some p" "is_path ns p is r" "i = x" "x \<noteq> r"
    by (auto split: option.splits)
  moreover from this Cons.prems(2) obtain n' where "fmlookup ns' x = Some n'" "tn_parent n' = Some p"
    unfolding extends_def by blast
  ultimately show ?case using Cons.IH Cons.prems(2) by simp
qed simp

lemma push_parent [simp]: "tn_parent (TransformTreeNode_push tf n) = tn_parent n"
  by (simp add: TransformTreeNode_push_def TransformTreeNode_cleanup_def Let_def)

lemma add_missing_lookup:
  "fmlookup ns i = Some n \<Longrightarrow> fmlookup (add_missing j ns) i = Some n"
  "\<exists>n. fmlookup (add_missing j ns) j = Some n"
  by (auto simp: add_missing_def fmdom_notD dest: fmdom_notI fmdomI split: if_splits)

lemma extends_add: "extends (tt_nodes t) (tt_nodes (TransformTree_addTransformNode tf st t))"
  unfolding extends_def
proof (intro allI impI)
  fix i n p
  assume i: "fmlookup (tt_nodes t) i = Some n" "tn_parent n = Some p"
  let ?ns = "add_missing (td_frame_id tf) (add_missing (td_child_frame_id tf) (tt_nodes t))"
  have old: "fmlookup ?ns i = Some n" by (intro add_missing_lookup(1) i)
  obtain c where c: "fmlookup ?ns (td_child_frame_id tf) = Some c"
    by (metis add_missing_lookup)
  with old i(2) show "\<exists>n'. fmlookup (tt_nodes (TransformTree_addTransformNode tf st t)) i = Some n' \<and> tn_parent n' = Some p"
    by (cases "i = td_child_frame_id tf") (auto simp: TransformTree_addTransformNode_def Let_def)
qed

text \<open>
  The paths of two frames to a common ancestor, on which they meet for the first time.
\<close>

definition meet ::
    "(string, 'd TransformTreeNode) fmap \<Rightarrow> string \<Rightarrow> string \<Rightarrow> string \<Rightarrow> string list \<Rightarrow> string list \<Rightarrow> bool" where
  "meet ns x y r xs ys \<longleftrightarrow> is_path ns x xs r \<and> is_path ns y ys r \<and> set xs \<inter> set ys = {}"

lemma meet_extends: "meet ns x y r xs ys \<Longrightarrow> extends ns ns' \<Longrightarrow> meet ns' x y r xs ys"
  by (auto simp: meet_def intro: is_path_extends)

lemma meet_sym: "meet ns x y r xs ys \<Longrightarrow> meet ns y x r ys xs"
  by (auto simp: meet_def)

text \<open>Frame ids without a colon, the separator of the cache's keys.\<close>

abbreviation colon_free :: "string \<Rightarrow> bool" where
  "colon_free s \<equiv> CHR '':'' \<notin> set s"

lemma ancestor_token_inject:
  assumes "colon_free a" "colon_free b" "colon_free c" "colon_free d"
    and "ancestor_token a b = ancestor_token c d"
  shows "a = c \<and> b = d \<or> a = d \<and> b = c"
proof -
  have tok: "\<exists>p q. ancestor_token x y = p @ CHR '':'' # q \<and> colon_free q \<and> (p = x \<and> q = y \<or> p = y \<and> q = x)"
    if "colon_free x" "colon_free y" for x y
    using that by (auto simp: ancestor_token_def)
  obtain p q where pq: "ancestor_token a b = p @ CHR '':'' # q" "colon_free q" "p = a \<and> q = b \<or> p = b \<and> q = a"
    using tok [OF assms(1,2)] by blast
  obtain u v where uv: "ancestor_token c d = u @ CHR '':'' # v" "colon_free v" "u = c \<and> v = d \<or> u = d \<and> v = c"
    using tok [OF assms(3,4)] by blast
  have "p = u \<and> q = v" by (rule colon_split_unique [of p "CHR '':''" q u v]) (use assms(5) pq uv in simp_all)
  with pq(3) uv(3) show ?thesis by blast
qed

definition cache_ok :: "'d TransformTree \<Rightarrow> bool" where
  "cache_ok t \<longleftrightarrow> (\<forall>tok r. tt_shared_ancestor t tok = Some r \<longrightarrow>
     (\<exists>x y xs ys. tok = ancestor_token x y \<and> colon_free x \<and> colon_free y \<and> meet (tt_nodes t) x y r xs ys))"

lemma cache_ok_meet:
  assumes "cache_ok t" and "tt_shared_ancestor t (ancestor_token x y) = Some r" and "colon_free x" "colon_free y"
  obtains xs ys where "meet (tt_nodes t) x y r xs ys"
proof -
  from assms(1,2) obtain x' y' xs ys where "ancestor_token x y = ancestor_token x' y'" "colon_free x'" "colon_free y'"
    "meet (tt_nodes t) x' y' r xs ys"
    unfolding cache_ok_def by blast
  with ancestor_token_inject [OF assms(3,4)] that meet_sym show ?thesis by metis
qed

lemma find_shared_ancestor_cases:
  assumes "TransformTree_find_shared_ancestor x y t = Inr (b, t')"
  obtains (no) "\<not> b" "t' = t"
    | (yes) r xs ys where "b" "meet (tt_nodes t) x y r xs ys"
      "t' = t\<lparr>tt_shared_ancestor := (tt_shared_ancestor t)(ancestor_token x y \<mapsto> r)\<rparr>"
proof (cases b)
  case False
  with assms that(1) show ?thesis
    by (auto simp: TransformTree_find_shared_ancestor_def split: if_splits option.splits ancestor_search.splits)
next
  case True
  with assms obtain F r where F: "ancestors (tt_nodes t) {||} (Some x) = Some F"
    and r: "search_up (tt_nodes t) F {||} (Some y) = Shared r"
    and t': "t' = t\<lparr>tt_shared_ancestor := (tt_shared_ancestor t)(ancestor_token x y \<mapsto> r)\<rparr>"
    by (auto simp: TransformTree_find_shared_ancestor_def split: if_splits option.splits ancestor_search.splits)
  from search_up_Shared [OF r] obtain ys where ys: "r |\<in>| F" "is_path (tt_nodes t) y ys r" "\<forall>i\<in>set ys. i |\<notin>| F"
    by blast
  from ancestors_sound [OF F ys(1)] obtain xs where xs: "is_path (tt_nodes t) x xs r" by auto
  have "set xs \<subseteq> fset F"
  proof
    fix i assume "i \<in> set xs"
    moreover have "\<exists>zs. is_path ns x zs i" if "is_path ns x xs r" "i \<in> set xs" for ns :: "(string, 'a TransformTreeNode) fmap" and x xs
      using that
    proof (induction xs arbitrary: x)
      case (Cons j js)
      show ?case
      proof (cases "i = x")
        case True
        then show ?thesis by (intro exI [of _ "[]"]) simp
      next
        case False
        with Cons.prems obtain n p where "fmlookup ns x = Some n" "tn_parent n = Some p" "is_path ns p js r" "i \<in> set js"
          by (auto split: option.splits)
        with Cons.IH obtain zs where "is_path ns p zs i" by blast
        with \<open>fmlookup ns x = Some n\<close> \<open>tn_parent n = Some p\<close> False show ?thesis
          by (intro exI [of _ "x # zs"]) simp
      qed
    qed simp
    ultimately show "i \<in> fset F" using xs ancestors_complete [OF _ F] by metis
  qed
  with ys xs have "meet (tt_nodes t) x y r xs ys" by (auto simp: meet_def)
  with True t' that(2) show ?thesis by blast
qed

section \<open>Runs\<close>

text \<open>The callbacks add transforms; the application asks for transforms between colon-free frames.\<close>

inductive tf_step :: "('d, 'k) kdl \<Rightarrow> 'd TransformTree \<Rightarrow> 'd TransformTree \<Rightarrow> bool" for K :: "('d, 'k) kdl" where
  add: "tf_step K t (TransformTree_addTransformNode tf st t)"
| query: "colon_free x \<Longrightarrow> colon_free y \<Longrightarrow>
    TransformTree_transform K x y stamp tol t = Some (Inr (r, t')) \<Longrightarrow> tf_step K t t'"

lemma cache_ok_add:
  assumes "cache_ok t"
  shows "cache_ok (TransformTree_addTransformNode tf st t)"
proof -
  have "tt_shared_ancestor (TransformTree_addTransformNode tf st t) = tt_shared_ancestor t"
    by (simp add: TransformTree_addTransformNode_def Let_def split: option.splits)
  with assms extends_add [of t tf st] show ?thesis
    unfolding cache_ok_def by (metis meet_extends)
qed

lemma cache_ok_find:
  assumes "cache_ok t" and "colon_free x" "colon_free y" and "TransformTree_find_shared_ancestor x y t = Inr (b, t')"
  shows "cache_ok t'"
  using assms(4)
proof (cases rule: find_shared_ancestor_cases)
  case no
  with assms(1) show ?thesis by simp
next
  case (yes r xs ys)
  with assms(1-3) show ?thesis unfolding cache_ok_def by (auto split: if_splits)
qed

lemma cache_ok_step:
  assumes "cache_ok t" and "tf_step K t t'"
  shows "cache_ok t'"
  using assms(2)
proof cases
  case (add tf st)
  with assms(1) show ?thesis by (simp add: cache_ok_add)
next
  case (query x y stamp tol r)
  then show ?thesis
    using assms(1) cache_ok_find [OF assms(1) query(1,2)]
    by (auto simp: TransformTree_transform_def split: if_splits sum.splits prod.splits bool.splits option.splits)
qed

lemma cache_ok_new: "cache_ok TransformTree_new"
  by (simp add: cache_ok_def TransformTree_new_def)

interpretation tf: invariant_system "\<lambda>t. t = TransformTree_new" "tf_step K" cache_ok for K
  by unfold_locales (auto intro: cache_ok_step cache_ok_new)

section \<open>Paths are unique and do not repeat nodes\<close>

lemma is_path_unique: "is_path ns x xs r \<Longrightarrow> is_path ns x ys r \<Longrightarrow> xs = ys"
proof (induction xs arbitrary: x ys)
  case Nil
  then show ?case by (cases ys) auto
next
  case (Cons i "is")
  then obtain j js where ys: "ys = j # js" by (cases ys) auto
  with Cons show ?case by (auto split: option.splits)
qed

lemma is_path_suffix: "is_path ns x (as @ i # bs) r \<Longrightarrow> is_path ns i (i # bs) r"
proof (induction as arbitrary: x)
  case Nil
  then have "i = x" by simp
  with Nil show ?case by simp
next
  case (Cons a as)
  then obtain p where "is_path ns p (as @ i # bs) r" by (auto split: option.splits)
  then show ?case by (rule Cons.IH)
qed

lemma is_path_trans: "is_path ns x xs r \<Longrightarrow> is_path ns r ys s \<Longrightarrow> \<exists>zs. is_path ns x zs s"
proof (induction xs arbitrary: x)
  case (Cons i "is")
  then obtain n p where n: "fmlookup ns x = Some n" "tn_parent n = Some p" "is_path ns p is r"
    by (auto split: option.splits)
  with Cons obtain zs where "is_path ns p zs s" by blast
  with n show ?case
    by (cases "x = s") (auto intro: exI [of _ "[]"] exI [of _ "x # zs"])
qed auto

lemma is_path_distinct: "is_path ns x xs r \<Longrightarrow> distinct xs \<and> r \<notin> set xs"
proof (induction xs arbitrary: x)
  case (Cons i "is")
  then obtain p where p: "is_path ns p is r" "i = x" "x \<noteq> r" by (auto split: option.splits)
  have "i \<notin> set is"
  proof
    assume "i \<in> set is"
    then obtain as bs where "is = as @ i # bs" by (auto simp: in_set_conv_decomp)
    with p(1) have "is_path ns i (i # bs) r" by (simp only: is_path_suffix)
    with Cons.prems p(2) have "i # bs = i # is" using is_path_unique by metis
    with \<open>is = _\<close> show False by simp
  qed
  with Cons.IH [OF p(1)] p(2,3) show ?case by auto
qed simp

text \<open>A node above which there is no closed loop is not above itself.\<close>

lemma ancestors_unvisited: "ancestors ns v (Some x) = Some A \<Longrightarrow> is_path ns x xs r \<Longrightarrow> r |\<notin>| v"
proof (induction xs arbitrary: x v)
  case Nil
  then show ?case by (subst (asm) ancestors.simps) (auto split: if_splits)
next
  case (Cons i "is")
  then obtain n p where n: "fmlookup ns x = Some n" "tn_parent n = Some p" "is_path ns p is r"
    by (auto split: option.splits)
  with Cons.prems(1) have "ancestors ns (finsert x v) (Some p) = Some A"
    by (subst (asm) ancestors.simps) (auto split: if_splits)
  with Cons.IH n(3) show ?case by blast
qed

lemma no_loop_antisym:
  assumes "ancestors ns {||} (Some x) = Some A" and "is_path ns x xs r" and "is_path ns r ys x"
  shows "r = x"
proof (rule ccontr)
  assume "r \<noteq> x"
  with assms(2) obtain n p zs where n: "fmlookup ns x = Some n" "tn_parent n = Some p" "is_path ns p zs r"
    by (cases xs) (auto split: option.splits)
  with assms(1) have "ancestors ns {|x|} (Some p) = Some A"
    by (subst (asm) ancestors.simps) simp
  moreover obtain us where "is_path ns p us x" using is_path_trans [OF n(3) assms(3)] by blast
  ultimately have "x |\<notin>| {|x|}" by (rule ancestors_unvisited)
  then show False by simp
qed

lemma search_up_finds:
  "is_path ns y ys s \<Longrightarrow> s |\<in>| F \<Longrightarrow> \<forall>i\<in>insert s (set ys). i |\<notin>| v \<Longrightarrow>
     \<exists>r\<in>insert s (set ys). search_up ns F v (Some y) = Shared r"
proof (induction ys arbitrary: y v)
  case Nil
  then show ?case by (subst search_up.simps) auto
next
  case (Cons i "is")
  then obtain n p where n: "fmlookup ns y = Some n" "tn_parent n = Some p" "is_path ns p is s" "i = y" "y \<noteq> s"
    by (auto split: option.splits)
  have "i \<notin> set is" using is_path_distinct [OF Cons.prems(1)] by simp
  then have "\<exists>r\<in>insert s (set is). search_up ns F (finsert y v) (Some p) = Shared r"
    by (intro Cons.IH [OF n(3) Cons.prems(2)]) (use Cons.prems(3) n(4,5) in auto)
  with n Cons.prems(3) show ?case by (subst search_up.simps) auto
qed

lemma search_up_no_loop:
  "ancestors ns v root \<noteq> None \<Longrightarrow> search_up ns F v root \<noteq> Closed_Loop"
proof (induction ns F v root rule: search_up.induct)
  case (1 ns F v root)
  show ?case
  proof (cases root)
    case None
    then show ?thesis by (subst search_up.simps) simp
  next
    case (Some i)
    with "1.prems" have i: "i |\<notin>| v" by (subst (asm) ancestors.simps) (auto split: if_splits)
    with "1.prems" Some have "ancestors ns (finsert i v) (tn_parent n) \<noteq> None" if "fmlookup ns i = Some n" for n
      using that by (subst (asm) ancestors.simps) simp
    with "1.IH" [OF Some i] i Some show ?thesis
      by (subst search_up.simps) (auto split: option.splits)
  qed
qed

text \<open>What a query returns once the common ancestor is known.\<close>

lemma get_transform_meet:
  assumes "kdl_laws K" and "tt_shared_ancestor t (ancestor_token x y) = Some r" and "meet (tt_nodes t) x y r xs ys"
  shows "TransformTree_get_transform K x y st tol t =
    Some (case (pose K (tt_nodes t) st tol xs, pose K (tt_nodes t) st tol ys) of
        (Some A, Some B) \<Rightarrow> Some (kdl_mult K B (kdl_Inverse K A)) | _ \<Rightarrow> None)"
proof -
  have "climb K (tt_nodes t) st tol (Some r) (Some x) (kdl_Identity K) = Some (pose K (tt_nodes t) st tol xs)"
    using assms(3) by (simp add: meet_def climb_path pose_def)
  moreover have "climb K (tt_nodes t) st tol (Some r) (Some y) f =
       Some (map_option (\<lambda>P. kdl_mult K P f) (pose K (tt_nodes t) st tol ys))" for f
    using assms(3) climb_path [of "tt_nodes t" y ys r K st tol f]
    by (simp add: meet_def apply_path_pose [OF assms(1)])
  ultimately show ?thesis using assms(2)
    by (auto simp: TransformTree_get_transform_def split: option.splits)
qed

lemma meet_result:
  assumes "meet ns x y r xs ys"
    and "(case (pose K ns st tol xs, pose K ns st tol ys) of
        (Some A, Some B) \<Rightarrow> Some (kdl_mult K B (kdl_Inverse K A)) | _ \<Rightarrow> None) = Some frame"
  shows "\<exists>r xs ys A B. meet ns x y r xs ys \<and> pose K ns st tol xs = Some A \<and> pose K ns st tol ys = Some B \<and>
    frame = kdl_mult K B (kdl_Inverse K A)"
proof -
  from assms(2) obtain A B where "pose K ns st tol xs = Some A" "pose K ns st tol ys = Some B"
    "frame = kdl_mult K B (kdl_Inverse K A)"
    by (auto split: option.splits)
  with assms(1) show ?thesis by blast
qed

section \<open>The time series\<close>

abbreviation series_sorted :: "'d TransformD list \<Rightarrow> bool" where
  "series_sorted ts \<equiv> sorted_wrt (\<lambda>a b. stamp_of a < stamp_of b) ts"

lemma set_series_insert: "set (series_insert tf ts) \<subseteq> insert tf (set ts)"
  by (induction ts) auto

lemma sorted_series_insert: "series_sorted ts \<Longrightarrow> series_sorted (series_insert tf ts)"
proof (induction ts)
  case (Cons t ts)
  then show ?case
    using set_series_insert [of tf ts] by (auto intro: less_trans)
qed simp

lemma series_insert_not_Nil [simp]: "series_insert tf ts \<noteq> []"
  by (cases ts) auto

lemma last_series_insert:
  "series_sorted ts \<Longrightarrow> last (series_insert tf ts) =
     (if ts = [] \<or> stamp_of (last ts) < stamp_of tf then tf else last ts)"
proof (induction ts)
  case (Cons t ts)
  have "ts \<noteq> [] \<Longrightarrow> stamp_of t < stamp_of (last ts)" using Cons.prems by simp
  then have up: "stamp_of t \<le> stamp_of (last (t # ts))" by auto
  show ?case
  proof (cases "stamp_of t < stamp_of tf")
    case True
    with Cons show ?thesis by auto
  next
    case False
    with up have "\<not> stamp_of (last (t # ts)) < stamp_of tf" by (meson le_less_trans)
    with False show ?thesis by simp
  qed
qed simp

lemma last_filter: "xs \<noteq> [] \<Longrightarrow> P (last xs) \<Longrightarrow> filter P xs \<noteq> [] \<and> last (filter P xs) = last xs"
  by (induction xs rule: rev_induct) auto

lemma time_diff_self [simp]: "time_diff_ms s s = 0"
  by (simp add: time_diff_ms_def trunc_div_def)

text \<open>The clean-up never removes the latest entry, the one that sets the current time.\<close>

lemma push_series:
  assumes "series_sorted (tn_series n)" and "0 \<le> tn_memory_duration n"
  shows "series_sorted (tn_series (TransformTreeNode_push tf n))"
    and "tn_series (TransformTreeNode_push tf n) \<noteq> []"
    and "last (tn_series (TransformTreeNode_push tf n)) =
      (if tn_series n = [] \<or> stamp_of (last (tn_series n)) < stamp_of tf then tf else last (tn_series n))"
    and "tn_memory_duration (TransformTreeNode_push tf n) = tn_memory_duration n"
proof -
  let ?ts = "series_insert tf (tn_series n)"
  let ?P = "\<lambda>t. \<not> time_diff_ms (stamp_of (last ?ts)) (stamp_of t) > tn_memory_duration n"
  have sorted: "series_sorted ?ts" using assms(1) by (rule sorted_series_insert)
  have keep: "filter ?P ?ts \<noteq> [] \<and> last (filter ?P ?ts) = last ?ts"
    using assms(2) by (intro last_filter) auto
  note push = TransformTreeNode_push_def TransformTreeNode_cleanup_def Let_def
  show "series_sorted (tn_series (TransformTreeNode_push tf n))"
    using sorted by (simp add: push sorted_wrt_filter)
  show "tn_series (TransformTreeNode_push tf n) \<noteq> []" using keep by (simp add: push)
  show "last (tn_series (TransformTreeNode_push tf n)) =
      (if tn_series n = [] \<or> stamp_of (last (tn_series n)) < stamp_of tf then tf else last (tn_series n))"
  proof -
    have "last (tn_series (TransformTreeNode_push tf n)) = last ?ts" using keep by (simp add: push)
    with last_series_insert [OF assms(1)] show ?thesis by simp
  qed
  show "tn_memory_duration (TransformTreeNode_push tf n) = tn_memory_duration n" by (simp add: push)
qed

text \<open>The newest of some transforms: the one with the greatest stamp, the first one among equals.\<close>

fun newest :: "'d TransformD \<Rightarrow> 'd TransformD list \<Rightarrow> 'd TransformD" where
  "newest b [] = b"
| "newest b (t # ts) = newest (if stamp_of b < stamp_of t then t else b) ts"

lemma fold_push_last:
  assumes "series_sorted (tn_series n)" and "0 \<le> tn_memory_duration n" and "tn_series n \<noteq> []"
  shows "tn_series (fold TransformTreeNode_push tfs n) \<noteq> [] \<and>
    last (tn_series (fold TransformTreeNode_push tfs n)) = newest (last (tn_series n)) tfs"
  using assms
proof (induction tfs arbitrary: n)
  case (Cons tf tfs)
  note p = push_series [OF Cons.prems(1,2), of tf]
  have "0 \<le> tn_memory_duration (TransformTreeNode_push tf n)" using p(4) Cons.prems(2) by simp
  from Cons.IH [OF p(1) this p(2)] p(3) Cons.prems(3) show ?case by simp
qed simp

text \<open>
  What \<^verbatim>\<open>lower_bound\<close> promises: the earliest entry that is not before the requested time, and when there is none the
  entry in front of the end.
\<close>

definition entry_for :: "stamp \<Rightarrow> 'd TransformD set \<Rightarrow> 'd TransformD \<Rightarrow> bool" where
  "entry_for st E e \<longleftrightarrow> e \<in> E \<and>
     (if \<exists>t\<in>E. st \<le> stamp_of t then st \<le> stamp_of e \<and> (\<forall>t\<in>E. st \<le> stamp_of t \<longrightarrow> stamp_of e \<le> stamp_of t)
      else \<forall>t\<in>E. stamp_of t \<le> stamp_of e)"

lemma least_entry_for:
  assumes "series_sorted ts" and "ts \<noteq> []"
  shows "entry_for st (set ts) (least_entry st ts)"
  using assms
proof (induction ts)
  case (Cons t ts)
  have above: "\<forall>u\<in>set ts. stamp_of t < stamp_of u" using Cons.prems(1) by simp
  show ?case
  proof (cases "stamp_of t < st")
    case False
    with above have "\<forall>u\<in>set ts. stamp_of t \<le> stamp_of u" "st \<le> stamp_of t" by auto
    with False show ?thesis by (auto simp: entry_for_def least_entry_def)
  next
    case before: True
    show ?thesis
    proof (cases "ts = []")
      case True
      with before show ?thesis by (auto simp: entry_for_def least_entry_def)
    next
      case False
      with before have "least_entry st (t # ts) = least_entry st ts"
        by (cases "dropWhile (\<lambda>t. stamp_of t < st) ts") (simp_all add: least_entry_def del: dropWhile_eq_Nil_conv)
      moreover have "entry_for st (set ts) (least_entry st ts)" using Cons False by simp
      ultimately show ?thesis using before above by (auto simp: entry_for_def split: if_splits)
    qed
  qed
qed simp

lemma series_subset: "set (tn_series (TransformTreeNode_push tf n)) \<subseteq> insert tf (set (tn_series n))"
  using set_series_insert [of tf "tn_series n"]
  by (auto simp: TransformTreeNode_push_def TransformTreeNode_cleanup_def Let_def)

text \<open>The series of a node after any pushes.\<close>

lemma fold_push_series:
  assumes "series_sorted (tn_series n)" and "0 \<le> tn_memory_duration n"
  shows "series_sorted (tn_series (fold TransformTreeNode_push tfs n)) \<and>
    set (tn_series (fold TransformTreeNode_push tfs n)) \<subseteq> set (tn_series n) \<union> set tfs \<and>
    tn_is_static (fold TransformTreeNode_push tfs n) = tn_is_static n"
  using assms
proof (induction tfs arbitrary: n)
  case (Cons tf tfs)
  let ?n = "TransformTreeNode_push tf n"
  note p = push_series [OF Cons.prems, of tf]
  have static: "tn_is_static ?n = tn_is_static n"
    by (simp add: TransformTreeNode_push_def TransformTreeNode_cleanup_def Let_def)
  have "0 \<le> tn_memory_duration ?n" using p(4) Cons.prems(2) by simp
  from Cons.IH [OF p(1) this] series_subset [of tf n] static show ?case by auto
qed simp

section \<open>A concrete tree\<close>

text \<open>
  Motions of the line, for the concrete runs: a reflection (or none) followed by a shift.  They obey the
  laws and do not commute.
\<close>

definition line_kdl :: "(int, bool \<times> int) kdl" where
  "line_kdl = \<lparr>kdl_Frame = (\<lambda>(x, y, z) (qx, qy, qz, qw). (qz \<noteq> 0, x)), kdl_Identity = (False, 0),
     kdl_mult = (\<lambda>(a, t) (b, u). (a \<noteq> b, if a then t - u else t + u)),
     kdl_Inverse = (\<lambda>(a, t). (a, if a then t else - t)),
     kdl_p = (\<lambda>(a, t). (t, 0, 0)), kdl_GetQuaternion = (\<lambda>(a, t). (0, 0, if a then 1 else 0, if a then 0 else 1))\<rparr>"

lemma kdl_laws_line: "kdl_laws line_kdl"
  by (auto simp: kdl_laws_def line_kdl_def)

definition demo_tf :: "string \<Rightarrow> string \<Rightarrow> int \<Rightarrow> int \<Rightarrow> int TransformD" where
  "demo_tf parent child x qz = \<lparr>td_frame_id = parent, td_child_frame_id = child, td_seconds = 5, td_nanos = 0,
     td_transition = (x, 0, 0), td_rotation = (0, 0, qz, 1 - qz)\<rparr>"

text \<open>Two arms on a base, the second one reflected.\<close>

definition demo_tree :: "int TransformTree" where
  "demo_tree = TransformTree_addTransformNode (demo_tf ''base'' ''right'' 0 1) False
     (TransformTree_addTransformNode (demo_tf ''base'' ''left'' 1 0) False TransformTree_new)"

definition demo_tf_node :: "string \<Rightarrow> int TransformD \<Rightarrow> int TransformTreeNode" where
  "demo_tf_node i tf = \<lparr>tn_frame_id = i, tn_memory_duration = 1000, tn_parent = Some ''base'', tn_is_static = False, tn_series = [tf]\<rparr>"

lemma demo_tree_nodes:
  "fmlookup (tt_nodes demo_tree) ''left'' = Some (demo_tf_node ''left'' (demo_tf ''base'' ''left'' 1 0))"
  "fmlookup (tt_nodes demo_tree) ''right'' = Some (demo_tf_node ''right'' (demo_tf ''base'' ''right'' 0 1))"
  "fmlookup (tt_nodes demo_tree) ''base'' = Some (TransformTreeNode_new ''base'')"
  "tt_shared_ancestor demo_tree = Map.empty"
  by (simp_all add: demo_tree_def TransformTree_addTransformNode_def TransformTree_new_def add_missing_def
      TransformTreeNode_push_def TransformTreeNode_cleanup_def TransformTreeNode_new_def demo_tf_def demo_tf_node_def Let_def)

lemma demo_tree_reachable: "(tf_step K)\<^sup>*\<^sup>* TransformTree_new demo_tree"
  unfolding demo_tree_def
  by (rule rtranclp.rtrancl_into_rtrancl [OF r_into_rtranclp]) (rule tf_step.add)+

lemma demo_ancestors:
  "ancestors (tt_nodes demo_tree) {||} (Some ''left'') = Some {|''left'', ''base''|}"
  "ancestors (tt_nodes demo_tree) {||} (Some ''base'') = Some {|''base''|}"
  by (simp_all add: ancestors.simps demo_tree_nodes demo_tf_node_def TransformTreeNode_new_def finsert_commute)

lemma demo_search:
  "search_up (tt_nodes demo_tree) {|''left'', ''base''|} {||} (Some ''right'') = Shared ''base''"
  by (simp add: search_up.simps demo_tree_nodes demo_tf_node_def)

lemma demo_paths:
  "is_path (tt_nodes demo_tree) ''left'' [''left''] ''base''" "is_path (tt_nodes demo_tree) ''right'' [''right''] ''base''"
  by (simp_all add: demo_tree_nodes demo_tf_node_def)

lemma demo_poses:
  "pose line_kdl (tt_nodes demo_tree) st (- 1) [''left''] = Some (False, 1)"
  "pose line_kdl (tt_nodes demo_tree) st (- 1) [''right''] = Some (True, 0)"
  by (simp_all add: pose_def demo_tree_nodes demo_tf_node_def TransformTreeNode_transform_def toKDL_def demo_tf_def line_kdl_def)

section \<open>Properties\<close>

text \<open>
  C10: what a query returns.  In every state that callbacks and queries between colon-free frames can
  reach, closed loops and cached ancestors included, a query between colon-free frames terminates; and
  if it succeeds, there is a common ancestor at which the paths of the two frames meet for the first
  time, every frame on the way has a transform that fits, and the result is the pose of the target in
  that ancestor times the inverse of the pose of the source.
\<close>

theorem transform_query_result:
  assumes "kdl_laws K" and "(tf_step K)\<^sup>*\<^sup>* TransformTree_new t" and "colon_free from" and "colon_free to"
  shows "\<exists>res. TransformTree_transform K from to st tol t = Some res \<and>
    (\<forall>frame t'. res = Inr (Some frame, t') \<longrightarrow>
       (\<exists>r xs ys A B. meet (tt_nodes t) from to r xs ys \<and>
          pose K (tt_nodes t) st tol xs = Some A \<and> pose K (tt_nodes t) st tol ys = Some B \<and>
          frame = kdl_mult K B (kdl_Inverse K A)))"
proof -
  have ok: "cache_ok t" by (rule tf.reachable_inv [OF refl assms(2)])
  show ?thesis
  proof (cases "tt_shared_ancestor t (ancestor_token from to)")
    case (Some r)
    obtain xs ys where m: "meet (tt_nodes t) from to r xs ys" by (rule cache_ok_meet [OF ok Some assms(3,4)])
    show ?thesis
      unfolding TransformTree_transform_def get_transform_meet [OF assms(1) Some m]
      using Some meet_result [OF m, of K st tol] by auto
  next
    case None
    show ?thesis
    proof (cases "TransformTree_find_shared_ancestor from to t")
      case (Inl err)
      with None show ?thesis by (simp add: TransformTree_transform_def)
    next
      case (Inr p)
      then obtain b t' where find: "TransformTree_find_shared_ancestor from to t = Inr (b, t')" by (cases p) auto
      then show ?thesis
      proof (cases rule: find_shared_ancestor_cases)
        case no
        with None find show ?thesis by (simp add: TransformTree_transform_def)
      next
        case (yes r xs ys)
        have "TransformTree_get_transform K from to st tol t' =
            Some (case (pose K (tt_nodes t) st tol xs, pose K (tt_nodes t) st tol ys) of
              (Some A, Some B) \<Rightarrow> Some (kdl_mult K B (kdl_Inverse K A)) | _ \<Rightarrow> None)"
          using get_transform_meet [OF assms(1), of t' _ _ r xs ys] yes by simp
        with None find yes(1) meet_result [OF yes(2), of K st tol] show ?thesis
          unfolding TransformTree_transform_def by auto
      qed
    qed
  qed
qed

theorem transform_query_result_witness:
  "\<exists>res. TransformTree_transform line_kdl ''left'' ''right'' (Stamp 5 0) (- 1) demo_tree = Some res \<and>
    (\<forall>frame t'. res = Inr (Some frame, t') \<longrightarrow>
       (\<exists>r xs ys A B. meet (tt_nodes demo_tree) ''left'' ''right'' r xs ys \<and>
          pose line_kdl (tt_nodes demo_tree) (Stamp 5 0) (- 1) xs = Some A \<and>
          pose line_kdl (tt_nodes demo_tree) (Stamp 5 0) (- 1) ys = Some B \<and>
          frame = kdl_mult line_kdl B (kdl_Inverse line_kdl A)))"
  by (rule transform_query_result [OF kdl_laws_line demo_tree_reachable]) simp_all




text \<open>
  Two frames of different trees crash the listener.  If both frames are known, no closed loop is
  above them and they have no common ancestor, the search ends with a null pointer, which the log
  statement after it dereferences.
\<close>

lemma transform_unconnected_crashes:
  assumes "tt_shared_ancestor t (ancestor_token from to) = None"
    and "from |\<in>| fmdom (tt_nodes t)" and "to |\<in>| fmdom (tt_nodes t)"
    and "ancestors (tt_nodes t) {||} (Some from) \<noteq> None" and "ancestors (tt_nodes t) {||} (Some to) \<noteq> None"
    and "\<forall>r xs ys. \<not> (is_path (tt_nodes t) from xs r \<and> is_path (tt_nodes t) to ys r)"
  shows "TransformTree_transform K from to st tol t = Some (Inl Null_Deref)"
proof -
  obtain F where F: "ancestors (tt_nodes t) {||} (Some from) = Some F" using assms(4) by blast
  have "search_up (tt_nodes t) F {||} (Some to) = Reached_Null"
  proof (cases "search_up (tt_nodes t) F {||} (Some to)")
    case (Shared r)
    from search_up_Shared [OF this] obtain ys where "r |\<in>| F" "is_path (tt_nodes t) to ys r" by blast
    with ancestors_sound [OF F this(1)] assms(6) show ?thesis by blast
  qed (use search_up_no_loop [OF assms(5)] in simp_all)
  with assms(1-3) F show ?thesis
    by (simp add: TransformTree_transform_def TransformTree_find_shared_ancestor_def)
qed

text \<open>
  C22: the latest transform wins.  After any sequence of transforms has been pushed into a new node,
  static or not and with all the clean-ups in between, a query without tolerance returns the transform
  with the greatest time stamp, the one that came first if several have it.
\<close>

theorem latest_transform_wins:
  assumes "tol < 0"
  shows "TransformTreeNode_transform K st tol
      (fold TransformTreeNode_push (tf # tfs) ((TransformTreeNode_new i)\<lparr>tn_is_static := static\<rparr>)) =
    Some (toKDL K (newest tf tfs))"
proof -
  let ?n = "(TransformTreeNode_new i)\<lparr>tn_is_static := static\<rparr>"
  have new: "series_sorted (tn_series ?n)" "0 \<le> tn_memory_duration ?n" "tn_series ?n = []"
    by (simp_all add: TransformTreeNode_new_def)
  note p = push_series [OF new(1,2), of tf]
  have "0 \<le> tn_memory_duration (TransformTreeNode_push tf ?n)" using p(4) new(2) by simp
  moreover have "last (tn_series (TransformTreeNode_push tf ?n)) = tf" by (simp only: p(3) new(3) simp_thms if_True)
  ultimately show ?thesis
    using fold_push_last [OF p(1) _ p(2), of tfs] assms by (simp add: TransformTreeNode_transform_def)
qed

theorem latest_transform_wins_witness:
  "TransformTreeNode_transform line_kdl (Stamp 0 0) (- 1)
      (fold TransformTreeNode_push [demo_tf ''base'' ''left'' 1 0, (demo_tf ''base'' ''left'' 2 0)\<lparr>td_nanos := 7\<rparr>]
         ((TransformTreeNode_new ''left'')\<lparr>tn_is_static := False\<rparr>)) = Some (False, 2)"
proof -
  have "(- 1 :: int) < 0" by simp
  from latest_transform_wins [OF this, of line_kdl "Stamp 0 0" "demo_tf ''base'' ''left'' 1 0"
      "[(demo_tf ''base'' ''left'' 2 0)\<lparr>td_nanos := 7\<rparr>]" False "''left''"]
  show ?thesis by (simp add: demo_tf_def less_stamp_def stamp_less_def toKDL_def line_kdl_def)
qed

text \<open>
  C23: a query with a tolerance.  After any sequence of transforms has been pushed into a new node, with all the
  clean-ups in between, a query with a tolerance looks at one entry of the series: the earliest one that is
  not before the requested time, or the latest one if all are before it.  If that entry is within
  the tolerance, its transform is the answer, and otherwise there is none.  All entries come from the pushed transforms.
\<close>

theorem query_at_time:
  fixes tf :: "'d TransformD"
  assumes "0 \<le> tol" and "n = fold TransformTreeNode_push (tf # tfs) (TransformTreeNode_new i)"
  shows "\<exists>e. entry_for st (set (tn_series n)) e \<and> e \<in> set (tf # tfs) \<and>
    TransformTreeNode_transform K st tol n =
      (if \<bar>time_diff_ms st (stamp_of e)\<bar> \<le> tol then Some (toKDL K e) else None)"
proof -
  let ?n = "TransformTreeNode_new i :: 'd TransformTreeNode"
  have new: "series_sorted (tn_series ?n)" "0 \<le> tn_memory_duration ?n" "tn_series ?n = []" "\<not> tn_is_static ?n"
    by (simp_all add: TransformTreeNode_new_def)
  note p = push_series [OF new(1,2), of tf]
  have "0 \<le> tn_memory_duration (TransformTreeNode_push tf ?n)" using p(4) new(2) by simp
  from fold_push_last [OF p(1) this p(2)] assms(2) have "tn_series n \<noteq> []" by simp
  moreover from fold_push_series [OF new(1,2), of "tf # tfs"] new(3,4) assms(2)
  have n: "series_sorted (tn_series n)" "set (tn_series n) \<subseteq> set (tf # tfs)" "\<not> tn_is_static n" by auto
  ultimately have "entry_for st (set (tn_series n)) (least_entry st (tn_series n))" by (intro least_entry_for)
  moreover from this n(2) have "least_entry st (tn_series n) \<in> set (tf # tfs)" unfolding entry_for_def by blast
  ultimately show ?thesis
    using \<open>tn_series n \<noteq> []\<close> n(3) assms(1)
    by (intro exI [of _ "least_entry st (tn_series n)"]) (simp add: TransformTreeNode_transform_def)
qed

theorem query_at_time_witness:
  "TransformTreeNode_transform line_kdl (Stamp 5 3000) 4
     (fold TransformTreeNode_push [demo_tf ''base'' ''left'' 1 0, (demo_tf ''base'' ''left'' 2 0)\<lparr>td_nanos := 7000\<rparr>]
        (TransformTreeNode_new ''left'')) = Some (False, 2)"
proof -
  let ?a = "demo_tf ''base'' ''left'' 1 0" and ?b = "(demo_tf ''base'' ''left'' 2 0)\<lparr>td_nanos := 7000\<rparr>"
  let ?n = "fold TransformTreeNode_push [?a, ?b] (TransformTreeNode_new ''left'')"
  have "(0 :: int) \<le> 4" by simp
  from query_at_time [OF this refl, of "Stamp 5 3000" ?a "[?b]" "''left''" line_kdl]
  obtain e where e: "entry_for (Stamp 5 3000) (set (tn_series ?n)) e"
    "TransformTreeNode_transform line_kdl (Stamp 5 3000) 4 ?n =
       (if \<bar>time_diff_ms (Stamp 5 3000) (stamp_of e)\<bar> \<le> 4 then Some (toKDL line_kdl e) else None)" by blast
  have "tn_series ?n = [?a, ?b]"
    by (simp add: TransformTreeNode_push_def TransformTreeNode_cleanup_def TransformTreeNode_new_def Let_def demo_tf_def
        less_stamp_def stamp_less_def time_diff_ms_def trunc_div_def)
  with e(1) have "e = ?b"
    by (auto simp: entry_for_def less_eq_stamp_def stamp_less_def demo_tf_def split: if_splits)
  with e(2) show ?thesis by (simp add: demo_tf_def time_diff_ms_def trunc_div_def toKDL_def line_kdl_def)
qed

text \<open>
  The clean-up keeps the old and drops the fresh.  The age is computed with the wrong sign and with
  microseconds taken for milliseconds: an entry whose nanoseconds do not exceed the current ones stays
  however many seconds old it is, so the series grows without bound; and an entry of the second before
  whose nanoseconds exceed the current ones by two milliseconds or more is dropped, although it is less
  than a second old.
\<close>

lemma cleanup_inverted:
  assumes "\<not> tn_is_static n" and "tn_memory_duration n = 1000" and "tf \<in> set (tn_series n)"
  shows "(td_seconds tf \<le> seconds now \<and> td_nanos tf \<le> nanos now \<longrightarrow> tf \<in> set (tn_series (TransformTreeNode_cleanup now n))) \<and>
    (td_seconds tf = seconds now - 1 \<and> td_nanos tf - nanos now \<ge> 2001000 \<longrightarrow> tf \<notin> set (tn_series (TransformTreeNode_cleanup now n)))"
proof -
  have "time_diff_ms now (stamp_of tf) \<le> 0" if "td_seconds tf \<le> seconds now" "td_nanos tf \<le> nanos now"
    using that by (auto simp: time_diff_ms_def trunc_div_def sgn_if)
  moreover have "1000 < time_diff_ms now (stamp_of tf)" if "td_seconds tf = seconds now - 1" "td_nanos tf - nanos now \<ge> 2001000"
  proof -
    have "2001 \<le> (td_nanos tf - nanos now) div 1000" using that(2) by simp
    with that show ?thesis by (simp add: time_diff_ms_def trunc_div_def sgn_if)
  qed
  ultimately show ?thesis using assms by (auto simp: TransformTreeNode_cleanup_def)
qed

text \<open>
  The tolerance is in microseconds.  Within one second, a node with a single entry answers a query
  with a tolerance of \<open>tol\<close>, which the interface calls milliseconds, exactly if the entry is less than
  \<open>tol + 1\<close> microseconds away from the requested time.
\<close>

lemma tolerance_in_microseconds:
  assumes "tn_series n = [tf]" and "\<not> tn_is_static n" and "0 \<le> tol" and "td_seconds tf = seconds st"
  shows "TransformTreeNode_transform K st tol n \<noteq> None \<longleftrightarrow> \<bar>td_nanos tf - nanos st\<bar> < 1000 * (tol + 1)"
proof -
  have "least_entry st (tn_series n) = tf" using assms(1) by (auto simp: least_entry_def)
  moreover have "\<bar>time_diff_ms st (stamp_of tf)\<bar> = \<bar>td_nanos tf - nanos st\<bar> div 1000"
    using assms(4) by (simp add: time_diff_ms_def trunc_div_def abs_mult sgn_if pos_imp_zdiv_nonneg_iff)
  moreover have "a div 1000 \<le> tol \<longleftrightarrow> a < 1000 * (tol + 1)" for a :: int
  proof -
    define q m where "q = a div 1000" and "m = a mod 1000"
    have "a = 1000 * q + m" "0 \<le> m" "m < 1000" by (simp_all add: q_def m_def)
    then show ?thesis by (auto simp: q_def [symmetric])
  qed
  ultimately show ?thesis using assms by (simp add: TransformTreeNode_transform_def)
qed

end
