(* ===== verification/Param_RPC.thy ===== *)
theory Param_RPC
  imports Prelude
begin

text \<open>
  \<^verbatim>\<open>cpp/include/ParamRPC.hpp\<close> and \<^verbatim>\<open>cpp/src/ParamRPC.cpp\<close>: parameters of a node that other nodes read,
  watch and write.

  A value carries the name of its message type, as a \<^verbatim>\<open>Parameter<T>\<close> object and a protobuf \<^verbatim>\<open>Any\<close> do.
  The server keeps values, versions and the set of constants; a watch is the thread of one
  \<^verbatim>\<open>getRemoteParam\<close> call, a step relation over its atomic actions.  The client keeps one slot per
  watched parameter, the club one client per node and the requests to send to nodes that come later.
  Versions are \<open>nat\<close>: the code's \<^verbatim>\<open>atomic<int>\<close> agrees with it for the first \<open>2 ^ 31\<close> changes.
\<close>

section \<open>Values\<close>

datatype ParameterStatus = NORMAL | TMEP_NOT_AVALIABLE | NOT_CHANGEABLE

record 'b any_value =
  any_type :: string
  any_payload :: 'b

text \<open>
  The methods of \<^verbatim>\<open>Parameter<T>\<close>.  In \<^verbatim>\<open>setRemoteValue\<close>, \<^verbatim>\<open>UnpackTo\<close> leaves its target alone when the types differ.
\<close>

definition Parameter_set :: "'b any_value \<Rightarrow> 'b any_value \<Rightarrow> 'b any_value" where
  "Parameter_set v p = v"

definition Parameter_get :: "'b any_value \<Rightarrow> 'b any_value" where
  "Parameter_get p = p"

definition Parameter_setRemoteValue :: "'b any_value \<Rightarrow> 'b any_value \<Rightarrow> 'b any_value" where
  "Parameter_setRemoteValue v p = (if any_type v = any_type p then v else p)"

definition Parameter_getRemoteValue :: "'b any_value \<Rightarrow> 'b any_value" where
  "Parameter_getRemoteValue p = p"

declare Parameter_set_def [simp] Parameter_get_def [simp]

section \<open>The server\<close>

record 'b ParamRPCServerImpl =
  ps_params :: "string \<rightharpoonup> 'b any_value"
  ps_version :: "string \<Rightarrow> nat"
  ps_const :: "string set"

definition ParamRPCServerImpl_new :: "'b ParamRPCServerImpl" where
  "ParamRPCServerImpl_new = \<lparr>ps_params = Map.empty, ps_version = (\<lambda>n. 0), ps_const = {}\<rparr>"

definition ParamRPCServerImpl_find_param :: "string \<Rightarrow> 'b ParamRPCServerImpl \<Rightarrow> bool" where
  "ParamRPCServerImpl_find_param name s \<longleftrightarrow> ps_params s name \<noteq> None"

definition ParamRPCServerImpl_is_const :: "string \<Rightarrow> 'b ParamRPCServerImpl \<Rightarrow> bool" where
  "ParamRPCServerImpl_is_const name s \<longleftrightarrow> name \<in> ps_const s"

definition ParamRPCServerImpl_declare ::
    "string \<Rightarrow> 'b any_value \<Rightarrow> bool \<Rightarrow> 'b ParamRPCServerImpl \<Rightarrow> 'b ParamRPCServerImpl" where
  "ParamRPCServerImpl_declare name val is_const s =
     (if ParamRPCServerImpl_find_param name s then s
      else s\<lparr>ps_params := (ps_params s)(name \<mapsto> val), ps_version := (ps_version s)(name := 1),
             ps_const := (if is_const then insert name (ps_const s) else ps_const s)\<rparr>)"

text \<open>\<^verbatim>\<open>set<T>\<close>: the \<^verbatim>\<open>static_cast\<close> to \<^verbatim>\<open>Parameter<T>*\<close> is only valid if the parameter has that type.\<close>

definition ParamRPCServerImpl_set ::
    "string \<Rightarrow> 'b any_value \<Rightarrow> 'b ParamRPCServerImpl \<Rightarrow> 'b ParamRPCServerImpl result" where
  "ParamRPCServerImpl_set name val s =
     (case ps_params s name of
        None \<Rightarrow> Inr s
      | Some p \<Rightarrow>
          if ParamRPCServerImpl_is_const name s then Inr s
          else if any_type val \<noteq> any_type p then Inl Bad_Downcast
          else Inr (s\<lparr>ps_params := (ps_params s)(name \<mapsto> Parameter_set val p),
                      ps_version := (ps_version s)(name := ps_version s name + 1)\<rparr>))"

text \<open>\<^verbatim>\<open>get<T>\<close> without callback; \<open>ty\<close> is the type \<^verbatim>\<open>T\<close>, \<open>None\<close> the return value false.\<close>

definition ParamRPCServerImpl_get ::
    "string \<Rightarrow> string \<Rightarrow> 'b ParamRPCServerImpl \<Rightarrow> 'b any_value option result" where
  "ParamRPCServerImpl_get ty name s =
     (case ps_params s name of
        None \<Rightarrow> Inr None
      | Some p \<Rightarrow> if ty \<noteq> any_type p then Inl Bad_Downcast else Inr (Some (Parameter_get p)))"

definition ParamRPCServerImpl_setRemoteParam ::
    "string \<Rightarrow> 'b any_value \<Rightarrow> 'b ParamRPCServerImpl \<Rightarrow> ParameterStatus \<times> 'b ParamRPCServerImpl" where
  "ParamRPCServerImpl_setRemoteParam name payload s =
     (if ParamRPCServerImpl_is_const name s then (NOT_CHANGEABLE, s)
      else (case ps_params s name of
          None \<Rightarrow> (TMEP_NOT_AVALIABLE, s)
        | Some p \<Rightarrow>
            (NORMAL, s\<lparr>ps_params := (ps_params s)(name \<mapsto> Parameter_setRemoteValue payload p),
                       ps_version := (ps_version s)(name := ps_version s name + 1)\<rparr>)))"

text \<open>The calls of the application and of other nodes that can change a parameter, and sequences of them.\<close>

datatype 'b param_op =
    Declare string "'b any_value" bool
  | Set string "'b any_value"
  | Set_Remote string "'b any_value"

fun exec_op :: "'b param_op \<Rightarrow> 'b ParamRPCServerImpl \<Rightarrow> 'b ParamRPCServerImpl result" where
  "exec_op (Declare n v c) s = Inr (ParamRPCServerImpl_declare n v c s)"
| "exec_op (Set n v) s = ParamRPCServerImpl_set n v s"
| "exec_op (Set_Remote n v) s = Inr (snd (ParamRPCServerImpl_setRemoteParam n v s))"

fun exec_ops :: "'b param_op list \<Rightarrow> 'b ParamRPCServerImpl \<Rightarrow> 'b ParamRPCServerImpl result" where
  "exec_ops [] s = Inr s"
| "exec_ops (x # xs) s = bind_result (exec_op x s) (exec_ops xs)"

section \<open>Watches\<close>

text \<open>
  One call of \<^verbatim>\<open>getRemoteParam\<close>.  Its atomic actions: it looks the parameter up and loads the version,
  reads the value under the lock and writes the reply, evaluates the predicate of \<^verbatim>\<open>cv.wait\<close>, and
  blocks.  It tests at the head of the loop whether the call was cancelled, and the predicate does not.  Nothing that changes a parameter holds the mutex of the condition variable.
\<close>

record 'b getParamRPCReply =
  gr_status :: ParameterStatus
  gr_payload :: "'b any_value option"

datatype watch_pc =
    W_Top nat      \<comment> \<open>at the head of the loop, with the variable \<open>version\<close>\<close>
  | W_Read nat     \<comment> \<open>\<open>version\<close> loaded, value not yet read\<close>
  | W_Check nat    \<comment> \<open>reply written, predicate to be evaluated\<close>
  | W_Enter nat    \<comment> \<open>predicate false, about to block\<close>
  | W_Sleep nat    \<comment> \<open>blocked\<close>
  | W_Done nat     \<comment> \<open>returned\<close>

record 'b watched =
  wd_server :: "'b ParamRPCServerImpl"
  wd_pc :: watch_pc
  wd_sent :: "'b getParamRPCReply list"
  wd_cancelled :: bool

definition not_available :: "'b getParamRPCReply" where
  "not_available = \<lparr>gr_status = TMEP_NOT_AVALIABLE, gr_payload = None\<rparr>"

definition wait_pred :: "string \<Rightarrow> nat \<Rightarrow> 'b ParamRPCServerImpl \<Rightarrow> bool" where
  "wait_pred name version s \<longleftrightarrow> ParamRPCServerImpl_find_param name s \<and> version \<noteq> ps_version s name"

definition notify :: "watch_pc \<Rightarrow> watch_pc" where
  "notify pc = (case pc of W_Sleep v \<Rightarrow> W_Check v | _ \<Rightarrow> pc)"

inductive watch_step :: "string \<Rightarrow> 'b watched \<Rightarrow> 'b watched \<Rightarrow> bool" for name :: string where
  load: "wd_pc w = W_Top v \<Longrightarrow> \<not> wd_cancelled w \<Longrightarrow> ParamRPCServerImpl_find_param name (wd_server w) \<Longrightarrow>
    watch_step name w (w\<lparr>wd_pc := W_Read (ps_version (wd_server w) name)\<rparr>)"
| missing: "wd_pc w = W_Top v \<Longrightarrow> \<not> wd_cancelled w \<Longrightarrow> \<not> ParamRPCServerImpl_find_param name (wd_server w) \<Longrightarrow>
    watch_step name w (w\<lparr>wd_pc := W_Check v, wd_sent := wd_sent w @ [not_available]\<rparr>)"
| reply: "wd_pc w = W_Read v \<Longrightarrow> ps_params (wd_server w) name = Some p \<Longrightarrow>
    watch_step name w (w\<lparr>wd_pc := W_Check v,
      wd_sent := wd_sent w @ [\<lparr>gr_status = NORMAL, gr_payload = Some (Parameter_getRemoteValue p)\<rparr>]\<rparr>)"
| again: "wd_pc w = W_Check v \<Longrightarrow> wait_pred name v (wd_server w) \<Longrightarrow> watch_step name w (w\<lparr>wd_pc := W_Top v\<rparr>)"
| enter: "wd_pc w = W_Check v \<Longrightarrow> \<not> wait_pred name v (wd_server w) \<Longrightarrow> watch_step name w (w\<lparr>wd_pc := W_Enter v\<rparr>)"
| block: "wd_pc w = W_Enter v \<Longrightarrow> watch_step name w (w\<lparr>wd_pc := W_Sleep v\<rparr>)"
| stop: "wd_pc w = W_Top v \<Longrightarrow> wd_cancelled w \<Longrightarrow> watch_step name w (w\<lparr>wd_pc := W_Done v\<rparr>)"
| cancel: "watch_step name w (w\<lparr>wd_cancelled := True\<rparr>)"
| change: "exec_op x (wd_server w) = Inr s \<Longrightarrow> watch_step name w (w\<lparr>wd_server := s\<rparr>)"
| wake: "watch_step name w (w\<lparr>wd_pc := notify (wd_pc w)\<rparr>)"

inductive_cases watch_stepE: "watch_step name w w'"

definition watch_start :: "'b watched \<Rightarrow> bool" where
  "watch_start w \<longleftrightarrow> (\<exists>xs. exec_ops xs ParamRPCServerImpl_new = Inr (wd_server w)) \<and>
     wd_pc w = W_Top 0 \<and> wd_sent w = [] \<and> \<not> wd_cancelled w"

text \<open>
  The thread that \<^verbatim>\<open>get\<close> starts for a callback on a parameter of the own node.  It reads the value first
  and loads the version after it, then calls the callback.
\<close>

datatype 'b local_pc =
    L_Top nat                  \<comment> \<open>at the head of the loop, with the variable \<open>version\<close>\<close>
  | L_Got nat "'b any_value"   \<comment> \<open>value read, version not yet loaded\<close>
  | L_Check nat | L_Enter nat | L_Sleep nat

record 'b local_watched =
  lw_server :: "'b ParamRPCServerImpl"
  lw_pc :: "'b local_pc"
  lw_calls :: "'b any_value list"

definition notify_local :: "'b local_pc \<Rightarrow> 'b local_pc" where
  "notify_local pc = (case pc of L_Sleep v \<Rightarrow> L_Check v | _ \<Rightarrow> pc)"

inductive local_step :: "string \<Rightarrow> string \<Rightarrow> 'b local_watched \<Rightarrow> 'b local_watched \<Rightarrow> bool"
  for ty :: string and name :: string where
  got: "lw_pc w = L_Top v \<Longrightarrow> ParamRPCServerImpl_get ty name (lw_server w) = Inr (Some p) \<Longrightarrow>
    local_step ty name w (w\<lparr>lw_pc := L_Got v p\<rparr>)"
| missing: "lw_pc w = L_Top v \<Longrightarrow> ParamRPCServerImpl_get ty name (lw_server w) = Inr None \<Longrightarrow>
    local_step ty name w (w\<lparr>lw_pc := L_Check v\<rparr>)"
| call: "lw_pc w = L_Got v p \<Longrightarrow>
    local_step ty name w (w\<lparr>lw_pc := L_Check (ps_version (lw_server w) name), lw_calls := lw_calls w @ [p]\<rparr>)"
| again: "lw_pc w = L_Check v \<Longrightarrow> wait_pred name v (lw_server w) \<Longrightarrow> local_step ty name w (w\<lparr>lw_pc := L_Top v\<rparr>)"
| enter: "lw_pc w = L_Check v \<Longrightarrow> \<not> wait_pred name v (lw_server w) \<Longrightarrow> local_step ty name w (w\<lparr>lw_pc := L_Enter v\<rparr>)"
| block: "lw_pc w = L_Enter v \<Longrightarrow> local_step ty name w (w\<lparr>lw_pc := L_Sleep v\<rparr>)"
| change: "exec_op x (lw_server w) = Inr s \<Longrightarrow> local_step ty name w (w\<lparr>lw_server := s\<rparr>)"
| wake: "local_step ty name w (w\<lparr>lw_pc := notify_local (lw_pc w)\<rparr>)"

text \<open>\<^verbatim>\<open>get\<close> with a callback starts that thread and returns true.\<close>

definition ParamRPCServerImpl_get_cb :: "'b ParamRPCServerImpl \<Rightarrow> bool \<times> 'b local_watched" where
  "ParamRPCServerImpl_get_cb s = (True, \<lparr>lw_server = s, lw_pc = L_Top 0, lw_calls = []\<rparr>)"

section \<open>The client\<close>

record ('b, 'c) ParamSlot =
  slot_data :: "'b getParamRPCReply"
  slot_cb :: "'c option"     \<comment> \<open>the callback of a \<open>DynamicParamSlot\<close>\<close>

definition ParamSlot_new :: "'c option \<Rightarrow> ('b, 'c) ParamSlot" where
  "ParamSlot_new cb = \<lparr>slot_data = not_available, slot_cb = cb\<rparr>"

definition ParamSlot_get :: "('b, 'c) ParamSlot \<Rightarrow> 'b getParamRPCReply" where
  "ParamSlot_get s = slot_data s"

text \<open>\<^verbatim>\<open>set\<close> of both classes: the new slot, and the call that a \<^verbatim>\<open>DynamicParamSlot\<close> starts.\<close>

definition ParamSlot_set ::
    "'b getParamRPCReply \<Rightarrow> ('b, 'c) ParamSlot \<Rightarrow> ('b, 'c) ParamSlot \<times> ('c \<times> 'b getParamRPCReply) list" where
  "ParamSlot_set reply s =
     (s\<lparr>slot_data := reply\<rparr>,
      case slot_cb s of None \<Rightarrow> [] | Some cb \<Rightarrow> if gr_status reply = NORMAL then [(cb, reply)] else [])"

text \<open>The streams that the client has started are kept in the order of their start.\<close>

record ('b, 'c) ParamRPCClient =
  pc_get_replies :: "string \<rightharpoonup> ('b, 'c) ParamSlot"
  pc_streams :: "string list"

definition ParamRPCClient_new :: "('b, 'c) ParamRPCClient" where
  "ParamRPCClient_new = \<lparr>pc_get_replies = Map.empty, pc_streams = []\<rparr>"

text \<open>\<open>rpc\<close> is the outcome of the remote call, \<open>None\<close> if its status is not ok.\<close>

definition ParamRPCClient_setRemoteParam :: "ParameterStatus option \<Rightarrow> ParameterStatus" where
  "ParamRPCClient_setRemoteParam rpc = (case rpc of None \<Rightarrow> TMEP_NOT_AVALIABLE | Some status \<Rightarrow> status)"

definition ParamRPCClient_getRemoteParam ::
    "string \<Rightarrow> 'c option \<Rightarrow> ('b, 'c) ParamRPCClient \<Rightarrow> 'b getParamRPCReply \<times> ('b, 'c) ParamRPCClient" where
  "ParamRPCClient_getRemoteParam name cb c =
     (case pc_get_replies c name of
        Some slot \<Rightarrow>
          let slot' = (if cb \<noteq> None then ParamSlot_new cb else slot)
          in (ParamSlot_get slot', c\<lparr>pc_get_replies := (pc_get_replies c)(name \<mapsto> slot')\<rparr>)
      | None \<Rightarrow>
          (not_available, c\<lparr>pc_get_replies := (pc_get_replies c)(name \<mapsto> ParamSlot_new cb),
                            pc_streams := pc_streams c @ [name]\<rparr>))"

text \<open>One round of the loop of a stream's thread.\<close>

definition ParamRPCClient_receive ::
    "string \<Rightarrow> 'b getParamRPCReply \<Rightarrow> ('b, 'c) ParamRPCClient \<Rightarrow>
       (('b, 'c) ParamRPCClient \<times> ('c \<times> 'b getParamRPCReply) list) result" where
  "ParamRPCClient_receive name response c =
     (case pc_get_replies c name of
        None \<Rightarrow> Inl Null_Deref
      | Some slot \<Rightarrow>
          let (slot', calls) = ParamSlot_set response slot
          in Inr (c\<lparr>pc_get_replies := (pc_get_replies c)(name \<mapsto> slot')\<rparr>, calls))"

fun receive_loop ::
    "string \<Rightarrow> 'b getParamRPCReply list \<Rightarrow> ('b, 'c) ParamRPCClient \<Rightarrow>
       (('b, 'c) ParamRPCClient \<times> ('c \<times> 'b getParamRPCReply) list) result" where
  "receive_loop name [] c = Inr (c, [])"
| "receive_loop name (response # rs) c =
     bind_result (ParamRPCClient_receive name response c) (\<lambda>(c1, calls).
       bind_result (receive_loop name rs c1) (\<lambda>(c2, calls'). Inr (c2, calls @ calls')))"

lemma receive_loop_slot:
  assumes "pc_get_replies c name = Some sl" and "slot_cb sl = Some cb"
  shows "receive_loop name rs c =
    Inr (c\<lparr>pc_get_replies := (pc_get_replies c)(name \<mapsto> sl\<lparr>slot_data := last (slot_data sl # rs)\<rparr>)\<rparr>,
      map (Pair cb) (filter (\<lambda>r. gr_status r = NORMAL) rs))"
  using assms
proof (induction rs arbitrary: c sl)
  case (Cons r rs)
  then show ?case by (simp add: ParamRPCClient_receive_def ParamSlot_set_def cong: if_cong)
qed (simp add: fun_upd_idem)

section \<open>The club\<close>

record ('b, 'c) ParamRPCClientClub =
  pclub_clients :: "string \<rightharpoonup> string \<times> ('b, 'c) ParamRPCClient"   \<comment> \<open>with the address of the channel\<close>
  pclub_queue :: "string \<Rightarrow> (string \<times> 'c) list"

definition ParamRPCClientClub_new :: "('b, 'c) ParamRPCClientClub" where
  "ParamRPCClientClub_new = \<lparr>pclub_clients = Map.empty, pclub_queue = (\<lambda>n. [])\<rparr>"

fun replay_requests :: "(string \<times> 'c) list \<Rightarrow> ('b, 'c) ParamRPCClient \<Rightarrow> ('b, 'c) ParamRPCClient" where
  "replay_requests [] c = c"
| "replay_requests ((name, cb) # rs) c =
     replay_requests rs (snd (ParamRPCClient_getRemoteParam name (Some cb) c))"

definition ParamRPCClientClub_add_client ::
    "string \<Rightarrow> string \<Rightarrow> ('b, 'c) ParamRPCClientClub \<Rightarrow> ('b, 'c) ParamRPCClientClub" where
  "ParamRPCClientClub_add_client ns srv_addr k =
     k\<lparr>pclub_clients := (pclub_clients k)(ns \<mapsto> (srv_addr, replay_requests (pclub_queue k ns) ParamRPCClient_new))\<rparr>"

definition ParamRPCClientClub_delete_client ::
    "string \<Rightarrow> ('b, 'c) ParamRPCClientClub \<Rightarrow> ('b, 'c) ParamRPCClientClub" where
  "ParamRPCClientClub_delete_client ns k = k\<lparr>pclub_clients := (pclub_clients k)(ns := None)\<rparr>"

text \<open>
  The destructor of a client joins the threads of its streams, which end when \<^verbatim>\<open>Read\<close> returns false: \<open>ended\<close> tells
  of which streams this has happened.  \<open>None\<close>: it still waits, and with it \<^verbatim>\<open>delete_client\<close>.
\<close>

definition ParamRPCClient_delete :: "(string \<Rightarrow> bool) \<Rightarrow> ('b, 'c) ParamRPCClient \<Rightarrow> unit option" where
  "ParamRPCClient_delete ended c = (if list_all ended (pc_streams c) then Some () else None)"

definition param_delete_joins ::
    "(string \<Rightarrow> bool) \<Rightarrow> string \<Rightarrow> ('b, 'c) ParamRPCClientClub \<Rightarrow> ('b, 'c) ParamRPCClientClub option" where
  "param_delete_joins ended ns k =
     (case pclub_clients k ns of
        None \<Rightarrow> Some (ParamRPCClientClub_delete_client ns k)
      | Some (addr, c) \<Rightarrow> map_option (\<lambda>_. ParamRPCClientClub_delete_client ns k) (ParamRPCClient_delete ended c))"

definition ParamRPCClientClub_setRemoteRequest ::
    "ParameterStatus option \<Rightarrow> string \<Rightarrow> ('b, 'c) ParamRPCClientClub \<Rightarrow> ParameterStatus" where
  "ParamRPCClientClub_setRemoteRequest rpc ns k =
     (if pclub_clients k ns = None then TMEP_NOT_AVALIABLE else ParamRPCClient_setRemoteParam rpc)"

definition ParamRPCClientClub_getRemoteRequest ::
    "string \<Rightarrow> string \<Rightarrow> ('b, 'c) ParamRPCClientClub \<Rightarrow> 'b getParamRPCReply \<times> ('b, 'c) ParamRPCClientClub" where
  "ParamRPCClientClub_getRemoteRequest name ns k =
     (case pclub_clients k ns of
        None \<Rightarrow> (not_available, k)
      | Some (addr, c) \<Rightarrow>
          let (reply, c') = ParamRPCClient_getRemoteParam name None c
          in (reply, k\<lparr>pclub_clients := (pclub_clients k)(ns \<mapsto> (addr, c'))\<rparr>))"

text \<open>The overload with a callback queues the request for clients that are added later.\<close>

definition ParamRPCClientClub_getRemoteRequest_cb ::
    "string \<Rightarrow> 'c \<Rightarrow> string \<Rightarrow> ('b, 'c) ParamRPCClientClub \<Rightarrow> ParameterStatus \<times> ('b, 'c) ParamRPCClientClub" where
  "ParamRPCClientClub_getRemoteRequest_cb name cb ns k =
     (let k' = k\<lparr>pclub_queue := (pclub_queue k)(ns := pclub_queue k ns @ [(name, cb)])\<rparr> in
      case pclub_clients k' ns of
        None \<Rightarrow> (TMEP_NOT_AVALIABLE, k')
      | Some (addr, c) \<Rightarrow>
          let (reply, c') = ParamRPCClient_getRemoteParam name (Some cb) c
          in (gr_status reply, k'\<lparr>pclub_clients := (pclub_clients k')(ns \<mapsto> (addr, c'))\<rparr>))"

section \<open>Values and versions\<close>

text \<open>What one call does to a declared parameter: its type stays, and its value changes only with its version.\<close>

definition evolves :: "string \<Rightarrow> 'b ParamRPCServerImpl \<Rightarrow> 'b ParamRPCServerImpl \<Rightarrow> bool" where
  "evolves n s s' \<longleftrightarrow>
     ps_version s n \<le> ps_version s' n \<and> ps_const s \<subseteq> ps_const s' \<and>
     (\<forall>p. ps_params s n = Some p \<longrightarrow>
        (\<exists>p'. ps_params s' n = Some p' \<and> any_type p' = any_type p \<and> (ps_version s' n = ps_version s n \<longrightarrow> p' = p)) \<and>
        (n \<in> ps_const s \<longrightarrow> ps_version s' n = ps_version s n))"

definition versions_ok :: "'b ParamRPCServerImpl \<Rightarrow> bool" where
  "versions_ok s \<longleftrightarrow> (\<forall>n. ps_version s n = 0 \<longleftrightarrow> ps_params s n = None)"

lemma exec_op_evolves:
  assumes "exec_op x s = Inr s'" and "versions_ok s"
  shows "evolves n s s'" and "versions_ok s'"
proof -
  have "ps_params s m = None \<Longrightarrow> ps_version s m = 0" for m using assms(2) by (simp add: versions_ok_def)
  with assms(1) show "evolves n s s'"
    by (cases x) (auto simp: evolves_def ParamRPCServerImpl_declare_def ParamRPCServerImpl_find_param_def
        ParamRPCServerImpl_set_def ParamRPCServerImpl_is_const_def ParamRPCServerImpl_setRemoteParam_def
        Parameter_setRemoteValue_def split: option.splits if_splits)
  show "versions_ok s'"
    using assms
    by (cases x) (auto simp: versions_ok_def ParamRPCServerImpl_declare_def ParamRPCServerImpl_find_param_def
        ParamRPCServerImpl_set_def ParamRPCServerImpl_setRemoteParam_def split: option.splits if_splits)
qed

lemma evolves_refl: "evolves n s s"
  by (simp add: evolves_def)

lemma evolves_trans: "evolves n s s' \<Longrightarrow> evolves n s' s'' \<Longrightarrow> evolves n s s''"
  unfolding evolves_def
proof (elim conjE, intro conjI allI impI)
  fix p
  assume a: "\<forall>p. ps_params s n = Some p \<longrightarrow>
      (\<exists>p'. ps_params s' n = Some p' \<and> any_type p' = any_type p \<and> (ps_version s' n = ps_version s n \<longrightarrow> p' = p)) \<and>
      (n \<in> ps_const s \<longrightarrow> ps_version s' n = ps_version s n)"
    and b: "\<forall>p. ps_params s' n = Some p \<longrightarrow>
      (\<exists>p'. ps_params s'' n = Some p' \<and> any_type p' = any_type p \<and> (ps_version s'' n = ps_version s' n \<longrightarrow> p' = p)) \<and>
      (n \<in> ps_const s' \<longrightarrow> ps_version s'' n = ps_version s' n)"
    and le: "ps_version s n \<le> ps_version s' n" "ps_version s' n \<le> ps_version s'' n"
    and sub: "ps_const s \<subseteq> ps_const s'" and p: "ps_params s n = Some p"
  from a p obtain p1 where p1: "ps_params s' n = Some p1" "any_type p1 = any_type p"
    "ps_version s' n = ps_version s n \<Longrightarrow> p1 = p" by blast
  from b p1(1) obtain p2 where p2: "ps_params s'' n = Some p2" "any_type p2 = any_type p1"
    "ps_version s'' n = ps_version s' n \<Longrightarrow> p2 = p1" by blast
  show "\<exists>p'. ps_params s'' n = Some p' \<and> any_type p' = any_type p \<and> (ps_version s'' n = ps_version s n \<longrightarrow> p' = p)"
    using p1 p2 le by (intro exI [of _ p2]) auto
  show "ps_version s'' n = ps_version s n" if "n \<in> ps_const s"
    using a b p p1(1) sub that by auto
qed auto

lemma exec_ops_evolves:
  "exec_ops xs s = Inr s' \<Longrightarrow> versions_ok s \<Longrightarrow> evolves n s s' \<and> versions_ok s'"
proof (induction xs arbitrary: s)
  case (Cons x xs)
  then obtain s1 where s1: "exec_op x s = Inr s1" "exec_ops xs s1 = Inr s'"
    by (auto simp: bind_result_Inr_iff)
  from exec_op_evolves [OF s1(1) Cons.prems(2)] Cons.IH [OF s1(2)] show ?case
    by (blast intro: evolves_trans)
qed (simp add: evolves_refl)

lemma versions_ok_new: "versions_ok ParamRPCServerImpl_new"
  by (simp add: versions_ok_def ParamRPCServerImpl_new_def)

section \<open>The invariant of a watch\<close>

fun pc_version :: "watch_pc \<Rightarrow> nat" where
  "pc_version (W_Top v) = v" | "pc_version (W_Read v) = v" | "pc_version (W_Check v) = v"
| "pc_version (W_Enter v) = v" | "pc_version (W_Sleep v) = v" | "pc_version (W_Done v) = v"

fun pc_reading :: "watch_pc \<Rightarrow> bool" where
  "pc_reading (W_Read v) = True" | "pc_reading pc = False"

text \<open>
  The version of the watch never runs ahead of the parameter's, and when it is the same, the last reply
  holds the parameter's value, unless the watch is just about to read it.
\<close>

definition watch_inv :: "string \<Rightarrow> 'b watched \<Rightarrow> bool" where
  "watch_inv name w \<longleftrightarrow>
     versions_ok (wd_server w) \<and> pc_version (wd_pc w) \<le> ps_version (wd_server w) name \<and>
     (pc_reading (wd_pc w) \<longrightarrow> ps_params (wd_server w) name \<noteq> None) \<and>
     (\<forall>p. ps_params (wd_server w) name = Some p \<longrightarrow> \<not> pc_reading (wd_pc w) \<longrightarrow>
        pc_version (wd_pc w) = ps_version (wd_server w) name \<longrightarrow>
        wd_sent w \<noteq> [] \<and> last (wd_sent w) = \<lparr>gr_status = NORMAL, gr_payload = Some p\<rparr>)"

text \<open>The version of a parameter tells whether it has changed.\<close>

lemma exec_op_same_version:
  assumes "exec_op x s = Inr s'" and "versions_ok s" and "ps_version s' name = ps_version s name"
  shows "ps_params s' name = ps_params s name"
proof (cases "ps_params s name")
  case None
  then show ?thesis using assms exec_op_evolves(2) [OF assms(1,2)] by (metis versions_ok_def)
next
  case (Some p)
  then show ?thesis using assms(3) exec_op_evolves(1) [OF assms(1,2), of name] by (auto simp: evolves_def)
qed

lemma watch_inv_change:
  assumes "watch_inv name w" and "exec_op x (wd_server w) = Inr s"
  shows "watch_inv name (w\<lparr>wd_server := s\<rparr>)"
proof -
  have ok: "versions_ok (wd_server w)" using assms(1) by (simp add: watch_inv_def)
  note ev = exec_op_evolves [OF assms(2) ok]
  have mono: "ps_version (wd_server w) name \<le> ps_version s name" using ev(1) [of name] by (simp add: evolves_def)
  show ?thesis
  proof (cases "ps_version s name = ps_version (wd_server w) name")
    case True
    with exec_op_same_version [OF assms(2) ok] assms(1) ev(2) show ?thesis by (simp add: watch_inv_def)
  next
    case False
    then have "pc_version (wd_pc w) < ps_version s name"
      using mono assms(1) by (simp add: watch_inv_def)
    moreover have "ps_params s name \<noteq> None" if "ps_params (wd_server w) name \<noteq> None"
      using ev(1) [of name] that by (auto simp: evolves_def)
    ultimately show ?thesis using assms(1) ev(2) by (auto simp: watch_inv_def)
  qed
qed

lemma watch_inv_step:
  assumes "watch_inv name w" and "watch_step name w w'"
  shows "watch_inv name w'"
  using assms(2)
proof cases
  case (change x s)
  with watch_inv_change [OF assms(1)] show ?thesis by simp
next
  case wake
  with assms(1) show ?thesis by (auto simp: watch_inv_def notify_def split: watch_pc.splits)
next
  case (missing v)
  with assms(1) show ?thesis
    by (auto simp: watch_inv_def ParamRPCServerImpl_find_param_def)
next
  case (load v)
  with assms(1) show ?thesis by (auto simp: watch_inv_def ParamRPCServerImpl_find_param_def)
next
  case (reply v p)
  with assms(1) show ?thesis by (auto simp: watch_inv_def Parameter_getRemoteValue_def)
qed (use assms(1) in \<open>auto simp: watch_inv_def\<close>)

lemma watch_inv_start: "watch_start w \<Longrightarrow> watch_inv name w"
proof -
  assume start: "watch_start w"
  then obtain xs where "exec_ops xs ParamRPCServerImpl_new = Inr (wd_server w)" by (auto simp: watch_start_def)
  with exec_ops_evolves versions_ok_new have "versions_ok (wd_server w)" by blast
  with start show ?thesis by (auto simp: watch_inv_def watch_start_def versions_ok_def)
qed

interpretation watch: invariant_system watch_start "watch_step name" "watch_inv name" for name
  by unfold_locales (auto intro: watch_inv_start watch_inv_step)

section \<open>Cancelled watches\<close>

text \<open>
  A cancelled watch that has gone to sleep stays in the loop of \<^verbatim>\<open>cv.wait\<close>, and leaves it only when the
  version of the parameter has passed the version it sleeps on.
\<close>

definition lingering :: "string \<Rightarrow> nat \<Rightarrow> 'b watched \<Rightarrow> bool" where
  "lingering name v w \<longleftrightarrow> versions_ok (wd_server w) \<and> wd_cancelled w \<and> v \<le> ps_version (wd_server w) name \<and>
     (wd_pc w \<in> {W_Sleep v, W_Check v, W_Enter v} \<or> wd_pc w \<in> {W_Top v, W_Done v} \<and> v < ps_version (wd_server w) name)"

lemma lingering_step:
  assumes "lingering name v w" and "watch_step name w w'"
  shows "lingering name v w'"
  using assms(2)
proof cases
  case (change x s)
  have "versions_ok (wd_server w)" using assms(1) by (simp add: lingering_def)
  with exec_op_evolves [OF change(2)] have "evolves name (wd_server w) s" "versions_ok s" by blast+
  with assms(1) show ?thesis by (auto simp: change(1) lingering_def evolves_def)
qed (use assms(1) in \<open>auto simp: lingering_def notify_def wait_pred_def split: watch_pc.splits\<close>)

lemma lingering_run: "(watch_step name)\<^sup>*\<^sup>* w w' \<Longrightarrow> lingering name v w \<Longrightarrow> lingering name v w'"
  by (induction rule: rtranclp_induct) (auto intro: lingering_step)

text \<open>Once the parameter has changed, the watch ends, whatever it was doing, when it is woken up.\<close>

lemma watch_wakes: "wd_pc w = W_Sleep v \<Longrightarrow> watch_step name w (w\<lparr>wd_pc := W_Check v\<rparr>)"
  using watch_step.wake [of name w] by (simp add: notify_def)

lemma lingering_ends:
  assumes "lingering name v w" and "v < ps_version (wd_server w) name"
  shows "(watch_step name)\<^sup>*\<^sup>* w (w\<lparr>wd_pc := W_Done v\<rparr>)"
proof -
  have "versions_ok (wd_server w)" using assms(1) by (simp add: lingering_def)
  then have "ps_params (wd_server w) name \<noteq> None" using assms(2) unfolding versions_ok_def by (metis less_nat_zero_code)
  then have pred: "wait_pred name v (wd_server w)"
    using assms(2) by (simp add: wait_pred_def ParamRPCServerImpl_find_param_def)
  have top: "(watch_step name)\<^sup>*\<^sup>* (w\<lparr>wd_pc := W_Top v\<rparr>) (w\<lparr>wd_pc := W_Done v\<rparr>)"
    using watch_step.stop [of "w\<lparr>wd_pc := W_Top v\<rparr>" v name] assms(1) by (auto simp: lingering_def)
  have check: "(watch_step name)\<^sup>*\<^sup>* (w\<lparr>wd_pc := W_Check v\<rparr>) (w\<lparr>wd_pc := W_Done v\<rparr>)"
    using watch_step.again [of "w\<lparr>wd_pc := W_Check v\<rparr>" v name] pred top
    by (auto intro: converse_rtranclp_into_rtranclp)
  have sleep: "(watch_step name)\<^sup>*\<^sup>* (w\<lparr>wd_pc := W_Sleep v\<rparr>) (w\<lparr>wd_pc := W_Done v\<rparr>)"
    using watch_wakes [of "w\<lparr>wd_pc := W_Sleep v\<rparr>" v name] check by (auto intro: converse_rtranclp_into_rtranclp)
  have enter: "(watch_step name)\<^sup>*\<^sup>* (w\<lparr>wd_pc := W_Enter v\<rparr>) (w\<lparr>wd_pc := W_Done v\<rparr>)"
    using watch_step.block [of "w\<lparr>wd_pc := W_Enter v\<rparr>" v name] sleep by (auto intro: converse_rtranclp_into_rtranclp)
  have same: "w\<lparr>wd_pc := wd_pc w\<rparr> = w" by simp
  from assms(1) consider "wd_pc w = W_Sleep v" | "wd_pc w = W_Check v" | "wd_pc w = W_Enter v" | "wd_pc w = W_Top v" | "wd_pc w = W_Done v"
    by (auto simp: lingering_def)
  then show ?thesis using sleep check enter top same by cases (metis rtranclp.rtrancl_refl)+
qed

section \<open>The invariant of the club\<close>

definition client_ok :: "('b, 'c) ParamRPCClient \<Rightarrow> bool" where
  "client_ok c \<longleftrightarrow> distinct (pc_streams c) \<and> set (pc_streams c) = dom (pc_get_replies c)"

text \<open>The callback that a list of requests leaves for a parameter: the one that was registered last.\<close>

abbreviation last_cb :: "(string \<times> 'c) list \<Rightarrow> string \<rightharpoonup> 'c" where
  "last_cb rs \<equiv> map_of (rev rs)"

definition serves :: "(string \<times> 'c) list \<Rightarrow> ('b, 'c) ParamRPCClient \<Rightarrow> bool" where
  "serves rs c \<longleftrightarrow> (\<forall>n cb. last_cb rs n = Some cb \<longrightarrow>
     (\<exists>slot. pc_get_replies c n = Some slot \<and> slot_cb slot = Some cb))"

definition pclub_inv :: "('b, 'c) ParamRPCClientClub \<Rightarrow> bool" where
  "pclub_inv k \<longleftrightarrow> (\<forall>ns addr c. pclub_clients k ns = Some (addr, c) \<longrightarrow> client_ok c \<and> serves (pclub_queue k ns) c)"

lemma getRemoteParam_client_ok: "client_ok c \<Longrightarrow> client_ok (snd (ParamRPCClient_getRemoteParam n cb c))"
  by (auto simp: client_ok_def ParamRPCClient_getRemoteParam_def Let_def split: option.splits)

lemma getRemoteParam_serves:
  assumes "serves rs c"
  shows "serves (rs @ [(n, cb)]) (snd (ParamRPCClient_getRemoteParam n (Some cb) c))"
    and "serves rs (snd (ParamRPCClient_getRemoteParam n None c))"
proof -
  show "serves (rs @ [(n, cb)]) (snd (ParamRPCClient_getRemoteParam n (Some cb) c))"
    using assms by (cases "pc_get_replies c n")
      (auto simp: serves_def ParamRPCClient_getRemoteParam_def ParamSlot_new_def Let_def)
  show "serves rs (snd (ParamRPCClient_getRemoteParam n None c))"
    using assms by (cases "pc_get_replies c n")
      (fastforce simp: serves_def ParamRPCClient_getRemoteParam_def)+
qed

lemma replay_requests_ok:
  "client_ok c \<Longrightarrow> serves rs0 c \<Longrightarrow> client_ok (replay_requests rs c) \<and> serves (rs0 @ rs) (replay_requests rs c)"
proof (induction rs c arbitrary: rs0 rule: replay_requests.induct)
  case (2 name cb rs c)
  from "2.IH" [OF getRemoteParam_client_ok [OF "2.prems"(1)] getRemoteParam_serves(1) [OF "2.prems"(2)]]
  show ?case by simp
qed simp

lemma client_ok_new: "client_ok ParamRPCClient_new" "serves [] ParamRPCClient_new"
  by (simp_all add: client_ok_def serves_def ParamRPCClient_new_def)

lemma pclub_inv_add: "pclub_inv k \<Longrightarrow> pclub_inv (ParamRPCClientClub_add_client ns addr k)"
  using replay_requests_ok [OF client_ok_new, of "pclub_queue k ns"]
  by (auto simp: pclub_inv_def ParamRPCClientClub_add_client_def)

lemma pclub_inv_delete: "pclub_inv k \<Longrightarrow> pclub_inv (ParamRPCClientClub_delete_client ns k)"
  by (auto simp: pclub_inv_def ParamRPCClientClub_delete_client_def)

interpretation pclub: client_club ParamRPCClientClub_add_client ParamRPCClientClub_delete_client
    "\<lambda>k ns. map_option fst (pclub_clients k ns)" pclub_inv
  by unfold_locales
    (simp_all add: pclub_inv_add pclub_inv_delete,
     simp_all add: ParamRPCClientClub_add_client_def ParamRPCClientClub_delete_client_def fun_eq_iff)

text \<open>What the discovery thread and the application do to the club; replies arrive in between.\<close>

inductive pclub_step :: "('b, 'c) ParamRPCClientClub \<Rightarrow> ('b, 'c) ParamRPCClientClub \<Rightarrow> bool" where
  add: "pclub_step k (ParamRPCClientClub_add_client ns addr k)"
| delete: "pclub_step k (ParamRPCClientClub_delete_client ns k)"
| get: "pclub_step k (snd (ParamRPCClientClub_getRemoteRequest name ns k))"
| get_cb: "pclub_step k (snd (ParamRPCClientClub_getRemoteRequest_cb name cb ns k))"
| reply: "pclub_clients k ns = Some (addr, c) \<Longrightarrow> ParamRPCClient_receive name r c = Inr (c', calls) \<Longrightarrow>
    pclub_step k (k\<lparr>pclub_clients := (pclub_clients k)(ns \<mapsto> (addr, c'))\<rparr>)"

lemma receive_ok:
  assumes "ParamRPCClient_receive name r c = Inr (c', calls)"
  shows "client_ok c \<Longrightarrow> client_ok c'" and "serves rs c \<Longrightarrow> serves rs c'"
  using assms
  by (fastforce simp: ParamRPCClient_receive_def ParamSlot_set_def client_ok_def serves_def Let_def
      split: option.splits if_splits)+

lemma pclub_inv_step:
  assumes "pclub_inv k" and "pclub_step k k'"
  shows "pclub_inv k'"
  using assms(2)
proof cases
  case (get name ns)
  show ?thesis
  proof (cases "pclub_clients k ns")
    case None
    with get assms(1) show ?thesis by (simp add: ParamRPCClientClub_getRemoteRequest_def)
  next
    case (Some ac)
    then obtain addr c where c: "pclub_clients k ns = Some (addr, c)" by (cases ac) simp
    with assms(1) have "client_ok c" "serves (pclub_queue k ns) c" by (auto simp: pclub_inv_def)
    with getRemoteParam_client_ok [of c name None] getRemoteParam_serves(2) [of _ c name] get c assms(1)
    show ?thesis by (auto simp: pclub_inv_def ParamRPCClientClub_getRemoteRequest_def Let_def split: prod.splits)
  qed
next
  case (get_cb name cb ns)
  show ?thesis
  proof (cases "pclub_clients k ns")
    case None
    with get_cb assms(1) show ?thesis by (auto simp: pclub_inv_def ParamRPCClientClub_getRemoteRequest_cb_def Let_def)
  next
    case (Some ac)
    then obtain addr c where c: "pclub_clients k ns = Some (addr, c)" by (cases ac) simp
    with assms(1) have "client_ok c" "serves (pclub_queue k ns) c" by (auto simp: pclub_inv_def)
    with getRemoteParam_client_ok [of c name "Some cb"] getRemoteParam_serves(1) [of _ c name cb] get_cb c assms(1)
    show ?thesis by (auto simp: pclub_inv_def ParamRPCClientClub_getRemoteRequest_cb_def Let_def split: prod.splits)
  qed
next
  case (reply ns addr c name r c' calls)
  with assms(1) receive_ok [OF reply(3)] show ?thesis by (auto simp: pclub_inv_def)
qed (use assms(1) in \<open>auto intro: pclub_inv_add pclub_inv_delete\<close>)

lemma pclub_inv_new: "pclub_inv ParamRPCClientClub_new"
  by (simp add: pclub_inv_def ParamRPCClientClub_new_def)

interpretation pclub_run: invariant_system "\<lambda>k. k = ParamRPCClientClub_new" pclub_step pclub_inv
  by unfold_locales (auto intro: pclub_inv_new pclub_inv_step)

text \<open>Programs that use every name with one type; a remote assignment may carry any type.\<close>

fun op_typed :: "(string \<Rightarrow> string) \<Rightarrow> 'b param_op \<Rightarrow> bool" where
  "op_typed \<Gamma> (Declare n v c) \<longleftrightarrow> any_type v = \<Gamma> n"
| "op_typed \<Gamma> (Set n v) \<longleftrightarrow> any_type v = \<Gamma> n"
| "op_typed \<Gamma> (Set_Remote n v) \<longleftrightarrow> True"

definition params_typed :: "(string \<Rightarrow> string) \<Rightarrow> 'b ParamRPCServerImpl \<Rightarrow> bool" where
  "params_typed \<Gamma> s \<longleftrightarrow> (\<forall>n p. ps_params s n = Some p \<longrightarrow> any_type p = \<Gamma> n)"

lemma exec_op_typed: "params_typed \<Gamma> s \<Longrightarrow> op_typed \<Gamma> x \<Longrightarrow> \<exists>s'. exec_op x s = Inr s' \<and> params_typed \<Gamma> s'"
  by (cases x) (auto simp: params_typed_def ParamRPCServerImpl_declare_def ParamRPCServerImpl_set_def
      ParamRPCServerImpl_setRemoteParam_def Parameter_setRemoteValue_def split: option.splits)

lemma exec_ops_typed:
  "params_typed \<Gamma> s \<Longrightarrow> \<forall>x\<in>set xs. op_typed \<Gamma> x \<Longrightarrow> \<exists>s'. exec_ops xs s = Inr s' \<and> params_typed \<Gamma> s'"
proof (induction xs arbitrary: s)
  case (Cons x xs)
  obtain s1 where "exec_op x s = Inr s1" "params_typed \<Gamma> s1"
    using exec_op_typed [OF Cons.prems(1)] Cons.prems(2) by auto
  with Cons.IH [of s1] Cons.prems(2) show ?case by simp
qed simp

section \<open>Properties\<close>

text \<open>
  C31: a constant is constant.  Once a parameter has been declared as a constant, no sequence of
  declarations, local and remote assignments changes its value or its version, and a remote assignment
  is answered with \<^verbatim>\<open>NOT_CHANGEABLE\<close>.
\<close>

theorem constant_parameter_fixed:
  assumes "exec_ops before ParamRPCServerImpl_new = Inr s" and "\<not> ParamRPCServerImpl_find_param n s"
    and "exec_ops xs (ParamRPCServerImpl_declare n v True s) = Inr s'"
  shows "ps_params s' n = Some v \<and> ps_version s' n = 1 \<and>
    ParamRPCServerImpl_setRemoteParam n w s' = (NOT_CHANGEABLE, s')"
proof -
  let ?d = "ParamRPCServerImpl_declare n v True s"
  have "versions_ok s" using exec_ops_evolves [OF assms(1) versions_ok_new] by blast
  then have "versions_ok ?d" using exec_op_evolves(2) [of "Declare n v True" s ?d] by simp
  with assms(3) have "evolves n ?d s'" using exec_ops_evolves by blast
  moreover have "ps_params ?d n = Some v" "n \<in> ps_const ?d" "ps_version ?d n = 1"
    using assms(2) by (simp_all add: ParamRPCServerImpl_declare_def)
  ultimately show ?thesis
    by (auto simp: evolves_def ParamRPCServerImpl_setRemoteParam_def ParamRPCServerImpl_is_const_def)
qed

definition int_val :: "int \<Rightarrow> int any_value" where
  "int_val i = \<lparr>any_type = ''std_msgs.Int32'', any_payload = i\<rparr>"

definition str_val :: "int \<Rightarrow> int any_value" where
  "str_val i = \<lparr>any_type = ''std_msgs.String'', any_payload = i\<rparr>"

lemmas demo_param = int_val_def str_val_def ParamRPCServerImpl_declare_def ParamRPCServerImpl_find_param_def
  ParamRPCServerImpl_new_def ParamRPCServerImpl_set_def ParamRPCServerImpl_is_const_def
  ParamRPCServerImpl_setRemoteParam_def Parameter_setRemoteValue_def

theorem constant_parameter_fixed_witness:
  "\<exists>s'. exec_ops [Set ''k'' (int_val 9), Set_Remote ''k'' (int_val 8)]
       (ParamRPCServerImpl_declare ''k'' (int_val 7) True ParamRPCServerImpl_new) = Inr s' \<and>
     ps_params s' ''k'' = Some (int_val 7)"
proof -
  let ?s = "ParamRPCServerImpl_declare ''k'' (int_val 7) True ParamRPCServerImpl_new"
  have "exec_ops [] ParamRPCServerImpl_new = Inr (ParamRPCServerImpl_new :: int ParamRPCServerImpl)"
    "\<not> ParamRPCServerImpl_find_param ''k'' (ParamRPCServerImpl_new :: int ParamRPCServerImpl)"
    by (simp_all add: demo_param)
  moreover have run: "exec_ops [Set ''k'' (int_val 9), Set_Remote ''k'' (int_val 8)] ?s = Inr ?s"
    by (simp add: demo_param)
  ultimately have "ps_params ?s ''k'' = Some (int_val 7) \<and> ps_version ?s ''k'' = 1 \<and>
      ParamRPCServerImpl_setRemoteParam ''k'' (int_val 6) ?s = (NOT_CHANGEABLE, ?s)"
    by (rule constant_parameter_fixed)
  with run show ?thesis by blast
qed

text \<open>
  C32: parameters are type safe.  A program that uses every parameter name with one type never downcasts
  a parameter to a wrong type: every sequence of its declarations and assignments, mixed with
  remote assignments of any type by other nodes, is executed; afterwards every parameter still has its
  type, and reading a parameter with that type succeeds.
\<close>

theorem parameters_type_safe:
  assumes "\<forall>x\<in>set xs. op_typed \<Gamma> x"
  shows "\<exists>s. exec_ops xs ParamRPCServerImpl_new = Inr s \<and> (\<forall>n p. ps_params s n = Some p \<longrightarrow> any_type p = \<Gamma> n) \<and>
    (\<forall>n. ParamRPCServerImpl_get (\<Gamma> n) n s = Inr (ps_params s n))"
proof -
  have "params_typed \<Gamma> ParamRPCServerImpl_new" by (simp add: params_typed_def ParamRPCServerImpl_new_def)
  from exec_ops_typed [OF this assms] obtain s where "exec_ops xs ParamRPCServerImpl_new = Inr s" "params_typed \<Gamma> s" by blast
  then show ?thesis
    by (intro exI [of _ s]) (auto simp: params_typed_def ParamRPCServerImpl_get_def split: option.split)
qed

theorem parameters_type_safe_witness:
  "\<exists>s. exec_ops [Declare ''k'' (int_val 7) False, Set_Remote ''k'' (str_val 8), Set ''k'' (int_val 9)] ParamRPCServerImpl_new = Inr s \<and>
     ParamRPCServerImpl_get ''std_msgs.Int32'' ''k'' s = Inr (Some (int_val 9))"
proof -
  let ?xs = "[Declare ''k'' (int_val 7) False, Set_Remote ''k'' (str_val 8), Set ''k'' (int_val 9)]"
  have "\<forall>x\<in>set ?xs. op_typed (\<lambda>n. ''std_msgs.Int32'') x" by (simp add: int_val_def)
  from parameters_type_safe [OF this] show ?thesis by (auto simp: demo_param)
qed

text \<open>
  C28: a watch tells the truth.  Under any interleaving of the actions of a \<^verbatim>\<open>getRemoteParam\<close> call with
  changes of parameters and wake-ups, whenever the call is blocked, or about to block, with the current
  version of a declared parameter, the last reply it has written holds the parameter's current value;
  its version is never ahead of the parameter's.
\<close>

theorem watch_up_to_date:
  assumes "watch_start w0" and "(watch_step name)\<^sup>*\<^sup>* w0 w" and "wd_pc w = W_Sleep v \<or> wd_pc w = W_Enter v"
  shows "v \<le> ps_version (wd_server w) name \<and>
    (\<forall>p. ps_params (wd_server w) name = Some p \<longrightarrow> v = ps_version (wd_server w) name \<longrightarrow>
       wd_sent w \<noteq> [] \<and> last (wd_sent w) = \<lparr>gr_status = NORMAL, gr_payload = Some p\<rparr>)"
  using watch.reachable_inv [OF assms(1,2)] assms(3) by (auto simp: watch_inv_def)

text \<open>A watch on a parameter \<^verbatim>\<open>gain\<close> with the value 7, from the call to the point where it is about to block.\<close>

definition demo_params :: "int ParamRPCServerImpl" where
  "demo_params = ParamRPCServerImpl_declare ''gain'' (int_val 7) False ParamRPCServerImpl_new"

definition demo_watch :: "int ParamRPCServerImpl \<Rightarrow> watch_pc \<Rightarrow> int watched" where
  "demo_watch s pc = \<lparr>wd_server = s, wd_pc = pc, wd_sent = [\<lparr>gr_status = NORMAL, gr_payload = Some (int_val 7)\<rparr>],
     wd_cancelled = False\<rparr>"

lemma demo_watch_start: "watch_start \<lparr>wd_server = demo_params, wd_pc = W_Top 0, wd_sent = [], wd_cancelled = False\<rparr>"
  unfolding watch_start_def
  by (intro conjI exI [of _ "[Declare ''gain'' (int_val 7) False]"]) (simp_all add: demo_params_def)

lemma demo_watch_enter:
  "(watch_step ''gain'')\<^sup>*\<^sup>* \<lparr>wd_server = demo_params, wd_pc = W_Top 0, wd_sent = [], wd_cancelled = False\<rparr> (demo_watch demo_params (W_Enter 1))"
proof -
  let ?w0 = "\<lparr>wd_server = demo_params, wd_pc = W_Top 0, wd_sent = [], wd_cancelled = False\<rparr>"
  let ?w1 = "\<lparr>wd_server = demo_params, wd_pc = W_Read 1, wd_sent = [], wd_cancelled = False\<rparr>"
  have p: "ps_params demo_params ''gain'' = Some (int_val 7)" "ps_version demo_params ''gain'' = 1"
    by (simp_all add: demo_params_def demo_param)
  have "watch_step ''gain'' ?w0 ?w1"
    using watch_step.load [of ?w0 0 "''gain''"] p by (simp add: ParamRPCServerImpl_find_param_def)
  moreover have "watch_step ''gain'' ?w1 (demo_watch demo_params (W_Check 1))"
    using watch_step.reply [of ?w1 1 "''gain''" "int_val 7"] p by (simp add: demo_watch_def Parameter_getRemoteValue_def)
  moreover have "watch_step ''gain'' (demo_watch demo_params (W_Check 1)) (demo_watch demo_params (W_Enter 1))"
    using watch_step.enter [of "demo_watch demo_params (W_Check 1)" 1 "''gain''"] p
    by (simp add: demo_watch_def wait_pred_def)
  ultimately show ?thesis by (meson converse_rtranclp_into_rtranclp rtranclp.rtrancl_refl)
qed

theorem watch_up_to_date_witness:
  "last (wd_sent (demo_watch demo_params (W_Enter 1))) = \<lparr>gr_status = NORMAL, gr_payload = Some (int_val 7)\<rparr>"
  using watch_up_to_date [OF demo_watch_start demo_watch_enter, of 1]
  by (simp add: demo_watch_def demo_params_def demo_param)

text \<open>
  A wake-up can be lost.  Whoever changes a parameter notifies without holding the mutex of the
  condition variable.  If the change and its notification fall between the evaluation of the predicate
  and the blocking of a watch, the watch blocks on an outdated version: there is a run after which the
  watcher sleeps, the last reply it was sent is the old value, and no notification is under way.
\<close>

lemma watch_lost_wakeup:
  "\<exists>s. exec_op (Set ''gain'' (int_val 8)) demo_params = Inr s \<and> ps_params s ''gain'' = Some (int_val 8) \<and>
     (watch_step ''gain'')\<^sup>*\<^sup>* (demo_watch demo_params (W_Enter 1)) (demo_watch s (W_Sleep 1)) \<and>
     (watch_step ''gain'')\<^sup>*\<^sup>* \<lparr>wd_server = demo_params, wd_pc = W_Top 0, wd_sent = [], wd_cancelled = False\<rparr> (demo_watch s (W_Sleep 1)) \<and>
     last (wd_sent (demo_watch s (W_Sleep 1))) = \<lparr>gr_status = NORMAL, gr_payload = Some (int_val 7)\<rparr>"
proof -
  let ?s = "demo_params\<lparr>ps_params := (ps_params demo_params)(''gain'' \<mapsto> int_val 8), ps_version := (ps_version demo_params)(''gain'' := 2)\<rparr>"
  have set: "exec_op (Set ''gain'' (int_val 8)) demo_params = Inr ?s"
    by (simp add: demo_params_def demo_param numeral_2_eq_2)
  have "watch_step ''gain'' (demo_watch demo_params (W_Enter 1)) (demo_watch ?s (W_Enter 1))"
    using watch_step.change [of "Set ''gain'' (int_val 8)" "demo_watch demo_params (W_Enter 1)" ?s "''gain''"] set
    by (simp add: demo_watch_def)
  moreover have "watch_step ''gain'' (demo_watch ?s (W_Enter 1)) (demo_watch ?s (W_Enter 1))"
    using watch_step.wake [of "''gain''" "demo_watch ?s (W_Enter 1)"] by (simp add: demo_watch_def notify_def)
  moreover have "watch_step ''gain'' (demo_watch ?s (W_Enter 1)) (demo_watch ?s (W_Sleep 1))"
    using watch_step.block [of "demo_watch ?s (W_Enter 1)" 1 "''gain''"] by (simp add: demo_watch_def)
  ultimately have "(watch_step ''gain'')\<^sup>*\<^sup>* (demo_watch demo_params (W_Enter 1)) (demo_watch ?s (W_Sleep 1))"
    by (meson converse_rtranclp_into_rtranclp rtranclp.rtrancl_refl)
  with demo_watch_enter set show ?thesis
    by (intro exI [of _ ?s]) (auto simp: demo_watch_def intro: rtranclp_trans)
qed

text \<open>
  An assignment of the wrong type is reported as done.  A remote assignment whose payload has
  another message type than the parameter is answered with \<^verbatim>\<open>NORMAL\<close> and wakes every watch, but the value
  stays what it was.
\<close>

lemma set_remote_wrong_type_normal:
  assumes "ps_params s n = Some p" and "n \<notin> ps_const s" and "any_type v \<noteq> any_type p"
  shows "\<exists>s'. ParamRPCServerImpl_setRemoteParam n v s = (NORMAL, s') \<and> ps_params s' n = Some p \<and>
    ps_version s' n = ps_version s n + 1"
  using assms
  by (simp add: ParamRPCServerImpl_setRemoteParam_def ParamRPCServerImpl_is_const_def Parameter_setRemoteValue_def)



text \<open>
  Registering a callback forgets the value.  When the client already knows a parameter and a
  callback is registered for it, the slot with the last value is replaced by an empty one and no new
  stream is started: the request and every later request without callback are answered with
  \<^verbatim>\<open>TMEP_NOT_AVALIABLE\<close> until the parameter changes on the server.
\<close>

lemma callback_discards_value:
  assumes "pc_get_replies c n = Some slot" and "gr_status (slot_data slot) = NORMAL"
  shows "\<exists>c'. ParamRPCClient_getRemoteParam n (Some cb) c = (not_available, c') \<and>
    pc_streams c' = pc_streams c \<and> ParamRPCClient_getRemoteParam n None c' = (not_available, c')"
  using assms
  by (auto simp: ParamRPCClient_getRemoteParam_def ParamSlot_get_def ParamSlot_new_def Let_def)

text \<open>
  A local watch can settle on an old value.  The thread of \<^verbatim>\<open>get\<close> with a callback reads the value before
  it loads the version.  A change that falls between the two is never reported: there is a run of the
  thread on a declared parameter after which it sleeps, the callback has been called with the old value
  only, and the version it waits to see change is already the current one, so that no wake-up helps.
\<close>

lemma local_watch_misses_change:
  "\<exists>s. exec_op (Set ''gain'' (int_val 8)) demo_params = Inr s \<and> ps_params s ''gain'' = Some (int_val 8) \<and>
     (local_step ''std_msgs.Int32'' ''gain'')\<^sup>*\<^sup>* (snd (ParamRPCServerImpl_get_cb demo_params))
       \<lparr>lw_server = s, lw_pc = L_Sleep 2, lw_calls = [int_val 7]\<rparr> \<and> \<not> wait_pred ''gain'' 2 s"
proof -
  let ?s = "demo_params\<lparr>ps_params := (ps_params demo_params)(''gain'' \<mapsto> int_val 8), ps_version := (ps_version demo_params)(''gain'' := 2)\<rparr>"
  let ?st = "local_step ''std_msgs.Int32'' ''gain'' :: int local_watched \<Rightarrow> int local_watched \<Rightarrow> bool"
  let ?w = "\<lambda>s pc calls. \<lparr>lw_server = s, lw_pc = pc, lw_calls = calls\<rparr>"
  have set: "exec_op (Set ''gain'' (int_val 8)) demo_params = Inr ?s"
    by (simp add: demo_params_def demo_param numeral_2_eq_2)
  have get: "ParamRPCServerImpl_get ''std_msgs.Int32'' ''gain'' demo_params = Inr (Some (int_val 7))"
    by (simp add: ParamRPCServerImpl_get_def demo_params_def demo_param)
  have "?st (?w demo_params (L_Top 0) []) (?w demo_params (L_Got 0 (int_val 7)) [])"
    using local_step.got [of "?w demo_params (L_Top 0) []" 0] get by simp
  moreover have "?st (?w demo_params (L_Got 0 (int_val 7)) []) (?w ?s (L_Got 0 (int_val 7)) [])"
    using local_step.change [of "Set ''gain'' (int_val 8)" "?w demo_params (L_Got 0 (int_val 7)) []" ?s] set by simp
  moreover have "?st (?w ?s (L_Got 0 (int_val 7)) []) (?w ?s (L_Check 2) [int_val 7])"
    using local_step.call [of "?w ?s (L_Got 0 (int_val 7)) []" 0 "int_val 7" "''std_msgs.Int32''" "''gain''"] by simp
  moreover have "?st (?w ?s (L_Check 2) [int_val 7]) (?w ?s (L_Enter 2) [int_val 7])"
    using local_step.enter [of "?w ?s (L_Check 2) [int_val 7]" 2 "''gain''"] by (simp add: wait_pred_def)
  moreover have "?st (?w ?s (L_Enter 2) [int_val 7]) (?w ?s (L_Sleep 2) [int_val 7])"
    using local_step.block [of "?w ?s (L_Enter 2) [int_val 7]" 2] by simp
  ultimately have "?st\<^sup>*\<^sup>* (?w demo_params (L_Top 0) []) (?w ?s (L_Sleep 2) [int_val 7])"
    by (meson converse_rtranclp_into_rtranclp rtranclp.rtrancl_refl)
  with set show ?thesis by (intro exI [of _ ?s]) (simp add: wait_pred_def ParamRPCServerImpl_get_cb_def)
qed



end
