(* ===== verification/Param_Local.thy ===== *)
theory Param_Local
  imports Param_RPC
begin

text \<open>
  The watch of a parameter of the own node: the thread that \<^verbatim>\<open>ParamRPCServerImpl::get\<close> starts for a callback
  (\<^verbatim>\<open>ParamRPC.hpp\<close>, \<open>local_step\<close> in \<^verbatim>\<open>Param_RPC\<close>).  The thread reads the value before it loads the version, and a change of
  the parameter between the two is missed (\<open>local_watch_misses_change\<close>).  Here is what it guarantees when none
  falls there.
\<close>

section \<open>The invariant\<close>

fun local_version :: "'b local_pc \<Rightarrow> nat" where
  "local_version (L_Top v) = v"
| "local_version (L_Got v p) = v"
| "local_version (L_Check v) = v"
| "local_version (L_Enter v) = v"
| "local_version (L_Sleep v) = v"

fun local_got :: "'b local_pc \<Rightarrow> 'b any_value option" where
  "local_got (L_Got v p) = Some p"
| "local_got _ = None"

definition local_start :: "'b local_watched \<Rightarrow> bool" where
  "local_start w \<longleftrightarrow> (\<exists>xs s. exec_ops xs ParamRPCServerImpl_new = Inr s \<and> w = snd (ParamRPCServerImpl_get_cb s))"

text \<open>A step that does not change the parameter between the two accesses.\<close>

definition local_calm :: "string \<Rightarrow> string \<Rightarrow> 'b local_watched \<Rightarrow> 'b local_watched \<Rightarrow> bool" where
  "local_calm ty name w w' \<longleftrightarrow> local_step ty name w w' \<and>
     (local_got (lw_pc w) \<noteq> None \<longrightarrow> ps_params (lw_server w') name = ps_params (lw_server w) name)"

definition local_inv :: "string \<Rightarrow> 'b local_watched \<Rightarrow> bool" where
  "local_inv name w \<longleftrightarrow>
     versions_ok (lw_server w) \<and> local_version (lw_pc w) \<le> ps_version (lw_server w) name \<and>
     (\<forall>p. local_got (lw_pc w) = Some p \<longrightarrow> ps_params (lw_server w) name = Some p) \<and>
     (\<forall>p. ps_params (lw_server w) name = Some p \<longrightarrow> local_got (lw_pc w) = None \<longrightarrow>
        local_version (lw_pc w) = ps_version (lw_server w) name \<longrightarrow> lw_calls w \<noteq> [] \<and> last (lw_calls w) = p)"

lemma local_inv_change:
  assumes "local_inv name w" and "exec_op x (lw_server w) = Inr s"
    and "local_got (lw_pc w) \<noteq> None \<Longrightarrow> ps_params s name = ps_params (lw_server w) name"
  shows "local_inv name (w\<lparr>lw_server := s\<rparr>)"
proof -
  have ok: "versions_ok (lw_server w)" using assms(1) by (simp add: local_inv_def)
  note ev = exec_op_evolves [OF assms(2) ok]
  have "ps_version (lw_server w) name \<le> ps_version s name" using ev(1) [of name] by (simp add: evolves_def)
  moreover have "ps_params s name = ps_params (lw_server w) name" if "local_version (lw_pc w) = ps_version s name"
    using exec_op_same_version [OF assms(2) ok] that calculation assms(1) by (simp add: local_inv_def)
  ultimately show ?thesis using assms(1,3) ev(2) by (auto simp: local_inv_def)
qed

lemma local_inv_step:
  assumes "local_inv name w" and "local_calm ty name w w'"
  shows "local_inv name w'"
proof -
  have calm: "local_got (lw_pc w) \<noteq> None \<Longrightarrow> ps_params (lw_server w') name = ps_params (lw_server w) name"
    and "local_step ty name w w'" using assms(2) by (auto simp: local_calm_def)
  from this(2) show ?thesis
  proof cases
    case (got v p)
    with assms(1) show ?thesis
      by (auto simp: local_inv_def ParamRPCServerImpl_get_def Parameter_get_def split: option.splits if_splits)
  next
    case (missing v)
    with assms(1) show ?thesis by (auto simp: local_inv_def ParamRPCServerImpl_get_def split: option.splits if_splits)
  next
    case (change x s)
    with local_inv_change [OF assms(1)] calm show ?thesis by auto
  next
    case wake
    with assms(1) show ?thesis by (cases "lw_pc w") (auto simp: local_inv_def notify_local_def)
  qed (use assms(1) in \<open>auto simp: local_inv_def\<close>)
qed

interpretation local_watch: invariant_system local_start "local_calm ty name" "local_inv name" for ty name
proof unfold_locales
  show "local_inv name w" if "local_start w" for w :: "'b local_watched"
  proof -
    from that obtain xs s where s: "exec_ops xs ParamRPCServerImpl_new = Inr s" and w: "w = snd (ParamRPCServerImpl_get_cb s)"
      by (auto simp: local_start_def)
    from s exec_ops_evolves versions_ok_new have "versions_ok s" by blast
    with w show ?thesis by (auto simp: local_inv_def ParamRPCServerImpl_get_cb_def versions_ok_def)
  qed
qed (rule local_inv_step)

text \<open>A wake-up of a thread that sleeps on an old version leads to a call with the current value.\<close>

lemma local_woken:
  assumes "lw_pc w = L_Sleep v" and "v \<noteq> ps_version (lw_server w) name" and "ps_params (lw_server w) name = Some p" and "any_type p = ty"
  shows "(local_step ty name)\<^sup>*\<^sup>* w (w\<lparr>lw_pc := L_Check (ps_version (lw_server w) name), lw_calls := lw_calls w @ [p]\<rparr>)"
proof -
  have "local_step ty name w (w\<lparr>lw_pc := L_Check v\<rparr>)"
    using local_step.wake [of ty name w] assms(1) by (simp add: notify_local_def)
  moreover have "local_step ty name (w\<lparr>lw_pc := L_Check v\<rparr>) (w\<lparr>lw_pc := L_Top v\<rparr>)"
    using local_step.again [of "w\<lparr>lw_pc := L_Check v\<rparr>" v name ty] assms(2,3) by (simp add: wait_pred_def ParamRPCServerImpl_find_param_def)
  moreover have "local_step ty name (w\<lparr>lw_pc := L_Top v\<rparr>) (w\<lparr>lw_pc := L_Got v p\<rparr>)"
    using local_step.got [of "w\<lparr>lw_pc := L_Top v\<rparr>" v ty name p] assms(3,4) by (simp add: ParamRPCServerImpl_get_def Parameter_get_def)
  moreover have "local_step ty name (w\<lparr>lw_pc := L_Got v p\<rparr>)
      (w\<lparr>lw_pc := L_Check (ps_version (lw_server w) name), lw_calls := lw_calls w @ [p]\<rparr>)"
    using local_step.call [of "w\<lparr>lw_pc := L_Got v p\<rparr>" v p ty name] by simp
  ultimately show ?thesis by (meson converse_rtranclp_into_rtranclp rtranclp.rtrancl_refl)
qed

section \<open>Properties\<close>

text \<open>
  C29: a local watch tells the truth.  Take any run of the thread that \<^verbatim>\<open>get\<close> starts for a callback, beside any declarations, local
  and remote assignments and wake-ups, in which the parameter does not change between the thread's reading of the value and its
  loading of the version.  When the thread sleeps with the parameter's version, the last call of the callback had the
  current value; and when it sleeps with an older version, a wake-up leads to a call with the
  current value.
\<close>

theorem local_watch_up_to_date:
  assumes "local_start w0" and "(local_calm ty name)\<^sup>*\<^sup>* w0 w" and "lw_pc w = L_Sleep v"
    and "ps_params (lw_server w) name = Some p" and "any_type p = ty"
  shows "if v = ps_version (lw_server w) name then lw_calls w \<noteq> [] \<and> last (lw_calls w) = p
    else v < ps_version (lw_server w) name \<and>
      (\<exists>w'. (local_step ty name)\<^sup>*\<^sup>* w w' \<and> lw_server w' = lw_server w \<and> lw_calls w' = lw_calls w @ [p])"
proof -
  have inv: "local_inv name w" by (rule local_watch.reachable_inv [OF assms(1,2)])
  show ?thesis
  proof (cases "v = ps_version (lw_server w) name")
    case True
    with inv assms(3,4) show ?thesis by (simp add: local_inv_def)
  next
    case False
    with inv assms(3) have "v < ps_version (lw_server w) name" by (simp add: local_inv_def)
    with False local_woken [OF assms(3) False assms(4,5)] show ?thesis by fastforce
  qed
qed

theorem local_watch_up_to_date_witness:
  "\<exists>w :: int local_watched. lw_pc w = L_Sleep 1 \<and> lw_server w = demo_params \<and> lw_calls w \<noteq> [] \<and> last (lw_calls w) = int_val 7"
proof -
  let ?ty = "''std_msgs.Int32''" and ?n = "''gain''"
  let ?w = "\<lambda>pc calls. \<lparr>lw_server = demo_params, lw_pc = pc, lw_calls = calls\<rparr>"
  have p: "ps_params demo_params ?n = Some (int_val 7)" "ps_version demo_params ?n = 1" "any_type (int_val 7) = ?ty"
    "ParamRPCServerImpl_get ?ty ?n demo_params = Inr (Some (int_val 7))" "\<not> wait_pred ?n 1 demo_params"
    by (simp_all add: demo_params_def demo_param ParamRPCServerImpl_get_def wait_pred_def)
  have "local_calm ?ty ?n (?w (L_Top 0) []) (?w (L_Got 0 (int_val 7)) [])"
    using local_step.got [of "?w (L_Top 0) []" 0 ?ty ?n "int_val 7"] p by (simp add: local_calm_def)
  moreover have "local_calm ?ty ?n (?w (L_Got 0 (int_val 7)) []) (?w (L_Check 1) [int_val 7])"
    using local_step.call [of "?w (L_Got 0 (int_val 7)) []" 0 "int_val 7" ?ty ?n] p by (simp add: local_calm_def)
  moreover have "local_calm ?ty ?n (?w (L_Check 1) [int_val 7]) (?w (L_Enter 1) [int_val 7])"
    using local_step.enter [of "?w (L_Check 1) [int_val 7]" 1 ?n ?ty] p by (simp add: local_calm_def)
  moreover have "local_calm ?ty ?n (?w (L_Enter 1) [int_val 7]) (?w (L_Sleep 1) [int_val 7])"
    using local_step.block [of "?w (L_Enter 1) [int_val 7]" 1 ?ty ?n] by (simp add: local_calm_def)
  ultimately have run: "(local_calm ?ty ?n)\<^sup>*\<^sup>* (?w (L_Top 0) []) (?w (L_Sleep 1) [int_val 7])"
    by (meson converse_rtranclp_into_rtranclp rtranclp.rtrancl_refl)
  have start: "local_start (?w (L_Top 0) [])"
    unfolding local_start_def
    by (intro exI [of _ "[Declare ''gain'' (int_val 7) False]"] exI [of _ demo_params]) (simp add: demo_params_def ParamRPCServerImpl_get_cb_def)
  have "lw_calls (?w (L_Sleep 1) [int_val 7]) \<noteq> [] \<and> last (lw_calls (?w (L_Sleep 1) [int_val 7])) = int_val 7"
    using local_watch_up_to_date [OF start run, of 1 "int_val 7"] p by simp
  then show ?thesis by (intro exI [of _ "?w (L_Sleep 1) [int_val 7]"]) simp
qed

end
