(* ===== verification/Node_Handler.thy ===== *)
theory Node_Handler
  imports Registrar TCP_Server TCP_Client Param_RPC
begin

text \<open>
  \<^verbatim>\<open>cpp/src/rscl.cpp\<close>, \<^verbatim>\<open>cpp/include/rscl.hpp\<close> and \<^verbatim>\<open>cpp/src/NodeRegist.cpp\<close>: the node.

  A node keeps tables of the topics and services it offers and wants, a club of clients that pull
  connections from all other nodes, and the servers of the other theories.  Its registration thread
  turns the registrar's replies into additions and deletions of clients.  The remote procedures
  \<^verbatim>\<open>TopicConnection\<close> and \<^verbatim>\<open>ServiceConnection\<close> wait for a table entry: each is a function of what it observes
  at the moments when it looks.
\<close>

section \<open>The club of connection clients\<close>

record ConnectionRequest =
  rq_object :: string
  rq_ip :: string
  rq_port :: int
  rq_url :: string
  rq_node :: string

record ConnectionReply =
  rp_object :: string
  rp_ip :: string
  rp_port :: int
  rp_url :: string

definition empty_reply :: ConnectionReply where
  "empty_reply = \<lparr>rp_object = '''', rp_ip = '''', rp_port = 0, rp_url = ''''\<rparr>"

text \<open>A client is the list of the calls that it has started, each in a thread of its \<^verbatim>\<open>write_queue\<close>.\<close>

datatype conn_call = Topic_Call ConnectionRequest | Service_Call ConnectionRequest

type_synonym NodeConnectionClient = "conn_call list"

definition NodeConnectionClient_pull_subscribe_request ::
    "ConnectionRequest \<Rightarrow> NodeConnectionClient \<Rightarrow> NodeConnectionClient" where
  "NodeConnectionClient_pull_subscribe_request rq c = c @ [Topic_Call rq]"

definition NodeConnectionClient_pull_serving_service_request ::
    "ConnectionRequest \<Rightarrow> NodeConnectionClient \<Rightarrow> NodeConnectionClient" where
  "NodeConnectionClient_pull_serving_service_request rq c = c @ [Service_Call rq]"

record NodeConnectionClientClub =
  nclub_clients :: "string \<rightharpoonup> string \<times> NodeConnectionClient"   \<comment> \<open>with the address of the channel\<close>
  nclub_topic_requests :: "ConnectionRequest list"
  nclub_service_requests :: "ConnectionRequest list"

definition NodeConnectionClientClub_new :: NodeConnectionClientClub where
  "NodeConnectionClientClub_new = \<lparr>nclub_clients = Map.empty, nclub_topic_requests = [], nclub_service_requests = []\<rparr>"

definition NodeConnectionClientClub_add_client ::
    "string \<Rightarrow> string \<Rightarrow> NodeConnectionClientClub \<Rightarrow> NodeConnectionClientClub" where
  "NodeConnectionClientClub_add_client node rpc_srv_addr k =
     (let c1 = fold NodeConnectionClient_pull_subscribe_request (nclub_topic_requests k) [];
          c2 = fold NodeConnectionClient_pull_serving_service_request (nclub_service_requests k) c1
      in k\<lparr>nclub_clients := (nclub_clients k)(node \<mapsto> (rpc_srv_addr, c2))\<rparr>)"

definition NodeConnectionClientClub_delete_client ::
    "string \<Rightarrow> NodeConnectionClientClub \<Rightarrow> NodeConnectionClientClub" where
  "NodeConnectionClientClub_delete_client node k = k\<lparr>nclub_clients := (nclub_clients k)(node := None)\<rparr>"

definition NodeConnectionClientClub_pull_subscribe_request ::
    "string \<Rightarrow> string \<Rightarrow> string \<Rightarrow> int \<Rightarrow> string \<Rightarrow> NodeConnectionClientClub \<Rightarrow> NodeConnectionClientClub" where
  "NodeConnectionClientClub_pull_subscribe_request this_node topic ip port type_url k =
     (let rq = \<lparr>rq_object = topic, rq_ip = ip, rq_port = port, rq_url = type_url, rq_node = this_node\<rparr>
      in k\<lparr>nclub_topic_requests := nclub_topic_requests k @ [rq],
           nclub_clients := (\<lambda>n. map_option (apsnd (NodeConnectionClient_pull_subscribe_request rq)) (nclub_clients k n))\<rparr>)"

definition NodeConnectionClientClub_pull_serving_service_request ::
    "string \<Rightarrow> string \<Rightarrow> string \<Rightarrow> int \<Rightarrow> NodeConnectionClientClub \<Rightarrow> NodeConnectionClientClub" where
  "NodeConnectionClientClub_pull_serving_service_request this_node service ip port k =
     (let rq = \<lparr>rq_object = service, rq_ip = ip, rq_port = port, rq_url = '''', rq_node = this_node\<rparr>
      in k\<lparr>nclub_service_requests := nclub_service_requests k @ [rq],
           nclub_clients := (\<lambda>n. map_option (apsnd (NodeConnectionClient_pull_serving_service_request rq)) (nclub_clients k n))\<rparr>)"

text \<open>
  The invariant: every client has been given all topic requests and all service requests, in order,
  whether it came before or after them.
\<close>

fun topic_calls :: "conn_call list \<Rightarrow> ConnectionRequest list" where
  "topic_calls [] = []" | "topic_calls (Topic_Call r # cs) = r # topic_calls cs" | "topic_calls (Service_Call r # cs) = topic_calls cs"

fun service_calls :: "conn_call list \<Rightarrow> ConnectionRequest list" where
  "service_calls [] = []" | "service_calls (Service_Call r # cs) = r # service_calls cs" | "service_calls (Topic_Call r # cs) = service_calls cs"

definition nclub_inv :: "NodeConnectionClientClub \<Rightarrow> bool" where
  "nclub_inv k \<longleftrightarrow> (\<forall>n addr c. nclub_clients k n = Some (addr, c) \<longrightarrow>
     topic_calls c = nclub_topic_requests k \<and> service_calls c = nclub_service_requests k)"

lemma calls_append [simp]:
  "topic_calls (xs @ ys) = topic_calls xs @ topic_calls ys" "service_calls (xs @ ys) = service_calls xs @ service_calls ys"
  by (induction xs rule: topic_calls.induct) auto

lemma fold_pull [simp]:
  "fold NodeConnectionClient_pull_subscribe_request rs c = c @ map Topic_Call rs"
  "fold NodeConnectionClient_pull_serving_service_request rs c = c @ map Service_Call rs"
  by (induction rs arbitrary: c)
    (auto simp: NodeConnectionClient_pull_subscribe_request_def NodeConnectionClient_pull_serving_service_request_def)

lemma calls_map [simp]:
  "topic_calls (map Topic_Call rs) = rs" "service_calls (map Topic_Call rs) = []"
  "topic_calls (map Service_Call rs) = []" "service_calls (map Service_Call rs) = rs"
  by (induction rs) auto

lemma nclub_inv_add: "nclub_inv k \<Longrightarrow> nclub_inv (NodeConnectionClientClub_add_client n addr k)"
  by (simp add: nclub_inv_def NodeConnectionClientClub_add_client_def Let_def)

lemma nclub_inv_delete: "nclub_inv k \<Longrightarrow> nclub_inv (NodeConnectionClientClub_delete_client n k)"
  by (simp add: nclub_inv_def NodeConnectionClientClub_delete_client_def)

lemma nclub_inv_pull:
  "nclub_inv k \<Longrightarrow> nclub_inv (NodeConnectionClientClub_pull_subscribe_request me t ip port url k)"
  "nclub_inv k \<Longrightarrow> nclub_inv (NodeConnectionClientClub_pull_serving_service_request me t ip port k)"
  by (auto simp: nclub_inv_def NodeConnectionClientClub_pull_subscribe_request_def
      NodeConnectionClientClub_pull_serving_service_request_def NodeConnectionClient_pull_subscribe_request_def
      NodeConnectionClient_pull_serving_service_request_def Let_def)

interpretation nclub: client_club NodeConnectionClientClub_add_client NodeConnectionClientClub_delete_client
    "\<lambda>k n. map_option fst (nclub_clients k n)" nclub_inv
  by unfold_locales
    (simp_all add: nclub_inv_add nclub_inv_delete,
     simp_all add: NodeConnectionClientClub_add_client_def NodeConnectionClientClub_delete_client_def fun_eq_iff Let_def)

section \<open>The tables of a node\<close>

text \<open>A \<^verbatim>\<open>promise<string>\<close> of the services table: not yet set, or set to an address.\<close>

datatype service_promise = Unset | Set_To string

record ('b, 'c) NodeHandler =
  nh_name :: string
  nh_rpc_ip :: string
  nh_rpc_port :: int
  nh_tcp_port :: int
  nh_topics :: "string \<rightharpoonup> string"
  nh_services :: "string \<rightharpoonup> service_promise"
  nh_connection_clients :: NodeConnectionClientClub
  nh_param_clients :: "('b, 'c) ParamRPCClientClub"
  nh_param_server :: "'b ParamRPCServerImpl"

text \<open>The constructor and the part of \<^verbatim>\<open>Init\<close> that sets fields; \<open>local_ip\<close> is \<^verbatim>\<open>CORE_LOCAL_IP\<close>.\<close>

definition NodeHandler_new :: "string \<Rightarrow> string \<Rightarrow> string option \<Rightarrow> int \<Rightarrow> int \<Rightarrow> ('b, 'c) NodeHandler" where
  "NodeHandler_new name ns local_ip tcp_port rpc_port =
     \<lparr>nh_name = ns @ ''/'' @ name,
      nh_rpc_ip = (case local_ip of Some ip \<Rightarrow> ip | None \<Rightarrow> ''127.0.0.1''),
      nh_rpc_port = rpc_port, nh_tcp_port = tcp_port, nh_topics = Map.empty, nh_services = Map.empty,
      nh_connection_clients = NodeConnectionClientClub_new, nh_param_clients = ParamRPCClientClub_new,
      nh_param_server = ParamRPCServerImpl_new\<rparr>"

text \<open>
  The parameter calls of the application.  \<^verbatim>\<open>getDynamicParameter\<close> starts a thread (\<open>local_step\<close>), of a parameter and a callback that are
  arguments of its steps, and returns true.
  \<open>rpc\<close> is the outcome of the remote call, \<open>None\<close> if its status is not ok.
\<close>

definition NodeHandler_setParameter ::
    "string \<Rightarrow> 'b any_value \<Rightarrow> ('b, 'c) NodeHandler \<Rightarrow> ('b, 'c) NodeHandler result" where
  "NodeHandler_setParameter name v nh =
     bind_result (ParamRPCServerImpl_set name v (nh_param_server nh)) (\<lambda>s. Inr (nh\<lparr>nh_param_server := s\<rparr>))"

definition NodeHandler_declareParameter ::
    "string \<Rightarrow> 'b any_value \<Rightarrow> bool \<Rightarrow> ('b, 'c) NodeHandler \<Rightarrow> ('b, 'c) NodeHandler" where
  "NodeHandler_declareParameter name v is_const nh =
     nh\<lparr>nh_param_server := ParamRPCServerImpl_declare name v is_const (nh_param_server nh)\<rparr>"

definition NodeHandler_getParameter :: "string \<Rightarrow> string \<Rightarrow> ('b, 'c) NodeHandler \<Rightarrow> 'b any_value option result" where
  "NodeHandler_getParameter ty name nh = ParamRPCServerImpl_get ty name (nh_param_server nh)"

definition NodeHandler_getDynamicParameter :: "('b, 'c) NodeHandler \<Rightarrow> bool \<times> 'b local_watched" where
  "NodeHandler_getDynamicParameter nh = ParamRPCServerImpl_get_cb (nh_param_server nh)"

definition NodeHandler_setRemoteParameter :: "ParameterStatus option \<Rightarrow> string \<Rightarrow> ('b, 'c) NodeHandler \<Rightarrow> ParameterStatus" where
  "NodeHandler_setRemoteParameter rpc ns nh = ParamRPCClientClub_setRemoteRequest rpc ns (nh_param_clients nh)"

definition NodeHandler_getRemoteParameter ::
    "string \<Rightarrow> string \<Rightarrow> ('b, 'c) NodeHandler \<Rightarrow> 'b getParamRPCReply \<times> ('b, 'c) NodeHandler" where
  "NodeHandler_getRemoteParameter name ns nh =
     (let (reply, k) = ParamRPCClientClub_getRemoteRequest name ns (nh_param_clients nh)
      in (reply, nh\<lparr>nh_param_clients := k\<rparr>))"

definition NodeHandler_getRemoteDynamicParameter ::
    "string \<Rightarrow> 'c \<Rightarrow> string \<Rightarrow> ('b, 'c) NodeHandler \<Rightarrow> ParameterStatus \<times> ('b, 'c) NodeHandler" where
  "NodeHandler_getRemoteDynamicParameter name cb ns nh =
     (let (status, k) = ParamRPCClientClub_getRemoteRequest_cb name cb ns (nh_param_clients nh)
      in (status, nh\<lparr>nh_param_clients := k\<rparr>))"

definition NodeHandler_regist_node :: "string \<Rightarrow> string \<Rightarrow> int \<Rightarrow> ('b, 'c) NodeHandler \<Rightarrow> ('b, 'c) NodeHandler" where
  "NodeHandler_regist_node node ip port nh =
     nh\<lparr>nh_connection_clients := NodeConnectionClientClub_add_client node (addr_token ip port) (nh_connection_clients nh),
        nh_param_clients := ParamRPCClientClub_add_client node (addr_token ip port) (nh_param_clients nh)\<rparr>"

definition NodeHandler_delete_node :: "string \<Rightarrow> ('b, 'c) NodeHandler \<Rightarrow> ('b, 'c) NodeHandler" where
  "NodeHandler_delete_node node nh =
     nh\<lparr>nh_connection_clients := NodeConnectionClientClub_delete_client node (nh_connection_clients nh),
        nh_param_clients := ParamRPCClientClub_delete_client node (nh_param_clients nh)\<rparr>"

definition NodeHandler_find_wait_published_topic :: "string \<Rightarrow> string \<Rightarrow> ('b, 'c) NodeHandler \<Rightarrow> bool" where
  "NodeHandler_find_wait_published_topic topic url nh \<longleftrightarrow> nh_topics nh (CHR ''p'' # topic) = Some url"

definition NodeHandler_add_published_topic :: "string \<Rightarrow> string \<Rightarrow> ('b, 'c) NodeHandler \<Rightarrow> ('b, 'c) NodeHandler" where
  "NodeHandler_add_published_topic topic url nh = nh\<lparr>nh_topics := (nh_topics nh)(CHR ''p'' # topic \<mapsto> url)\<rparr>"

definition NodeHandler_add_subscribed_topic :: "string \<Rightarrow> string \<Rightarrow> ('b, 'c) NodeHandler \<Rightarrow> ('b, 'c) NodeHandler" where
  "NodeHandler_add_subscribed_topic topic url nh = nh\<lparr>nh_topics := (nh_topics nh)(CHR ''s'' # topic \<mapsto> url)\<rparr>"

definition NodeHandler_find_wait_served_service :: "string \<Rightarrow> ('b, 'c) NodeHandler \<Rightarrow> bool" where
  "NodeHandler_find_wait_served_service service nh \<longleftrightarrow> nh_services nh (CHR ''d'' # service) \<noteq> None"

definition NodeHandler_add_served_service :: "string \<Rightarrow> ('b, 'c) NodeHandler \<Rightarrow> ('b, 'c) NodeHandler result" where
  "NodeHandler_add_served_service service nh =
     (if nh_services nh (CHR ''d'' # service) \<noteq> None then Inl Process_Exit
      else Inr (nh\<lparr>nh_services := (nh_services nh)(CHR ''d'' # service \<mapsto> Unset)\<rparr>))"

definition NodeHandler_reset_served_service :: "string \<Rightarrow> ('b, 'c) NodeHandler \<Rightarrow> ('b, 'c) NodeHandler" where
  "NodeHandler_reset_served_service service nh = nh\<lparr>nh_services := (nh_services nh)(CHR ''d'' # service \<mapsto> Unset)\<rparr>"

definition NodeHandler_add_serving_service :: "string \<Rightarrow> ('b, 'c) NodeHandler \<Rightarrow> ('b, 'c) NodeHandler" where
  "NodeHandler_add_serving_service service nh = nh\<lparr>nh_services := (nh_services nh)(CHR ''g'' # service \<mapsto> Unset)\<rparr>"

definition NodeHandler_find_serving_service :: "string \<Rightarrow> ('b, 'c) NodeHandler \<Rightarrow> bool" where
  "NodeHandler_find_serving_service service nh \<longleftrightarrow> nh_services nh (CHR ''g'' # service) \<noteq> None"

text \<open>\<^verbatim>\<open>set_value\<close> throws when the promise is already set; \<^verbatim>\<open>operator[]\<close> makes a missing one.\<close>

definition NodeHandler_add_rpc_service_client ::
    "string \<Rightarrow> string \<Rightarrow> int \<Rightarrow> ('b, 'c) NodeHandler \<Rightarrow> bool \<times> ('b, 'c) NodeHandler" where
  "NodeHandler_add_rpc_service_client service ip port nh =
     (case nh_services nh (CHR ''d'' # service) of
        Some (Set_To addr) \<Rightarrow> (False, nh)
      | _ \<Rightarrow> (True, nh\<lparr>nh_services := (nh_services nh)(CHR ''d'' # service \<mapsto> Set_To (addr_token ip port))\<rparr>))"

section \<open>Subscribing and publishing\<close>

text \<open>\<^verbatim>\<open>subscribe_impl\<close>: what it does to the node, then what it does to the decoders of the TCP server.\<close>

definition subscribe_node :: "string \<Rightarrow> string \<Rightarrow> ('b, 'c) NodeHandler \<Rightarrow> ('b, 'c) NodeHandler" where
  "subscribe_node url topic nh =
     (let nh1 = NodeHandler_add_subscribed_topic topic url nh
      in nh1\<lparr>nh_connection_clients := NodeConnectionClientClub_pull_subscribe_request (nh_name nh1) topic
               (nh_rpc_ip nh1) (nh_tcp_port nh1) url (nh_connection_clients nh1)\<rparr>)"

definition NodeHandler_subscribe_impl ::
    "(string \<Rightarrow> 'm protobuf) \<Rightarrow> string \<Rightarrow> string \<Rightarrow> 'f \<Rightarrow> ('b, 'c) NodeHandler \<Rightarrow> ('m, 'f) TCPServer \<Rightarrow>
       (('b, 'c) NodeHandler \<times> ('m, 'f) TCPServer) result" where
  "NodeHandler_subscribe_impl pbs url topic cb nh srv =
     bind_result (subscribe_decoder pbs topic url cb srv) (\<lambda>srv'. Inr (subscribe_node url topic nh, srv'))"

definition NodeHandler_advertise :: "string \<Rightarrow> string \<Rightarrow> ('b, 'c) NodeHandler \<Rightarrow> ('b, 'c) NodeHandler" where
  "NodeHandler_advertise url topic nh = NodeHandler_add_published_topic topic url nh"

text \<open>
  \<^verbatim>\<open>serviceServer\<close>: nothing for a service that the node already serves; otherwise the table entry and the
  request that the constructor of \<^verbatim>\<open>ServiceServer\<close> sends, with the port that gRPC chose.
\<close>

definition NodeHandler_serviceServer :: "int \<Rightarrow> string \<Rightarrow> ('b, 'c) NodeHandler \<Rightarrow> ('b, 'c) NodeHandler" where
  "NodeHandler_serviceServer rpc_port service nh =
     (if NodeHandler_find_serving_service service nh then nh
      else let nh1 = NodeHandler_add_serving_service service nh
           in nh1\<lparr>nh_connection_clients := NodeConnectionClientClub_pull_serving_service_request (nh_name nh1) service
                    (nh_rpc_ip nh1) rpc_port (nh_connection_clients nh1)\<rparr>)"

definition NodeHandler_serviceClient :: "string \<Rightarrow> ('b, 'c) NodeHandler \<Rightarrow> ('b, 'c) NodeHandler result" where
  "NodeHandler_serviceClient service nh = NodeHandler_add_served_service service nh"

section \<open>The remote procedures\<close>

text \<open>
  What \<^verbatim>\<open>TopicConnection\<close> observes at one moment: \<^verbatim>\<open>core::ok()\<close>, \<^verbatim>\<open>IsCancelled()\<close> and the node; and, if it
  connects then, the TCP client, the answers of the system calls, and what other threads do to the TCP
  client before the connection thread takes its lock.
\<close>

record ('b, 'c) topic_obs =
  ob_ok :: bool
  ob_cancelled :: bool
  ob_node :: "('b, 'c) NodeHandler"
  ob_client :: TCPClient
  ob_connect :: connect_answers
  ob_between :: "TCPClient \<Rightarrow> TCPClient"
  ob_thread :: thread_answers

definition NodeHandler_add_tcp_client ::
    "connect_answers \<Rightarrow> string \<Rightarrow> TCPClient \<Rightarrow> (client_info \<times> TCPClient \<times> (nat \<times> string) option) result" where
  "NodeHandler_add_tcp_client a topic c = TCPClient_add_client a topic c"

text \<open>
  \<^verbatim>\<open>add_tcp_client\<close> and \<^verbatim>\<open>connected.get()\<close>, which waits for the connection thread if there is one: the client
  info, the value of the future, the TCP client and the bytes sent.  \<open>None\<close>: it still waits.
\<close>

definition connect_to_subscriber ::
    "string \<Rightarrow> ('b, 'c) topic_obs \<Rightarrow> (client_info \<times> bool \<times> TCPClient \<times> bytes) result option" where
  "connect_to_subscriber topic ob =
     (case NodeHandler_add_tcp_client (ob_connect ob) topic (ob_client ob) of
        Inl err \<Rightarrow> Some (Inl err)
      | Inr (info, c, None) \<Rightarrow>
          map_option (\<lambda>r. bind_result r (\<lambda>connected. Inr (info, connected, c, []))) (future_get (ci_connected info))
      | Inr (info, c, Some (fd, t)) \<Rightarrow>
          map_option (\<lambda>r. bind_result r (\<lambda>(connected, c', sent). Inr (info, connected, c', sent)))
            (TCPClient_connect_thread (ob_thread ob) fd t (ob_between ob c)))"

text \<open>
  The loop.  A round that does not find the topic ends in \<^verbatim>\<open>cv.wait\<close>, which returns at a moment when the
  topic is there or the program stops; a cancelled call does not end the wait.
\<close>

definition topic_waits :: "ConnectionRequest \<Rightarrow> ('b, 'c) topic_obs \<Rightarrow> bool" where
  "topic_waits rq ob \<longleftrightarrow>
     \<not> NodeHandler_find_wait_published_topic (rq_object rq) (rq_url rq) (ob_node ob) \<and> ob_ok ob"

function NodeConnectionServerImpl_TopicConnection ::
    "ConnectionRequest \<Rightarrow> ('b, 'c) topic_obs list \<Rightarrow> (ConnectionReply \<times> TCPClient option \<times> bytes) result option" where
  "NodeConnectionServerImpl_TopicConnection rq [] = None"
| "NodeConnectionServerImpl_TopicConnection rq (ob # obs) =
     (if \<not> (ob_ok ob \<and> \<not> ob_cancelled ob) then Some (Inr (empty_reply, None, []))
      else if NodeHandler_find_wait_published_topic (rq_object rq) (rq_url rq) (ob_node ob) then
        map_option (\<lambda>r. bind_result r (\<lambda>(info, connected, c, sent).
          Inr (if connected
               then \<lparr>rp_object = rq_object rq, rp_ip = ci_ip info, rp_port = ci_port info, rp_url = rq_url rq\<rparr>
               else empty_reply, Some c, sent)))
          (connect_to_subscriber (rq_object rq) ob)
      else NodeConnectionServerImpl_TopicConnection rq (dropWhile (topic_waits rq) obs))"
  by pat_completeness auto
termination
  by (relation "measure (\<lambda>(rq, obs). length obs)") (auto simp: less_Suc_eq_le length_dropWhile_le)

text \<open>The subscriber's side: the body of the thread that \<^verbatim>\<open>pull_subscribe_request\<close> starts.\<close>

definition NodeHandler_accept_topic_publish ::
    "(string \<Rightarrow> 'm protobuf) \<Rightarrow> int \<Rightarrow> string \<Rightarrow> string \<Rightarrow> int \<Rightarrow> epoll_answer list list \<Rightarrow> ('m, 'f) TCPServer \<Rightarrow>
       ('m, 'f) TCPServer result option" where
  "NodeHandler_accept_topic_publish pbs ctl topic ip port rounds s = TCPServer_accept_client pbs ctl topic ip port rounds s"

definition topic_reply_thread ::
    "(string \<Rightarrow> 'm protobuf) \<Rightarrow> int \<Rightarrow> bool \<Rightarrow> ConnectionReply \<Rightarrow> epoll_answer list list \<Rightarrow> ('m, 'f) TCPServer \<Rightarrow>
       ('m, 'f) TCPServer result option" where
  "topic_reply_thread pbs ctl status_ok reply rounds s =
     (if status_ok
      then NodeHandler_accept_topic_publish pbs ctl (rp_object reply) (rp_ip reply) (rp_port reply) rounds s
      else Some (Inr s))"

text \<open>
  A thread of a client's \<^verbatim>\<open>write_queue\<close>: it waits for the answer of the remote call (\<open>None\<close>: there is none yet) and
  hands it to the node, at a moment when the server is \<open>an_server\<close>.  The value is \<open>True\<close> when the thread
  has returned.  \<^verbatim>\<open>accept_service_client\<close> does nothing yet, and \<^verbatim>\<open>TreeConnection\<close> answers with an empty reply.
\<close>

definition NodeHandler_accept_service_client :: "string \<Rightarrow> bool" where
  "NodeHandler_accept_service_client service = True"

definition NodeConnectionServerImpl_TreeConnection :: "ConnectionRequest \<Rightarrow> ConnectionReply" where
  "NodeConnectionServerImpl_TreeConnection rq = empty_reply"

record ('m, 'f) call_answer =
  an_status_ok :: bool
  an_reply :: ConnectionReply
  an_ctl :: int
  an_rounds :: "epoll_answer list list"
  an_server :: "('m, 'f) TCPServer"

fun call_returned :: "(string \<Rightarrow> 'm protobuf) \<Rightarrow> conn_call \<Rightarrow> ('m, 'f) call_answer option \<Rightarrow> bool" where
  "call_returned pbs c None = False"
| "call_returned pbs (Topic_Call rq) (Some a) =
     (case topic_reply_thread pbs (an_ctl a) (an_status_ok a) (an_reply a) (an_rounds a) (an_server a) of
        Some (Inr s') \<Rightarrow> True | _ \<Rightarrow> False)"
| "call_returned pbs (Service_Call rq) (Some a) =
     (if an_status_ok a then NodeHandler_accept_service_client (rp_object (an_reply a)) else True)"

text \<open>
  The destructor of a client joins its threads, and \<^verbatim>\<open>erase\<close> runs it while \<^verbatim>\<open>delete_client\<close> holds the lock of the club.
  \<open>ans\<close> are the answers to the calls, in their order; \<open>None\<close>: it still waits.
\<close>

fun NodeConnectionClient_delete ::
    "(string \<Rightarrow> 'm protobuf) \<Rightarrow> ('m, 'f) call_answer option list \<Rightarrow> NodeConnectionClient \<Rightarrow> unit option" where
  "NodeConnectionClient_delete pbs ans [] = Some ()"
| "NodeConnectionClient_delete pbs [] (c # cs) = None"
| "NodeConnectionClient_delete pbs (a # ans) (c # cs) =
     (if call_returned pbs c a then NodeConnectionClient_delete pbs ans cs else None)"

definition delete_client_joins ::
    "(string \<Rightarrow> 'm protobuf) \<Rightarrow> ('m, 'f) call_answer option list \<Rightarrow> string \<Rightarrow> NodeConnectionClientClub \<Rightarrow> NodeConnectionClientClub option" where
  "delete_client_joins pbs ans node k =
     (case nclub_clients k node of
        None \<Rightarrow> Some (NodeConnectionClientClub_delete_client node k)
      | Some (addr, c) \<Rightarrow>
          map_option (\<lambda>_. NodeConnectionClientClub_delete_client node k) (NodeConnectionClient_delete pbs ans c))"

definition delete_node_joins ::
    "(string \<Rightarrow> 'm protobuf) \<Rightarrow> ('m, 'f) call_answer option list \<Rightarrow> (string \<Rightarrow> bool) \<Rightarrow> string \<Rightarrow> ('b, 'c) NodeHandler \<Rightarrow>
       ('b, 'c) NodeHandler option" where
  "delete_node_joins pbs ans ended node nh =
     (case delete_client_joins pbs ans node (nh_connection_clients nh) of
        None \<Rightarrow> None
      | Some k \<Rightarrow>
          map_option (\<lambda>pk. nh\<lparr>nh_connection_clients := k, nh_param_clients := pk\<rparr>)
            (param_delete_joins ended node (nh_param_clients nh)))"

definition NodeHandler_spinOnce ::
    "(string \<Rightarrow> 'm protobuf) \<Rightarrow> epoll_answer \<Rightarrow> ('m, 'f) TCPServer \<Rightarrow> (('m, 'f) TCPServer \<times> (nat \<times> 'f \<times> 'm) list) result" where
  "NodeHandler_spinOnce pbs w s = bind_result (TCPServer_event_handler pbs w s) (\<lambda>(ret, s', log). Inr (s', log))"

text \<open>
  \<^verbatim>\<open>ServiceConnection\<close> changes the node's table.  Between two of its looks at the table other threads of
  the node change it too: a service client appears or is reset, or another server's address is set.
  (A second client of the same service ends the process; that leaves nothing to observe.)
\<close>

datatype service_op = Served string | Reset_Served string | Other_Server string string int

fun exec_service_op :: "service_op \<Rightarrow> ('b, 'c) NodeHandler \<Rightarrow> ('b, 'c) NodeHandler" where
  "exec_service_op (Served service) nh =
     (case NodeHandler_add_served_service service nh of Inl err \<Rightarrow> nh | Inr nh' \<Rightarrow> nh')"
| "exec_service_op (Reset_Served service) nh = NodeHandler_reset_served_service service nh"
| "exec_service_op (Other_Server service ip port) nh = snd (NodeHandler_add_rpc_service_client service ip port nh)"

record service_obs =
  so_ok :: bool
  so_cancelled :: bool
  so_ops :: "service_op list"      \<comment> \<open>what happened since the last look\<close>

fun service_wait ::
    "ConnectionRequest \<Rightarrow> service_obs list \<Rightarrow> ('b, 'c) NodeHandler \<Rightarrow> service_obs list \<times> ('b, 'c) NodeHandler" where
  "service_wait rq [] nh = ([], nh)"
| "service_wait rq (ob # obs) nh =
     (let nh1 = fold exec_service_op (so_ops ob) nh in
      if NodeHandler_find_wait_served_service (rq_object rq) nh1 \<or> \<not> so_ok ob then (ob\<lparr>so_ops := []\<rparr> # obs, nh1)
      else service_wait rq obs nh1)"

lemma length_service_wait: "length (fst (service_wait rq obs nh)) \<le> length obs"
  by (induction rq obs nh rule: service_wait.induct) (auto simp: Let_def)

function service_loop ::
    "ConnectionRequest \<Rightarrow> service_obs list \<Rightarrow> ('b, 'c) NodeHandler \<Rightarrow> (ConnectionReply \<times> ('b, 'c) NodeHandler) option" where
  "service_loop rq [] nh = None"
| "service_loop rq (ob # obs) nh =
     (let nh1 = fold exec_service_op (so_ops ob) nh in
      if \<not> (so_ok ob \<and> \<not> so_cancelled ob) then Some (empty_reply, nh1)
      else if NodeHandler_find_wait_served_service (rq_object rq) nh1 then
        (let (stored, nh2) = NodeHandler_add_rpc_service_client (rq_object rq) (rq_ip rq) (rq_port rq) nh1 in
         if \<not> stored then service_loop rq obs nh2
         else Some (empty_reply\<lparr>rp_object := rq_object rq\<rparr>, nh2))
      else let (obs', nh2) = service_wait rq obs nh1 in service_loop rq obs' nh2)"
  by pat_completeness auto
termination
proof (relation "measure (\<lambda>(rq, obs, nh). length obs)", goal_cases)
  case (3 rq ob obs nh nh1 p obs' nh2)
  then show ?case using length_service_wait [of rq obs nh1] by (auto simp: less_Suc_eq_le case_prod_beta)
qed auto

definition NodeConnectionServerImpl_ServiceConnection ::
    "ConnectionRequest \<Rightarrow> service_obs list \<Rightarrow> ('b, 'c) NodeHandler \<Rightarrow>
       (ConnectionReply \<times> ('b, 'c) NodeHandler) result option" where
  "NodeConnectionServerImpl_ServiceConnection rq obs nh =
     (if NodeHandler_find_serving_service (rq_object rq) nh then Some (Inl Process_Exit)
      else map_option Inr (service_loop rq obs nh))"

section \<open>The registration thread\<close>

text \<open>
  The request that it sends; \<open>local_ip\<close> is \<^verbatim>\<open>CORE_LOCAL_IP\<close>, and the code is not set: 0 is \<^verbatim>\<open>ADD\<close>.
\<close>

definition NodeRegist_request :: "string option \<Rightarrow> ('b, 'c) NodeHandler \<Rightarrow> NodeInfo" where
  "NodeRegist_request local_ip nh =
     \<lparr>ni_ip = (case local_ip of Some ip \<Rightarrow> ip | None \<Rightarrow> ''127.0.0.1''), ni_port = nh_rpc_port nh,
      ni_name = nh_name nh, ni_code = ADD\<rparr>"

definition NodeRegist_command :: "NodeInfo \<Rightarrow> ('b, 'c) NodeHandler \<Rightarrow> ('b, 'c) NodeHandler" where
  "NodeRegist_command res nh =
     (if ni_code res = ADD then NodeHandler_regist_node (ni_name res) (ni_ip res) (ni_port res) nh
      else NodeHandler_delete_node (ni_name res) nh)"

definition NodeRegist_reply :: "RegistrationReply \<Rightarrow> ('b, 'c) NodeHandler \<Rightarrow> ('b, 'c) NodeHandler" where
  "NodeRegist_reply response nh = fold NodeRegist_command (rr_operation_cmd response) nh"

text \<open>The loop: the replies that \<^verbatim>\<open>Read\<close> delivers, each with the value of \<^verbatim>\<open>core::ok()\<close> after it.\<close>

fun NodeRegist_loop :: "(RegistrationReply \<times> bool) list \<Rightarrow> ('b, 'c) NodeHandler \<Rightarrow> ('b, 'c) NodeHandler" where
  "NodeRegist_loop [] nh = nh"
| "NodeRegist_loop ((response, ok) # rs) nh = (if ok then NodeRegist_loop rs (NodeRegist_reply response nh) else nh)"

section \<open>What a node asks of its peers\<close>

text \<open>
  The invariant of a node: every peer has been asked for everything the node wants; the topics it has
  asked for are those it subscribes to, with the type it wants, the services it has announced are those it serves, each
  announced once; and every request carries the node's own name and address.
\<close>

definition own_request :: "('b, 'c) NodeHandler \<Rightarrow> ConnectionRequest \<Rightarrow> bool" where
  "own_request nh rq \<longleftrightarrow> rq_node rq = nh_name nh \<and> rq_ip rq = nh_rpc_ip nh"

definition node_inv :: "('b, 'c) NodeHandler \<Rightarrow> bool" where
  "node_inv nh \<longleftrightarrow>
     nclub_inv (nh_connection_clients nh) \<and> pclub_inv (nh_param_clients nh) \<and>
     rq_object ` set (nclub_topic_requests (nh_connection_clients nh)) = {t. nh_topics nh (CHR ''s'' # t) \<noteq> None} \<and>
     (\<forall>t url. nh_topics nh (CHR ''s'' # t) = Some url \<longrightarrow>
        (\<exists>rq\<in>set (nclub_topic_requests (nh_connection_clients nh)). rq_object rq = t \<and> rq_url rq = url)) \<and>
     rq_object ` set (nclub_service_requests (nh_connection_clients nh)) = {v. NodeHandler_find_serving_service v nh} \<and>
     distinct (map rq_object (nclub_service_requests (nh_connection_clients nh))) \<and>
     (\<forall>rq\<in>set (nclub_topic_requests (nh_connection_clients nh)). own_request nh rq \<and> rq_port rq = nh_tcp_port nh) \<and>
     (\<forall>rq\<in>set (nclub_service_requests (nh_connection_clients nh)). own_request nh rq)"

text \<open>What the application and the remote procedures do to a node, and what the registration thread does.\<close>

inductive app_step :: "('b, 'c) NodeHandler \<Rightarrow> ('b, 'c) NodeHandler \<Rightarrow> bool" where
  subscribe: "app_step nh (subscribe_node url topic nh)"
| advertise: "app_step nh (NodeHandler_advertise url topic nh)"
| service_server: "app_step nh (NodeHandler_serviceServer rpc_port service nh)"
| service_client: "NodeHandler_serviceClient service nh = Inr nh' \<Longrightarrow> app_step nh nh'"
| service_reset: "app_step nh (NodeHandler_reset_served_service service nh)"
| service_found: "app_step nh (snd (NodeHandler_add_rpc_service_client service ip port nh))"
| declare_param: "app_step nh (NodeHandler_declareParameter name v is_const nh)"
| set_param: "NodeHandler_setParameter name v nh = Inr nh' \<Longrightarrow> app_step nh nh'"
| get_remote: "app_step nh (snd (NodeHandler_getRemoteParameter name ns nh))"
| get_remote_cb: "app_step nh (snd (NodeHandler_getRemoteDynamicParameter name cb ns nh))"
| param_reply: "pclub_clients (nh_param_clients nh) ns = Some (addr, c) \<Longrightarrow>
    ParamRPCClient_receive name r c = Inr (c', calls) \<Longrightarrow>
    app_step nh (nh\<lparr>nh_param_clients := (nh_param_clients nh)
      \<lparr>pclub_clients := (pclub_clients (nh_param_clients nh))(ns \<mapsto> (addr, c'))\<rparr>\<rparr>)"

inductive node_step :: "('b, 'c) NodeHandler \<Rightarrow> ('b, 'c) NodeHandler \<Rightarrow> bool" where
  app: "app_step nh nh' \<Longrightarrow> node_step nh nh'"
| reply: "node_step nh (NodeRegist_reply response nh)"

definition node_start :: "('b, 'c) NodeHandler \<Rightarrow> bool" where
  "node_start nh \<longleftrightarrow> (\<exists>name ns local_ip tcp_port rpc_port. nh = NodeHandler_new name ns local_ip tcp_port rpc_port)"

lemma node_inv_start: "node_start nh \<Longrightarrow> node_inv nh"
  by (auto simp: node_start_def node_inv_def NodeHandler_new_def NodeConnectionClientClub_new_def nclub_inv_def
      pclub_inv_new NodeHandler_find_serving_service_def)

lemma club_requests [simp]:
  "nclub_topic_requests (NodeConnectionClientClub_add_client n a k) = nclub_topic_requests k"
  "nclub_service_requests (NodeConnectionClientClub_add_client n a k) = nclub_service_requests k"
  "nclub_topic_requests (NodeConnectionClientClub_delete_client n k) = nclub_topic_requests k"
  "nclub_service_requests (NodeConnectionClientClub_delete_client n k) = nclub_service_requests k"
  "nclub_service_requests (NodeConnectionClientClub_pull_subscribe_request me t ip port url k) = nclub_service_requests k"
  "nclub_topic_requests (NodeConnectionClientClub_pull_serving_service_request me t ip port k) = nclub_topic_requests k"
  by (simp_all add: NodeConnectionClientClub_add_client_def NodeConnectionClientClub_delete_client_def
      NodeConnectionClientClub_pull_subscribe_request_def NodeConnectionClientClub_pull_serving_service_request_def Let_def)

lemma pulled_requests:
  "nclub_topic_requests (NodeConnectionClientClub_pull_subscribe_request me t ip port url k) =
     nclub_topic_requests k @ [\<lparr>rq_object = t, rq_ip = ip, rq_port = port, rq_url = url, rq_node = me\<rparr>]"
  "nclub_service_requests (NodeConnectionClientClub_pull_serving_service_request me t ip port k) =
     nclub_service_requests k @ [\<lparr>rq_object = t, rq_ip = ip, rq_port = port, rq_url = '''', rq_node = me\<rparr>]"
  by (simp_all add: NodeConnectionClientClub_pull_subscribe_request_def
      NodeConnectionClientClub_pull_serving_service_request_def Let_def)

lemma node_inv_command [preserve]: "node_inv nh \<Longrightarrow> node_inv (NodeRegist_command res nh)"
  by (cases "ni_code res = ADD")
    (simp_all add: node_inv_def NodeRegist_command_def NodeHandler_regist_node_def NodeHandler_delete_node_def
      own_request_def NodeHandler_find_serving_service_def nclub_inv_add nclub_inv_delete pclub_inv_add pclub_inv_delete)

lemma node_inv_reply [preserve]: "node_inv nh \<Longrightarrow> node_inv (NodeRegist_reply response nh)"
  unfolding NodeRegist_reply_def by (rule fold_invariant [where Q = "\<lambda>_. True"]) (auto intro: node_inv_command)

lemma node_inv_subscribe [preserve]:
  assumes "node_inv nh"
  shows "node_inv (subscribe_node url topic nh)"
proof -
  have "{t. t \<noteq> topic \<longrightarrow> nh_topics nh (CHR ''s'' # t) \<noteq> None} = insert topic {t. nh_topics nh (CHR ''s'' # t) \<noteq> None}"
    by blast
  with assms show ?thesis
    by (simp add: node_inv_def subscribe_node_def NodeHandler_add_subscribed_topic_def pulled_requests
        own_request_def NodeHandler_find_serving_service_def Let_def nclub_inv_pull)
qed

lemma node_inv_serviceServer [preserve]:
  assumes "node_inv nh"
  shows "node_inv (NodeHandler_serviceServer rpc_port service nh)"
proof (cases "NodeHandler_find_serving_service service nh")
  case False
  have "{v. v \<noteq> service \<longrightarrow> nh_services nh (CHR ''g'' # v) \<noteq> None} = insert service {v. nh_services nh (CHR ''g'' # v) \<noteq> None}"
    by blast
  moreover have "service \<notin> rq_object ` set (nclub_service_requests (nh_connection_clients nh))"
    using assms False by (simp add: node_inv_def)
  ultimately show ?thesis using assms False
    by (simp add: node_inv_def NodeHandler_serviceServer_def NodeHandler_add_serving_service_def
        NodeHandler_find_serving_service_def pulled_requests own_request_def Let_def nclub_inv_pull)
qed (simp add: NodeHandler_serviceServer_def assms)

text \<open>The other table entries have other keys.\<close>

lemma node_inv_tables:
  assumes "node_inv nh" and "nh_connection_clients nh' = nh_connection_clients nh" and "pclub_inv (nh_param_clients nh')"
    and "nh_name nh' = nh_name nh" "nh_rpc_ip nh' = nh_rpc_ip nh" "nh_tcp_port nh' = nh_tcp_port nh"
    and "\<And>t. nh_topics nh' (CHR ''s'' # t) = nh_topics nh (CHR ''s'' # t)"
    and "\<And>v. nh_services nh' (CHR ''g'' # v) = nh_services nh (CHR ''g'' # v)"
  shows "node_inv nh'"
  using assms by (simp add: node_inv_def NodeHandler_find_serving_service_def own_request_def)

lemma node_inv_ops [preserve]:
  assumes "node_inv nh"
  shows "node_inv (NodeHandler_advertise url topic nh)" "node_inv (NodeHandler_reset_served_service service nh)"
    and "node_inv (snd (NodeHandler_add_rpc_service_client service ip port nh))"
    and "node_inv (NodeHandler_declareParameter name v is_const nh)"
    and "NodeHandler_serviceClient service nh = Inr nh' \<Longrightarrow> node_inv nh'"
    and "NodeHandler_setParameter name v nh = Inr nh' \<Longrightarrow> node_inv nh'"
proof -
  have params: "pclub_inv (nh_param_clients nh)" using assms by (simp add: node_inv_def)
  show "node_inv (NodeHandler_advertise url topic nh)" "node_inv (NodeHandler_reset_served_service service nh)"
    "node_inv (NodeHandler_declareParameter name v is_const nh)"
    by (rule node_inv_tables [OF assms]; simp add: NodeHandler_advertise_def NodeHandler_add_published_topic_def
        NodeHandler_reset_served_service_def NodeHandler_declareParameter_def params)+
  show "node_inv (snd (NodeHandler_add_rpc_service_client service ip port nh))"
    by (rule node_inv_tables [OF assms])
      (simp_all add: NodeHandler_add_rpc_service_client_def params split: option.split service_promise.split)
  show "NodeHandler_serviceClient service nh = Inr nh' \<Longrightarrow> node_inv nh'"
    by (rule node_inv_tables [OF assms])
      (auto simp: NodeHandler_serviceClient_def NodeHandler_add_served_service_def params split: if_splits)
  show "NodeHandler_setParameter name v nh = Inr nh' \<Longrightarrow> node_inv nh'"
    by (rule node_inv_tables [OF assms]) (auto simp: NodeHandler_setParameter_def bind_result_Inr_iff params)
qed

lemma app_step_inv [preserve]:
  assumes "app_step nh nh'" and "node_inv nh"
  shows "node_inv nh'"
proof -
  have params: "pclub_inv (nh_param_clients nh)" using assms(2) by (simp add: node_inv_def)
  from assms(1) show ?thesis
  proof cases
    case (get_remote name ns)
    then show ?thesis
      by (intro node_inv_tables [OF assms(2)])
        (auto simp: NodeHandler_getRemoteParameter_def case_prod_beta intro: pclub_inv_step [OF params] pclub_step.get)
  next
    case (get_remote_cb name cb ns)
    then show ?thesis
      by (intro node_inv_tables [OF assms(2)])
        (auto simp: NodeHandler_getRemoteDynamicParameter_def case_prod_beta intro: pclub_inv_step [OF params] pclub_step.get_cb)
  next
    case (param_reply ns addr c name r c' calls)
    then show ?thesis
      by (intro node_inv_tables [OF assms(2)]) (auto intro: pclub_inv_step [OF params] pclub_step.reply)
  qed (auto intro: preserve assms(2))
qed

lemma node_step_inv: "node_inv nh \<Longrightarrow> node_step nh nh' \<Longrightarrow> node_inv nh'"
  by (erule node_step.cases) (auto intro: preserve)

interpretation node: invariant_system node_start node_step node_inv
  by unfold_locales (auto intro: node_inv_start node_step_inv)

section \<open>The registration thread follows the registrar\<close>

text \<open>A reply of the registrar as commands to a club, and the peers that both clubs are connected to.\<close>

fun club_cmd_of :: "NodeInfo \<Rightarrow> club_cmd" where
  "club_cmd_of res = (if ni_code res = ADD then Add_Client (ni_name res) (addr_token (ni_ip res) (ni_port res))
     else Delete_Client (ni_name res))"

definition connected_to :: "peers \<Rightarrow> ('b, 'c) NodeHandler \<Rightarrow> bool" where
  "connected_to m nh \<longleftrightarrow>
     (\<forall>n. map_option fst (nclub_clients (nh_connection_clients nh) n) = map_option (\<lambda>(ip, port). addr_token ip port) (m n) \<and>
          map_option fst (pclub_clients (nh_param_clients nh) n) = map_option (\<lambda>(ip, port). addr_token ip port) (m n))"

lemma NodeRegist_reply_clubs:
  "nh_connection_clients (NodeRegist_reply response nh) =
     fold nclub.club_exec (map club_cmd_of (rr_operation_cmd response)) (nh_connection_clients nh)"
  "nh_param_clients (NodeRegist_reply response nh) =
     fold pclub.club_exec (map club_cmd_of (rr_operation_cmd response)) (nh_param_clients nh)"
proof -
  have "nh_connection_clients (fold NodeRegist_command cmds nh) =
      fold nclub.club_exec (map club_cmd_of cmds) (nh_connection_clients nh) \<and>
    nh_param_clients (fold NodeRegist_command cmds nh) =
      fold pclub.club_exec (map club_cmd_of cmds) (nh_param_clients nh)" for cmds
    by (induction cmds arbitrary: nh)
      (auto simp: NodeRegist_command_def NodeHandler_regist_node_def NodeHandler_delete_node_def)
  then show "nh_connection_clients (NodeRegist_reply response nh) =
     fold nclub.club_exec (map club_cmd_of (rr_operation_cmd response)) (nh_connection_clients nh)"
    "nh_param_clients (NodeRegist_reply response nh) =
     fold pclub.club_exec (map club_cmd_of (rr_operation_cmd response)) (nh_param_clients nh)"
    by (simp_all add: NodeRegist_reply_def)
qed

lemma club_spec_replay:
  "fold club_spec (map club_cmd_of cmds) (\<lambda>n. map_option (\<lambda>(ip, port). addr_token ip port) (m n)) =
     (\<lambda>n. map_option (\<lambda>(ip, port). addr_token ip port) (replay cmds m n))"
proof (induction cmds arbitrary: m)
  case (Cons res cmds)
  have "club_spec (club_cmd_of res) (\<lambda>n. map_option (\<lambda>(ip, port). addr_token ip port) (m n)) =
      (\<lambda>n. map_option (\<lambda>(ip, port). addr_token ip port) (replay_cmd res m n))"
    by (auto simp: replay_cmd_def)
  with Cons show ?case by (simp add: replay_def)
qed (simp add: replay_def)

lemma connected_to_reply:
  assumes "connected_to m nh"
  shows "connected_to (replay (rr_operation_cmd response) m) (NodeRegist_reply response nh)"
proof -
  let ?tok = "\<lambda>m n. map_option (\<lambda>(ip, port). addr_token ip port) (m n)"
  have "(\<lambda>n. map_option fst (nclub_clients (nh_connection_clients nh) n)) = ?tok m"
    "(\<lambda>n. map_option fst (pclub_clients (nh_param_clients nh) n)) = ?tok m"
    using assms by (auto simp: connected_to_def)
  then have "(\<lambda>n. map_option fst (nclub_clients (nh_connection_clients (NodeRegist_reply response nh)) n)) =
      ?tok (replay (rr_operation_cmd response) m)"
    "(\<lambda>n. map_option fst (pclub_clients (nh_param_clients (NodeRegist_reply response nh)) n)) =
      ?tok (replay (rr_operation_cmd response) m)"
    by (simp_all only: NodeRegist_reply_clubs nclub.peers_run pclub.peers_run club_spec_replay)
  then show ?thesis by (simp add: connected_to_def fun_eq_iff)
qed

lemma connected_to_params:
  assumes "connected_to m nh" and "nh_connection_clients nh' = nh_connection_clients nh"
    and "\<And>n. map_option fst (pclub_clients (nh_param_clients nh') n) = map_option fst (pclub_clients (nh_param_clients nh) n)"
  shows "connected_to m nh'"
  using assms by (simp add: connected_to_def)

lemma connected_to_app:
  assumes "app_step nh nh'" and "connected_to m nh"
  shows "connected_to m nh'"
  using assms(1)
proof cases
  case (subscribe url topic)
  with assms(2) show ?thesis
    by (auto simp: connected_to_def subscribe_node_def NodeHandler_add_subscribed_topic_def Let_def
        NodeConnectionClientClub_pull_subscribe_request_def option.map_comp comp_def)
next
  case (service_server rpc_port service)
  with assms(2) show ?thesis
    by (auto simp: connected_to_def NodeHandler_serviceServer_def NodeHandler_add_serving_service_def Let_def
        NodeConnectionClientClub_pull_serving_service_request_def option.map_comp comp_def)
next
  case (set_param name v)
  with assms(2) show ?thesis by (auto simp: connected_to_def NodeHandler_setParameter_def bind_result_Inr_iff)
next
  case (get_remote name ns)
  then show ?thesis
    by (intro connected_to_params [OF assms(2)])
      (simp_all add: NodeHandler_getRemoteParameter_def ParamRPCClientClub_getRemoteRequest_def case_prod_beta split: option.split)
next
  case (get_remote_cb name cb ns)
  then show ?thesis
    by (intro connected_to_params [OF assms(2)])
      (simp_all add: NodeHandler_getRemoteDynamicParameter_def ParamRPCClientClub_getRemoteRequest_cb_def Let_def
        case_prod_beta split: option.split)
next
  case (param_reply ns addr c name r c' calls)
  then show ?thesis by (intro connected_to_params [OF assms(2)]) simp_all
next
  case (service_client service)
  with assms(2) show ?thesis
    by (auto simp: connected_to_def NodeHandler_serviceClient_def NodeHandler_add_served_service_def split: if_splits)
next
  case (service_found service ip port)
  with assms(2) show ?thesis
    by (auto simp: connected_to_def NodeHandler_add_rpc_service_client_def split: option.splits service_promise.splits)
qed (use assms(2) in \<open>auto simp: connected_to_def NodeHandler_advertise_def NodeHandler_add_published_topic_def
      NodeHandler_reset_served_service_def NodeHandler_declareParameter_def\<close>)

text \<open>A reply of the registrar changes the clients of a node and not what the node is or wants.\<close>

lemma NodeRegist_reply_identity [simp]:
  "nh_name (NodeRegist_reply reply nh) = nh_name nh" "nh_rpc_ip (NodeRegist_reply reply nh) = nh_rpc_ip nh"
  "nh_tcp_port (NodeRegist_reply reply nh) = nh_tcp_port nh" "nh_topics (NodeRegist_reply reply nh) = nh_topics nh"
proof -
  have "nh_name (fold NodeRegist_command cmds nh) = nh_name nh \<and> nh_rpc_ip (fold NodeRegist_command cmds nh) = nh_rpc_ip nh \<and>
      nh_tcp_port (fold NodeRegist_command cmds nh) = nh_tcp_port nh \<and> nh_topics (fold NodeRegist_command cmds nh) = nh_topics nh" for cmds
    by (induction cmds arbitrary: nh) (simp_all add: NodeRegist_command_def NodeHandler_regist_node_def NodeHandler_delete_node_def)
  then show "nh_name (NodeRegist_reply reply nh) = nh_name nh" "nh_rpc_ip (NodeRegist_reply reply nh) = nh_rpc_ip nh"
      "nh_tcp_port (NodeRegist_reply reply nh) = nh_tcp_port nh" "nh_topics (NodeRegist_reply reply nh) = nh_topics nh"
    by (simp_all add: NodeRegist_reply_def)
qed

section \<open>Connections on request\<close>

lemma connect_to_subscriber_thread:
  assumes "connect_to_subscriber topic ob = Some (Inr (info, True, c, bs))"
  obtains fd ip port c' where "Socket_create_socket (ca_sockfd (ob_connect ob)) (ca_getfl (ob_connect ob)) (ca_setfl (ob_connect ob)) = int fd"
    "ca_getsockname (ob_connect ob) = Some (ip, port)" "ci_ip info = dotted ip" "ci_port info = uint port"
    "TCPClient_connect_thread (ob_thread ob) fd topic (ob_between ob c') = Some (Inr (True, c, bs))"
proof -
  have "future_get (ci_connected info) \<noteq> Some (Inr True)" if "TCPClient_add_client a t c0 = Inr (info, c', None)" for a t c0 c'
    using that by (auto simp: TCPClient_add_client_def empty_client_info_def Let_def bind_result_Inr_iff
        split: if_splits connect_answer.splits option.splits)
  then have "future_get (ci_connected info) = Some (Inr True) \<Longrightarrow>
      TCPClient_add_client (ob_connect ob) topic (ob_client ob) \<noteq> Inr (info, c, None)" by blast
  with assms obtain c' fd t where add: "TCPClient_add_client (ob_connect ob) topic (ob_client ob) = Inr (info, c', Some (fd, t))"
    and run: "TCPClient_connect_thread (ob_thread ob) fd t (ob_between ob c') = Some (Inr (True, c, bs))"
    by (auto simp: connect_to_subscriber_def NodeHandler_add_tcp_client_def bind_result_Inr_iff
        split: sum.splits option.splits)
  from add obtain ip port where "t = topic" "ca_getsockname (ob_connect ob) = Some (ip, port)"
    "ci_ip info = dotted ip" "ci_port info = uint port"
    "Socket_create_socket (ca_sockfd (ob_connect ob)) (ca_getfl (ob_connect ob)) (ca_setfl (ob_connect ob)) = int fd"
    by (auto simp: TCPClient_add_client_def TCPClient_get_socket_info_def empty_client_info_def Let_def bind_result_Inr_iff
        string_of_cstr_def inet_ntop_def split: if_splits connect_answer.splits option.splits)
  with run that show thesis by blast
qed

lemma connect_to_subscriber_True:
  assumes "connect_to_subscriber topic ob = Some (Inr (info, True, c, bs))"
  shows "\<exists>fd ip port. ca_getsockname (ob_connect ob) = Some (ip, port) \<and> ci_ip info = dotted ip \<and>
    ci_port info = uint port \<and> (fd \<in> cli_topic_fd c topic \<or> fd \<in> set (sock_closed c))"
  using assms
proof (rule connect_to_subscriber_thread)
  fix fd ip port c'
  assume "TCPClient_connect_thread (ob_thread ob) fd topic (ob_between ob c') = Some (Inr (True, c, bs))"
  then have "fd \<in> cli_topic_fd c topic \<or> fd \<in> set (sock_closed c)"
    by (auto simp: TCPClient_connect_thread_def Let_def bind_result_Inr_iff elim!: write_fd_cases
        split: if_splits sum.splits)
  moreover assume "ca_getsockname (ob_connect ob) = Some (ip, port)" "ci_ip info = dotted ip" "ci_port info = uint port"
  ultimately show ?thesis by blast
qed

lemma TopicConnection_granted:
  assumes "NodeConnectionServerImpl_TopicConnection rq obs = Some (Inr (reply, c, bs))" and "rp_object reply \<noteq> []"
  shows "\<exists>ob\<in>set obs. \<exists>info c'. ob_ok ob \<and> \<not> ob_cancelled ob \<and>
    NodeHandler_find_wait_published_topic (rq_object rq) (rq_url rq) (ob_node ob) \<and>
    connect_to_subscriber (rq_object rq) ob = Some (Inr (info, True, c', bs)) \<and> c = Some c' \<and>
    reply = \<lparr>rp_object = rq_object rq, rp_ip = ci_ip info, rp_port = ci_port info, rp_url = rq_url rq\<rparr>"
  using assms
proof (induction rq obs rule: NodeConnectionServerImpl_TopicConnection.induct)
  case (2 rq ob obs)
  let ?found = "NodeHandler_find_wait_published_topic (rq_object rq) (rq_url rq) (ob_node ob)"
  consider "\<not> (ob_ok ob \<and> \<not> ob_cancelled ob)" | "ob_ok ob \<and> \<not> ob_cancelled ob" "?found"
    | "ob_ok ob \<and> \<not> ob_cancelled ob" "\<not> ?found" by blast
  then show ?case
  proof cases
    case 3
    with "2.IH" "2.prems" have "\<exists>ob\<in>set (dropWhile (topic_waits rq) obs). \<exists>info c'. ob_ok ob \<and> \<not> ob_cancelled ob \<and>
      NodeHandler_find_wait_published_topic (rq_object rq) (rq_url rq) (ob_node ob) \<and>
      connect_to_subscriber (rq_object rq) ob = Some (Inr (info, True, c', bs)) \<and> c = Some c' \<and>
      reply = \<lparr>rp_object = rq_object rq, rp_ip = ci_ip info, rp_port = ci_port info, rp_url = rq_url rq\<rparr>"
      by simp
    then show ?thesis by (meson list.set_intros(2) set_dropWhileD)
  qed (use "2.prems" in \<open>auto simp: empty_reply_def bind_result_Inr_iff split: if_splits\<close>)
qed simp

lemma TopicConnection_skip:
  assumes "\<forall>ob\<in>set before. topic_waits rq ob \<and> \<not> ob_cancelled ob"
    and "\<not> topic_waits rq ob"
  shows "NodeConnectionServerImpl_TopicConnection rq (before @ ob # obs) = NodeConnectionServerImpl_TopicConnection rq (ob # obs)"
proof (cases before)
  case (Cons ob0 rest)
  with assms have "dropWhile (topic_waits rq) (rest @ ob # obs) = ob # obs"
    by (simp add: dropWhile_append2)
  with Cons assms(1) show ?thesis by (simp add: topic_waits_def)
qed simp

section \<open>The address of a service\<close>

lemma exec_service_op_set:
  "nh_services nh (CHR ''d'' # v) = Some (Set_To a) \<Longrightarrow> op \<noteq> Reset_Served v \<Longrightarrow>
     nh_services (exec_service_op op nh) (CHR ''d'' # v) = Some (Set_To a)"
  by (cases op) (auto simp: NodeHandler_add_served_service_def NodeHandler_reset_served_service_def
      NodeHandler_add_rpc_service_client_def split: option.splits service_promise.splits)

lemma exec_service_ops_set:
  assumes "nh_services nh (CHR ''d'' # v) = Some (Set_To a)" and "Reset_Served v \<notin> set ops"
  shows "nh_services (fold exec_service_op ops nh) (CHR ''d'' # v) = Some (Set_To a)"
  using assms by (induction ops arbitrary: nh) (auto simp: exec_service_op_set)

lemma service_loop_occupied:
  assumes "nh_services nh (CHR ''d'' # rq_object rq) = Some (Set_To a)"
    and "\<forall>ob\<in>set obs. so_ok ob \<and> \<not> so_cancelled ob \<and> Reset_Served (rq_object rq) \<notin> set (so_ops ob)"
  shows "service_loop rq obs nh = None"
  using assms
proof (induction obs arbitrary: nh)
  case (Cons ob obs)
  let ?nh = "fold exec_service_op (so_ops ob) nh"
  have "nh_services ?nh (CHR ''d'' # rq_object rq) = Some (Set_To a)"
    using Cons.prems by (intro exec_service_ops_set) auto
  moreover from this have "service_loop rq obs ?nh = None" by (rule Cons.IH) (use Cons.prems(2) in simp)
  moreover have "so_ok ob \<and> \<not> so_cancelled ob" using Cons.prems(2) by simp
  ultimately show ?case
    by (simp only: service_loop.simps Let_def NodeHandler_find_wait_served_service_def
        NodeHandler_add_rpc_service_client_def) simp
qed simp

lemma service_loop_granted:
  assumes "service_loop rq obs nh = Some (reply, nh')" and "rp_object reply \<noteq> []"
  shows "nh_services nh' (CHR ''d'' # rq_object rq) = Some (Set_To (addr_token (rq_ip rq) (rq_port rq)))"
  using assms
proof (induction rq obs nh rule: service_loop.induct)
  case (2 rq ob obs nh)
  let ?nh = "fold exec_service_op (so_ops ob) nh"
  consider "\<not> (so_ok ob \<and> \<not> so_cancelled ob)"
    | "so_ok ob \<and> \<not> so_cancelled ob" "\<not> NodeHandler_find_wait_served_service (rq_object rq) ?nh"
    | "so_ok ob \<and> \<not> so_cancelled ob" "NodeHandler_find_wait_served_service (rq_object rq) ?nh" by blast
  then show ?case
  proof cases
    case 1
    with "2.prems" show ?thesis by (auto simp: empty_reply_def)
  next
    case 2
    obtain obs' nh2 where w: "service_wait rq obs ?nh = (obs', nh2)" by fastforce
    with 2 show ?thesis using "2.IH"(2) [OF refl _ _ w [symmetric] refl] "2.prems" by (simp add: Let_def)
  next
    case 3
    then show ?thesis using "2.IH"(1) [OF refl _ _ refl] "2.prems"
      by (auto simp: Let_def NodeHandler_add_rpc_service_client_def split: option.splits service_promise.splits)
  qed
qed simp

section \<open>Properties\<close>

text \<open>A node that subscribes to \<^verbatim>\<open>chat\<close>, and a reply of the registrar that names one peer.\<close>

definition demo_node :: "(int, int) NodeHandler" where
  "demo_node = subscribe_node ''std_msgs.String'' ''chat'' (NodeHandler_new ''listener'' ''hello'' None 4000 5000)"

definition demo_peer :: RegistrationReply where
  "demo_peer = \<lparr>rr_version = 1, rr_operation_cmd = [\<lparr>ni_ip = ''10.0.0.1'', ni_port = 6000, ni_name = ''hello/talker'', ni_code = ADD\<rparr>]\<rparr>"

definition demo_request :: ConnectionRequest where
  "demo_request = \<lparr>rq_object = ''chat'', rq_ip = ''127.0.0.1'', rq_port = 4000, rq_url = ''std_msgs.String'', rq_node = ''hello/listener''\<rparr>"

lemma demo_node_run: "node_step\<^sup>*\<^sup>* (NodeHandler_new ''listener'' ''hello'' None 4000 5000) (NodeRegist_reply demo_peer demo_node)"
  unfolding demo_node_def by (meson app_step.subscribe node_step.intros r_into_rtranclp rtranclp.rtrancl_into_rtrancl)

lemmas demo_node_simps = demo_peer_def demo_node_def demo_request_def NodeRegist_reply_def NodeRegist_command_def
  NodeHandler_regist_node_def subscribe_node_def NodeHandler_new_def NodeConnectionClientClub_new_def
  NodeConnectionClientClub_add_client_def NodeConnectionClientClub_pull_subscribe_request_def
  NodeHandler_add_subscribed_topic_def NodeConnectionClient_pull_subscribe_request_def Let_def

text \<open>
  C13: the order of discovery does not matter.  Whatever the order in which a node subscribes to topics,
  announces services and learns of other nodes, every node that it is connected to has been asked for
  exactly the topics that it subscribes to and told of exactly the services that it serves, each
  service once, under the node's own name and address.
\<close>

theorem every_peer_asked:
  assumes "node_start nh0" and "node_step\<^sup>*\<^sup>* nh0 nh"
    and "nclub_clients (nh_connection_clients nh) n = Some (addr, c)"
  shows "rq_object ` set (topic_calls c) = {t. nh_topics nh (CHR ''s'' # t) \<noteq> None} \<and>
    rq_object ` set (service_calls c) = {v. NodeHandler_find_serving_service v nh} \<and>
    distinct (map rq_object (service_calls c)) \<and>
    (\<forall>rq\<in>set (topic_calls c). own_request nh rq \<and> rq_port rq = nh_tcp_port nh) \<and>
    (\<forall>rq\<in>set (service_calls c). own_request nh rq)"
proof -
  have inv: "node_inv nh" by (rule node.reachable_inv [OF assms(1,2)])
  then have "topic_calls c = nclub_topic_requests (nh_connection_clients nh)"
    "service_calls c = nclub_service_requests (nh_connection_clients nh)"
    using assms(3) by (auto simp: node_inv_def nclub_inv_def)
  with inv show ?thesis by (simp add: node_inv_def)
qed

theorem every_peer_asked_witness:
  "\<exists>c. nclub_clients (nh_connection_clients (NodeRegist_reply demo_peer demo_node)) ''hello/talker'' =
       Some (addr_token ''10.0.0.1'' 6000, c) \<and> rq_object ` set (topic_calls c) = {''chat''}"
proof -
  let ?nh = "NodeRegist_reply demo_peer demo_node"
  have start: "node_start (NodeHandler_new ''listener'' ''hello'' None 4000 5000 :: (int, int) NodeHandler)"
    unfolding node_start_def by blast
  have c: "nclub_clients (nh_connection_clients ?nh) ''hello/talker'' = Some (addr_token ''10.0.0.1'' 6000, [Topic_Call demo_request])"
    by (simp add: demo_node_simps)
  have "{t. nh_topics ?nh (CHR ''s'' # t) \<noteq> None} = {''chat''}" by (auto simp: demo_node_simps split: if_splits)
  with every_peer_asked [OF start demo_node_run c] c show ?thesis by auto
qed

text \<open>
  A positive answer to a connection request stands for a connection.  If \<^verbatim>\<open>TopicConnection\<close> returns a
  reply for the topic, then at some moment before it the node published the topic with the requested
  type, the connection to the subscriber was established, its socket is among the subscribers of the
  topic or has already failed again, and the address in the reply is the address of that socket.
\<close>

lemma topic_connection_reply:
  assumes "NodeConnectionServerImpl_TopicConnection rq obs = Some (Inr (reply, c, out))" and "rp_object reply \<noteq> []"
  shows "\<exists>ob\<in>set obs. \<exists>fd ip port c'. NodeHandler_find_wait_published_topic (rq_object rq) (rq_url rq) (ob_node ob) \<and>
    ca_getsockname (ob_connect ob) = Some (ip, port) \<and> c = Some c' \<and>
    (fd \<in> cli_topic_fd c' (rq_object rq) \<or> fd \<in> set (sock_closed c')) \<and>
    reply = \<lparr>rp_object = rq_object rq, rp_ip = dotted ip, rp_port = uint port, rp_url = rq_url rq\<rparr>"
  using TopicConnection_granted [OF assms] connect_to_subscriber_True by fastforce

text \<open>A publisher that waits for its topic, and then connects at once.\<close>

definition demo_connect :: connect_answers where
  "demo_connect = \<lparr>ca_sockfd = 9, ca_getfl = 2, ca_setfl = (\<lambda>f. 0), ca_inet_pton = 1,
     ca_connect = Connect_Fail E_INPROGRESS, ca_getsockname = Some ((10, 0, 0, 1), 5000)\<rparr>"

definition demo_obs :: "bool \<Rightarrow> (int, int) topic_obs" where
  "demo_obs published = \<lparr>ob_ok = True, ob_cancelled = False,
     ob_node = (let nh = NodeHandler_new ''talker'' ''hello'' None 4001 5001
                in if published then NodeHandler_advertise ''std_msgs.String'' ''chat'' nh else nh),
     ob_client = TCPClient_new 0, ob_connect = demo_connect, ob_between = id,
     ob_thread = \<lparr>ta_select = 1, ta_getsockopt = 0, ta_err = 0, ta_cache = [], ta_errno = E_OTHER, ta_writes = []\<rparr>\<rparr>"

definition demo_reply :: ConnectionReply where
  "demo_reply = \<lparr>rp_object = ''chat'', rp_ip = dotted (10, 0, 0, 1), rp_port = 5000, rp_url = ''std_msgs.String''\<rparr>"

definition demo_connected :: TCPClient where
  "demo_connected = (TCPClient_new 0)\<lparr>cli_topic_fd := (\<lambda>t. {})(''chat'' := {9})\<rparr>"

lemma demo_TopicConnection:
  "NodeConnectionServerImpl_TopicConnection demo_request [demo_obs False, demo_obs False, demo_obs True] =
     Some (Inr (demo_reply, Some demo_connected, []))"
  by (simp add: demo_obs_def demo_request_def demo_reply_def demo_connect_def demo_connected_def topic_waits_def
      NodeHandler_find_wait_published_topic_def NodeHandler_new_def NodeHandler_advertise_def NodeHandler_add_published_topic_def
      connect_to_subscriber_def NodeHandler_add_tcp_client_def TCPClient_add_client_def Socket_create_socket_def
      Socket_set_nonblock_def TCPClient_get_socket_info_def string_of_cstr_def inet_ntop_def empty_client_info_def
      TCPClient_connect_thread_def TCPClient_write_fd_def TCPClient_new_def vec_set_def list_update_same_conv)

text \<open>
  C24: the first server of a service wins.  When \<^verbatim>\<open>ServiceConnection\<close> answers a server positively, the waiting
  client is given that server's address; and from then on, until the client is reset, no other request
  for the service is ever answered: a second server's call goes on waiting.
\<close>

theorem first_service_server_wins:
  assumes "NodeConnectionServerImpl_ServiceConnection rq obs nh = Some (Inr (reply, nh'))" and "rp_object reply \<noteq> []"
    and "rq_object rq' = rq_object rq" and "\<not> NodeHandler_find_serving_service (rq_object rq) nh'"
    and "\<forall>ob\<in>set obs'. so_ok ob \<and> \<not> so_cancelled ob \<and> Reset_Served (rq_object rq) \<notin> set (so_ops ob)"
  shows "nh_services nh' (CHR ''d'' # rq_object rq) = Some (Set_To (addr_token (rq_ip rq) (rq_port rq))) \<and>
    NodeConnectionServerImpl_ServiceConnection rq' obs' nh' = None"
proof -
  from assms(1) have "service_loop rq obs nh = Some (reply, nh')"
    by (auto simp: NodeConnectionServerImpl_ServiceConnection_def split: if_splits)
  from service_loop_granted [OF this assms(2)]
  have set_to: "nh_services nh' (CHR ''d'' # rq_object rq) = Some (Set_To (addr_token (rq_ip rq) (rq_port rq)))" .
  moreover from set_to have "service_loop rq' obs' nh' = None"
    by (intro service_loop_occupied) (use assms(3,5) in simp_all)
  ultimately show ?thesis using assms(3,4) by (simp add: NodeConnectionServerImpl_ServiceConnection_def)
qed

definition demo_server :: "int \<Rightarrow> ConnectionRequest" where
  "demo_server port = \<lparr>rq_object = ''add'', rq_ip = ''10.0.0.3'', rq_port = port, rq_url = '''', rq_node = ''hello/adder''\<rparr>"

theorem first_service_server_wins_witness:
  "\<exists>nh'. NodeConnectionServerImpl_ServiceConnection (demo_server 7000)
       [\<lparr>so_ok = True, so_cancelled = False, so_ops = []\<rparr>, \<lparr>so_ok = True, so_cancelled = False, so_ops = [Served ''add'']\<rparr>] demo_node =
       Some (Inr (empty_reply\<lparr>rp_object := ''add''\<rparr>, nh')) \<and>
     nh_services nh' ''dadd'' = Some (Set_To (addr_token ''10.0.0.3'' 7000)) \<and>
     NodeConnectionServerImpl_ServiceConnection (demo_server 7001) [\<lparr>so_ok = True, so_cancelled = False, so_ops = []\<rparr>] nh' = None"
proof -
  let ?nh = "demo_node\<lparr>nh_services := [''dadd'' \<mapsto> Set_To (addr_token ''10.0.0.3'' 7000)]\<rparr>"
  have run: "NodeConnectionServerImpl_ServiceConnection (demo_server 7000)
       [\<lparr>so_ok = True, so_cancelled = False, so_ops = []\<rparr>, \<lparr>so_ok = True, so_cancelled = False, so_ops = [Served ''add'']\<rparr>] demo_node =
       Some (Inr (empty_reply\<lparr>rp_object := ''add''\<rparr>, ?nh))"
    by (simp add: NodeConnectionServerImpl_ServiceConnection_def demo_server_def NodeHandler_find_serving_service_def
        NodeHandler_find_wait_served_service_def NodeHandler_add_served_service_def NodeHandler_add_rpc_service_client_def
        demo_node_def subscribe_node_def NodeHandler_new_def NodeHandler_add_subscribed_topic_def)
  from first_service_server_wins [OF this, of "demo_server 7001" "[\<lparr>so_ok = True, so_cancelled = False, so_ops = []\<rparr>]"] run
  show ?thesis by (auto simp: demo_server_def NodeHandler_find_serving_service_def)
qed

text \<open>
  A second subscription to a topic repeats the connection request.  Every connected peer is asked
  for the topic twice and opens two connections for it, while both callbacks sit in the one decoder of
  the topic: each of them is then called twice for every message.
\<close>

lemma second_subscription_doubles:
  assumes "NodeHandler_subscribe_impl pbs url topic cb nh srv = Inr (nh1, srv1)"
    and "NodeHandler_subscribe_impl pbs url topic cb' nh1 srv1 = Inr (nh2, srv2)"
    and "nclub_clients (nh_connection_clients nh) n = Some (addr, c)"
  shows "\<exists>rq. rq_object rq = topic \<and>
    nclub_clients (nh_connection_clients nh2) n = Some (addr, c @ [Topic_Call rq, Topic_Call rq]) \<and>
    subscribers srv2 topic = Some ((case subscribers srv topic of None \<Rightarrow> [] | Some fs \<Rightarrow> fs) @ [cb, cb'])"
  using assms
  by (auto simp: NodeHandler_subscribe_impl_def bind_result_Inr_iff subscribe_node_def NodeHandler_add_subscribed_topic_def
      NodeConnectionClientClub_pull_subscribe_request_def NodeConnectionClient_pull_subscribe_request_def Let_def
      subscribe_decoder_def SpecifiedDecoder_add_callback_def subscribers_def split: if_splits option.splits)

section \<open>The departure of a node\<close>

text \<open>Joining ends exactly when every thread has returned; then the node is deleted as the tables say.\<close>

lemma client_delete_iff:
  "NodeConnectionClient_delete pbs ans cs = Some () \<longleftrightarrow>
     length cs \<le> length ans \<and> (\<forall>i < length cs. call_returned pbs (cs ! i) (ans ! i))"
  by (induction pbs ans cs rule: NodeConnectionClient_delete.induct) (auto simp: All_less_Suc2)

lemma delete_node_joins_Some:
  assumes "delete_node_joins pbs ans ended node nh = Some nh'"
  shows "nh' = NodeHandler_delete_node node nh"
  using assms
  by (auto simp: delete_node_joins_def delete_client_joins_def param_delete_joins_def NodeHandler_delete_node_def split: option.splits)

lemma empty_reply_never_returns:
  assumes "tcp_start s0" and "(tcp_step pbs)\<^sup>*\<^sup>* s0 (an_server a)" and "an_status_ok a" and "an_reply a = empty_reply"
  shows "\<not> call_returned pbs (Topic_Call rq) (Some a)"
  using accept_client_no_ip [OF tcp_tokens.reachable_inv [OF assms(1,2)]] assms(3,4)
  by (auto simp: topic_reply_thread_def NodeHandler_accept_topic_publish_def empty_reply_def split: option.splits sum.splits)

text \<open>
  C34: a failed connection keeps a node from leaving.  Let a node have asked a peer for a topic, and let the
  peer publish the topic but fail to connect to the node's server.  \<^verbatim>\<open>TopicConnection\<close> answers this with an empty reply and
  the status OK, and the thread that receives it never returns: when the peer leaves, \<^verbatim>\<open>delete_node\<close> waits
  for that thread for ever, in any reachable state of the server and whatever the spin thread does, and so
  does the registration thread that called it.  If all threads have returned, those of the peer's
  parameters included, \<^verbatim>\<open>delete_node\<close> returns.
\<close>

theorem failed_connection_blocks_departure:
  fixes nh :: "('b, 'c) NodeHandler" and ob :: "('d, 'e) topic_obs"
  assumes "nclub_clients (nh_connection_clients nh) peer = Some (addr, calls)"
  shows "((\<forall>i < length calls. call_returned pbs (calls ! i) (ans ! i)) \<and> length calls \<le> length ans \<and>
     (\<forall>a c. pclub_clients (nh_param_clients nh) peer = Some (a, c) \<longrightarrow> list_all ended (pc_streams c)) \<longrightarrow>
      delete_node_joins pbs ans ended peer nh = Some (NodeHandler_delete_node peer nh)) \<and>
    (i < length calls \<and> calls ! i = Topic_Call rq \<and>
     ob_ok ob \<and> \<not> ob_cancelled ob \<and> NodeHandler_find_wait_published_topic (rq_object rq) (rq_url rq) (ob_node ob) \<and>
     connect_to_subscriber (rq_object rq) ob = Some (Inr (info, False, c, bs)) \<and>
     NodeConnectionServerImpl_TopicConnection rq (ob # obs) = Some (Inr (reply, cl, out)) \<and>
     ans ! i = Some a \<and> an_status_ok a \<and> an_reply a = reply \<and> tcp_start fresh \<and> (tcp_step pbs)\<^sup>*\<^sup>* fresh (an_server a) \<longrightarrow>
      delete_node_joins pbs ans ended peer nh = None)"
proof (intro conjI impI)
  assume ret: "(\<forall>i < length calls. call_returned pbs (calls ! i) (ans ! i)) \<and> length calls \<le> length ans \<and>
     (\<forall>a c. pclub_clients (nh_param_clients nh) peer = Some (a, c) \<longrightarrow> list_all ended (pc_streams c))"
  then have "NodeConnectionClient_delete pbs ans calls = Some ()" by (simp add: client_delete_iff)
  with assms ret show "delete_node_joins pbs ans ended peer nh = Some (NodeHandler_delete_node peer nh)"
    by (auto simp: delete_node_joins_def delete_client_joins_def param_delete_joins_def ParamRPCClient_delete_def
        NodeHandler_delete_node_def split: option.split)
next
  assume a: "i < length calls \<and> calls ! i = Topic_Call rq \<and>
     ob_ok ob \<and> \<not> ob_cancelled ob \<and> NodeHandler_find_wait_published_topic (rq_object rq) (rq_url rq) (ob_node ob) \<and>
     connect_to_subscriber (rq_object rq) ob = Some (Inr (info, False, c, bs)) \<and>
     NodeConnectionServerImpl_TopicConnection rq (ob # obs) = Some (Inr (reply, cl, out)) \<and>
     ans ! i = Some a \<and> an_status_ok a \<and> an_reply a = reply \<and> tcp_start fresh \<and> (tcp_step pbs)\<^sup>*\<^sup>* fresh (an_server a)"
  then have "an_reply a = empty_reply" by auto
  with a have "\<not> call_returned pbs (calls ! i) (ans ! i)" using empty_reply_never_returns [of fresh pbs a rq] by auto
  with a have "NodeConnectionClient_delete pbs ans calls \<noteq> Some ()" unfolding client_delete_iff by blast
  then have "NodeConnectionClient_delete pbs ans calls = None" by (metis (full_types) not_None_eq old.unit.exhaust)
  with assms show "delete_node_joins pbs ans ended peer nh = None"
    by (simp add: delete_node_joins_def delete_client_joins_def)
qed

theorem failed_connection_blocks_departure_witness:
  "delete_node_joins (\<lambda>t. example_pb) [Some \<lparr>an_status_ok = False, an_reply = empty_reply, an_ctl = 0, an_rounds = [], an_server = demo_start\<rparr>] (\<lambda>n. True)
     ''hello/talker'' (NodeRegist_reply demo_peer demo_node) \<noteq> None \<and>
   delete_node_joins (\<lambda>t. example_pb) [Some \<lparr>an_status_ok = True, an_reply = empty_reply, an_ctl = 0, an_rounds = replicate 600 [], an_server = demo_start\<rparr>] (\<lambda>n. True)
     ''hello/talker'' (NodeRegist_reply demo_peer demo_node) = None"
proof -
  let ?nh = "NodeRegist_reply demo_peer demo_node"
  let ?a = "\<lambda>ok rounds. \<lparr>an_status_ok = ok, an_reply = empty_reply, an_ctl = 0, an_rounds = rounds, an_server = demo_start\<rparr>"
  let ?ob = "(demo_obs True)\<lparr>ob_thread := \<lparr>ta_select = 1, ta_getsockopt = 0, ta_err = 111, ta_cache = [], ta_errno = E_OTHER, ta_writes = []\<rparr>\<rparr>"
  have c: "nclub_clients (nh_connection_clients ?nh) ''hello/talker'' = Some (addr_token ''10.0.0.1'' 6000, [Topic_Call demo_request])"
    by (simp add: demo_node_simps)
  have pub: "NodeHandler_find_wait_published_topic (rq_object demo_request) (rq_url demo_request) (ob_node ?ob)" "ob_ok ?ob" "\<not> ob_cancelled ?ob"
    by (simp_all add: demo_obs_def demo_request_def NodeHandler_find_wait_published_topic_def NodeHandler_new_def
        NodeHandler_advertise_def NodeHandler_add_published_topic_def)
  obtain info cl where fail: "connect_to_subscriber (rq_object demo_request) ?ob = Some (Inr (info, False, cl, []))"
    by (simp add: demo_obs_def demo_request_def demo_connect_def connect_to_subscriber_def NodeHandler_add_tcp_client_def
        TCPClient_add_client_def Socket_create_socket_def Socket_set_nonblock_def TCPClient_get_socket_info_def
        string_of_cstr_def inet_ntop_def empty_client_info_def TCPClient_connect_thread_def)
  have reply: "NodeConnectionServerImpl_TopicConnection demo_request [?ob] = Some (Inr (empty_reply, Some cl, []))"
    using pub fail by simp
  have run: "(tcp_step (\<lambda>t. example_pb))\<^sup>*\<^sup>* demo_start (an_server (?a ok rounds))" for ok rounds by simp
  have "delete_node_joins (\<lambda>t. example_pb) [Some (?a False [])] (\<lambda>n. True) ''hello/talker'' ?nh = Some (NodeHandler_delete_node ''hello/talker'' ?nh)"
    using conjunct1 [OF failed_connection_blocks_departure [OF c], of "\<lambda>t. example_pb" "[Some (?a False [])]" "\<lambda>n. True"]
    by (simp add: topic_reply_thread_def list_all_iff)
  moreover have "delete_node_joins (\<lambda>t. example_pb) [Some (?a True (replicate 600 []))] (\<lambda>n. True) ''hello/talker'' ?nh = None"
    by (rule mp [OF conjunct2 [OF failed_connection_blocks_departure [OF c]], of 0 demo_request ?ob info cl "[]" "[]" empty_reply "Some cl" "[]" "[Some (?a True (replicate 600 []))]" "?a True (replicate 600 [])" demo_start])
      (use pub fail reply run tcp_start_demo in simp)
  ultimately show ?thesis by simp
qed

end
