(* ===== verification/Connection_Wait.thy ===== *)
theory Connection_Wait
  imports Node_Handler
begin

text \<open>
  How a call of \<^verbatim>\<open>TopicConnection\<close> or \<^verbatim>\<open>ServiceConnection\<close> waits (\<^verbatim>\<open>rscl.cpp\<close>).  \<^verbatim>\<open>Node_Handler\<close> has what these calls
  compute from what they observe; here are the points of their loop, the condition variable, and the threads
  that change the node's tables: \<^verbatim>\<open>advertise\<close> and \<^verbatim>\<open>serviceClient\<close> first change a table and then call
  \<^verbatim>\<open>notify_all\<close>, and other threads run in between.
\<close>

section \<open>The loop\<close>

datatype wait_pc =
    At_Head      \<comment> \<open>at the condition of the \<open>while\<close>\<close>
  | At_Look      \<comment> \<open>in front of the test for the topic or service\<close>
  | At_Pred      \<comment> \<open>in \<open>cv.wait\<close>, in front of its predicate\<close>
  | Before_Wait  \<comment> \<open>in \<open>cv.wait\<close>: the predicate was false, and the thread is not blocked yet\<close>
  | Waiting      \<comment> \<open>blocked\<close>
  | Found        \<comment> \<open>in front of the connection\<close>
  | Left         \<comment> \<open>behind the loop\<close>

record ('b, 'c) waiting_call =
  wc_node :: "('b, 'c) NodeHandler"
  wc_ok :: bool
  wc_cancelled :: bool
  wc_pc :: wait_pc
  wc_announced :: nat     \<comment> \<open>calls that have changed a table and have not called \<open>notify_all\<close> yet\<close>

text \<open>
  A step of the thread.  \<open>found\<close> is the test of the node: \<^verbatim>\<open>find_wait_published_topic\<close> in \<^verbatim>\<open>TopicConnection\<close> and
  \<^verbatim>\<open>find_wait_served_service\<close> in \<^verbatim>\<open>ServiceConnection\<close>.  What a call does at \<open>Found\<close> is in \<^verbatim>\<open>Node_Handler\<close> (\<open>connect_to_subscriber\<close>,
  \<open>service_loop\<close>); a service call that does not get the client there comes back to the head of the loop.
\<close>

definition call_step :: "(('b, 'c) NodeHandler \<Rightarrow> bool) \<Rightarrow> ('b, 'c) waiting_call \<Rightarrow> ('b, 'c) waiting_call" where
  "call_step found w = w\<lparr>wc_pc :=
     (case wc_pc w of
        At_Head \<Rightarrow> if wc_ok w \<and> \<not> wc_cancelled w then At_Look else Left
      | At_Look \<Rightarrow> if found (wc_node w) then Found else At_Pred
      | At_Pred \<Rightarrow> if found (wc_node w) \<or> \<not> wc_ok w then At_Head else Before_Wait
      | Before_Wait \<Rightarrow> Waiting
      | pc \<Rightarrow> pc)\<rparr>"

definition NodeConnectionServerImpl_notify_all :: "('b, 'c) waiting_call \<Rightarrow> ('b, 'c) waiting_call" where
  "NodeConnectionServerImpl_notify_all w = w\<lparr>wc_pc := (case wc_pc w of Waiting \<Rightarrow> At_Pred | pc \<Rightarrow> pc)\<rparr>"

definition advertise_and_notify :: "string \<Rightarrow> string \<Rightarrow> ('b, 'c) waiting_call \<Rightarrow> ('b, 'c) waiting_call" where
  "advertise_and_notify url topic w =
     NodeConnectionServerImpl_notify_all (w\<lparr>wc_node := NodeHandler_advertise url topic (wc_node w)\<rparr>)"

definition serviceClient_and_notify :: "string \<Rightarrow> ('b, 'c) waiting_call \<Rightarrow> ('b, 'c) waiting_call result" where
  "serviceClient_and_notify service w =
     bind_result (NodeHandler_serviceClient service (wc_node w)) (\<lambda>nh.
       Inr (NodeConnectionServerImpl_notify_all (w\<lparr>wc_node := nh\<rparr>)))"

text \<open>
  The interleaving of the thread with the application, which changes the tables in one step and notifies in a later
  one.  Blocked threads can also wake up without reason.  What \<open>announces\<close> holds of is \<^verbatim>\<open>advertise\<close> and \<^verbatim>\<open>serviceClient\<close>, the
  two functions that call \<^verbatim>\<open>notify_all\<close>.
\<close>

definition announces :: "('b, 'c) NodeHandler \<Rightarrow> ('b, 'c) NodeHandler \<Rightarrow> bool" where
  "announces nh nh' \<longleftrightarrow> (\<exists>url topic. nh' = NodeHandler_advertise url topic nh) \<or>
     (\<exists>service. NodeHandler_serviceClient service nh = Inr nh')"

inductive wait_step :: "(('b, 'c) NodeHandler \<Rightarrow> bool) \<Rightarrow> ('b, 'c) waiting_call \<Rightarrow> ('b, 'c) waiting_call \<Rightarrow> bool"
    for found where
  own: "wait_step found w (call_step found w)"
| spurious: "wc_pc w = Waiting \<Longrightarrow> wait_step found w (w\<lparr>wc_pc := At_Pred\<rparr>)"
| announce: "app_step (wc_node w) nh' \<Longrightarrow> announces (wc_node w) nh' \<Longrightarrow>
    wait_step found w (w\<lparr>wc_node := nh', wc_announced := Suc (wc_announced w)\<rparr>)"
| other: "node_step (wc_node w) nh' \<Longrightarrow> \<not> announces (wc_node w) nh' \<Longrightarrow> wait_step found w (w\<lparr>wc_node := nh'\<rparr>)"
| notify: "wc_announced w = Suc n \<Longrightarrow>
    wait_step found w (NodeConnectionServerImpl_notify_all (w\<lparr>wc_announced := n\<rparr>))"
| cancel: "wait_step found w (w\<lparr>wc_cancelled := True\<rparr>)"
| stop: "wait_step found w (w\<lparr>wc_ok := False\<rparr>)"

definition wait_start :: "('b, 'c) waiting_call \<Rightarrow> bool" where
  "wait_start w \<longleftrightarrow> wc_pc w = At_Head"

text \<open>A step in which no notification falls between the predicate and the blocking of the thread.\<close>

definition calm_step :: "(('b, 'c) NodeHandler \<Rightarrow> bool) \<Rightarrow> ('b, 'c) waiting_call \<Rightarrow> ('b, 'c) waiting_call \<Rightarrow> bool" where
  "calm_step found w w' \<longleftrightarrow> wait_step found w w' \<and> \<not> (wc_pc w = Before_Wait \<and> wc_announced w' < wc_announced w)"

section \<open>What the thread does when the test has become true\<close>

lemma call_step_fields [simp]:
  "wc_node (call_step found w) = wc_node w" "wc_ok (call_step found w) = wc_ok w"
  "wc_cancelled (call_step found w) = wc_cancelled w" "wc_announced (call_step found w) = wc_announced w"
  by (simp_all add: call_step_def)

lemma notify_all_fields [simp]:
  "wc_node (NodeConnectionServerImpl_notify_all w) = wc_node w" "wc_ok (NodeConnectionServerImpl_notify_all w) = wc_ok w"
  "wc_cancelled (NodeConnectionServerImpl_notify_all w) = wc_cancelled w"
  "wc_announced (NodeConnectionServerImpl_notify_all w) = wc_announced w"
  by (simp_all add: NodeConnectionServerImpl_notify_all_def)

lemma call_step_pcs:
  "wc_pc w = At_Head \<Longrightarrow> wc_ok w \<Longrightarrow> \<not> wc_cancelled w \<Longrightarrow> wc_pc (call_step found w) = At_Look"
  "wc_pc w = At_Look \<Longrightarrow> found (wc_node w) \<Longrightarrow> wc_pc (call_step found w) = Found"
  "wc_pc w = At_Pred \<Longrightarrow> found (wc_node w) \<Longrightarrow> wc_pc (call_step found w) = At_Head"
  "wc_pc w = Before_Wait \<Longrightarrow> wc_pc (call_step found w) = Waiting"
  "wc_pc w = Waiting \<Longrightarrow> wc_pc (call_step found w) = Waiting"
  "wc_pc w = Found \<Longrightarrow> wc_pc (call_step found w) = Found"
  by (simp_all add: call_step_def)

text \<open>Three steps are enough.\<close>

lemma call_runs:
  assumes "found (wc_node w)" and "wc_ok w" and "\<not> wc_cancelled w"
  shows "wc_pc w \<in> {At_Head, At_Look, At_Pred, Found} \<Longrightarrow> wc_pc ((call_step found ^^ 3) w) = Found"
    and "wc_pc w \<in> {Before_Wait, Waiting} \<Longrightarrow> wc_pc ((call_step found ^^ 3) w) = Waiting"
  using assms by (auto simp: numeral_3_eq_3 call_step_pcs)

lemma call_run_fields [simp]:
  "wc_node ((call_step found ^^ n) w) = wc_node w" "wc_ok ((call_step found ^^ n) w) = wc_ok w"
  "wc_cancelled ((call_step found ^^ n) w) = wc_cancelled w"
  by (induction n) simp_all

lemma notify_all_pc:
  "wc_pc (NodeConnectionServerImpl_notify_all w) = (if wc_pc w = Waiting then At_Pred else wc_pc w)"
  by (simp add: NodeConnectionServerImpl_notify_all_def split: wait_pc.split)

text \<open>
  The effect of a notification on a call whose test is true by then: it is served at once, unless the notification
  falls between the predicate and the blocking; then it is served with the next one.
\<close>

lemma notified_call:
  assumes "found (wc_node w)" and "wc_ok w" and "\<not> wc_cancelled w" and "wc_pc w \<noteq> Left"
    and "w' = (call_step found ^^ 3) (NodeConnectionServerImpl_notify_all w)"
  shows "if wc_pc w = Before_Wait
    then wc_pc w' = Waiting \<and> wc_pc ((call_step found ^^ 3) (NodeConnectionServerImpl_notify_all w')) = Found
    else wc_pc w' = Found"
proof (cases "wc_pc w = Before_Wait")
  case True
  with call_runs(2) [of found "NodeConnectionServerImpl_notify_all w"] assms have "wc_pc w' = Waiting"
    by (simp add: notify_all_pc)
  moreover from this call_runs(1) [of found "NodeConnectionServerImpl_notify_all w'"] assms
  have "wc_pc ((call_step found ^^ 3) (NodeConnectionServerImpl_notify_all w')) = Found" by (simp add: notify_all_pc)
  ultimately show ?thesis using True by simp
next
  case False
  with call_runs(1) [of found "NodeConnectionServerImpl_notify_all w"] assms show ?thesis
    by (cases "wc_pc w") (simp_all add: notify_all_pc)
qed

section \<open>No call is overlooked\<close>

lemma announces_advertise: "announces nh (NodeHandler_advertise url topic nh)"
  unfolding announces_def by blast

text \<open>A topic becomes published by \<^verbatim>\<open>advertise\<close> and by nothing else.\<close>

lemma published_by_advertise:
  assumes "node_step nh nh'" and "NodeHandler_find_wait_published_topic topic url nh'"
  shows "NodeHandler_find_wait_published_topic topic url nh \<or> announces nh nh'"
  using assms(1)
proof cases
  case app
  have same: "nh_topics nh' = nh_topics nh \<Longrightarrow> ?thesis"
    using assms(2) by (simp add: NodeHandler_find_wait_published_topic_def)
  from app show ?thesis
  proof cases
    case (subscribe url' topic')
    with assms(2) show ?thesis
      by (simp add: NodeHandler_find_wait_published_topic_def subscribe_node_def NodeHandler_add_subscribed_topic_def Let_def split: if_splits)
  next
    case advertise
    then show ?thesis by (simp add: announces_advertise)
  next
    case service_client
    then show ?thesis unfolding announces_def by blast
  next
    case (service_found service ip port)
    then show ?thesis
      by (intro same) (simp add: NodeHandler_add_rpc_service_client_def split: option.splits service_promise.splits)
  qed (rule same; auto simp: NodeHandler_serviceServer_def NodeHandler_reset_served_service_def NodeHandler_declareParameter_def
      NodeHandler_setParameter_def NodeHandler_getRemoteParameter_def NodeHandler_getRemoteDynamicParameter_def
      NodeHandler_add_serving_service_def bind_result_Inr_iff Let_def split: prod.splits)+
next
  case reply
  with assms(2) show ?thesis by (simp add: NodeHandler_find_wait_published_topic_def)
qed

abbreviation published :: "ConnectionRequest \<Rightarrow> ('b, 'c) NodeHandler \<Rightarrow> bool" where
  "published rq \<equiv> NodeHandler_find_wait_published_topic (rq_object rq) (rq_url rq)"

definition calm_inv :: "ConnectionRequest \<Rightarrow> ('b, 'c) waiting_call \<Rightarrow> bool" where
  "calm_inv rq w \<longleftrightarrow> (wc_pc w \<in> {Before_Wait, Waiting} \<and> published rq (wc_node w) \<longrightarrow> 0 < wc_announced w)"

lemma calm_step_inv:
  assumes "calm_inv rq w" and "calm_step (published rq) w w'"
  shows "calm_inv rq w'"
proof -
  have calm: "\<not> (wc_pc w = Before_Wait \<and> wc_announced w' < wc_announced w)" and "wait_step (published rq) w w'"
    using assms(2) by (simp_all add: calm_step_def)
  from this(2) show ?thesis
  proof cases
    case own
    with assms(1) show ?thesis by (cases "wc_pc w") (auto simp: calm_inv_def call_step_def)
  next
    case (other nh')
    with assms(1) published_by_advertise [of "wc_node w" nh' "rq_object rq" "rq_url rq"] show ?thesis
      by (auto simp: calm_inv_def)
  next
    case (notify n)
    with calm show ?thesis by (auto simp: calm_inv_def notify_all_pc split: if_splits)
  qed (use assms(1) in \<open>auto simp: calm_inv_def\<close>)
qed

interpretation calm: invariant_system wait_start "calm_step (published rq)" "calm_inv rq" for rq
proof unfold_locales
  show "wait_start w \<Longrightarrow> calm_inv rq w" for w by (simp add: wait_start_def calm_inv_def)
qed (rule calm_step_inv)

section \<open>Properties\<close>

text \<open>
  C25: a waiting call is served.  At whatever point of its loop a call is, if the program runs and the call is not cancelled:
  when the topic is advertised with the requested type, and three steps of the thread later, the call is in
  front of the connection.  The same holds for a service and its client.  There is one exception: a
  notification that falls between the predicate of \<^verbatim>\<open>cv.wait\<close> and the blocking of the thread is lost, and the call
  waits, although it could be served, until the next notification of the node, which serves it.
\<close>

theorem waiting_call_served:
  assumes "wc_ok w" and "\<not> wc_cancelled w" and "wc_pc w \<noteq> Left"
    and "w1 = (call_step (published rq) ^^ 3) (advertise_and_notify (rq_url rq) (rq_object rq) w)"
    and "serviceClient_and_notify service w = Inr v"
    and "v1 = (call_step (NodeHandler_find_wait_served_service service) ^^ 3) v"
  shows "(if wc_pc w = Before_Wait
      then wc_pc w1 = Waiting \<and> wc_pc ((call_step (published rq) ^^ 3) (NodeConnectionServerImpl_notify_all w1)) = Found
      else wc_pc w1 = Found) \<and>
    (if wc_pc w = Before_Wait
      then wc_pc v1 = Waiting \<and>
        wc_pc ((call_step (NodeHandler_find_wait_served_service service) ^^ 3) (NodeConnectionServerImpl_notify_all v1)) = Found
      else wc_pc v1 = Found)"
proof
  have "published rq (NodeHandler_advertise (rq_url rq) (rq_object rq) (wc_node w))"
    by (simp add: NodeHandler_find_wait_published_topic_def NodeHandler_advertise_def NodeHandler_add_published_topic_def)
  with notified_call [of "published rq" "w\<lparr>wc_node := NodeHandler_advertise (rq_url rq) (rq_object rq) (wc_node w)\<rparr>" w1] assms(1-4)
  show "if wc_pc w = Before_Wait
      then wc_pc w1 = Waiting \<and> wc_pc ((call_step (published rq) ^^ 3) (NodeConnectionServerImpl_notify_all w1)) = Found
      else wc_pc w1 = Found" by (simp add: advertise_and_notify_def)
  from assms(5) obtain nh where nh: "NodeHandler_serviceClient service (wc_node w) = Inr nh"
    and v: "v = NodeConnectionServerImpl_notify_all (w\<lparr>wc_node := nh\<rparr>)"
    by (auto simp: serviceClient_and_notify_def bind_result_Inr_iff)
  from nh have "NodeHandler_find_wait_served_service service nh"
    by (auto simp: NodeHandler_serviceClient_def NodeHandler_add_served_service_def NodeHandler_find_wait_served_service_def
        split: if_splits option.splits)
  with notified_call [of "NodeHandler_find_wait_served_service service" "w\<lparr>wc_node := nh\<rparr>" v1] assms(1-3,6) v
  show "if wc_pc w = Before_Wait
      then wc_pc v1 = Waiting \<and>
        wc_pc ((call_step (NodeHandler_find_wait_served_service service) ^^ 3) (NodeConnectionServerImpl_notify_all v1)) = Found
      else wc_pc v1 = Found" by simp
qed

definition demo_call :: "wait_pc \<Rightarrow> (int, int) waiting_call" where
  "demo_call pc = \<lparr>wc_node = NodeHandler_new ''talker'' ''hello'' None 4001 5001, wc_ok = True, wc_cancelled = False,
     wc_pc = pc, wc_announced = 0\<rparr>"

theorem waiting_call_served_witness:
  "wc_pc ((call_step (published demo_request) ^^ 3) (advertise_and_notify (rq_url demo_request) (rq_object demo_request) (demo_call Waiting))) = Found \<and>
   wc_pc ((call_step (published demo_request) ^^ 3) (advertise_and_notify (rq_url demo_request) (rq_object demo_request) (demo_call Before_Wait))) = Waiting"
proof -
  have client: "\<exists>v. serviceClient_and_notify ''add'' (demo_call pc) = Inr v" for pc
    by (simp add: serviceClient_and_notify_def demo_call_def NodeHandler_serviceClient_def NodeHandler_add_served_service_def NodeHandler_new_def)
  have "if pc = Before_Wait
      then wc_pc ((call_step (published demo_request) ^^ 3) (advertise_and_notify (rq_url demo_request) (rq_object demo_request) (demo_call pc))) = Waiting
      else wc_pc ((call_step (published demo_request) ^^ 3) (advertise_and_notify (rq_url demo_request) (rq_object demo_request) (demo_call pc))) = Found"
    if "pc \<noteq> Left" for pc
  proof -
    obtain v where "serviceClient_and_notify ''add'' (demo_call pc) = Inr v" using client by blast
    from waiting_call_served [OF _ _ _ refl this refl, of demo_request] that show ?thesis
      by (simp add: demo_call_def split: if_splits)
  qed
  from this [of Waiting] this [of Before_Wait] show ?thesis by simp
qed

text \<open>
  C26: no call is overlooked.  Take any run of a call of \<^verbatim>\<open>TopicConnection\<close> beside any use of the node and any
  replies of the registrar, in which no notification falls between the predicate and the blocking of the thread.
  If the call is blocked and its topic is published, a notification is still to come; and when it comes and the
  call is not cancelled, the call is in front of the connection three steps later.
\<close>

theorem no_call_overlooked:
  assumes "wait_start w0" and "(calm_step (published rq))\<^sup>*\<^sup>* w0 w" and "wc_pc w = Waiting" and "published rq (wc_node w)"
  shows "\<exists>n. wc_announced w = Suc n \<and>
    wait_step (published rq) w (NodeConnectionServerImpl_notify_all (w\<lparr>wc_announced := n\<rparr>)) \<and>
    (wc_ok w \<and> \<not> wc_cancelled w \<longrightarrow>
      wc_pc ((call_step (published rq) ^^ 3) (NodeConnectionServerImpl_notify_all (w\<lparr>wc_announced := n\<rparr>))) = Found)"
proof -
  have "calm_inv rq w" by (rule calm.reachable_inv [OF assms(1,2)])
  with assms(3,4) obtain n where n: "wc_announced w = Suc n" by (auto simp: calm_inv_def gr0_conv_Suc)
  moreover from notified_call [OF _ _ _ _ refl, of "published rq" "w\<lparr>wc_announced := n\<rparr>"] assms(3,4)
  have "wc_ok w \<and> \<not> wc_cancelled w \<longrightarrow>
      wc_pc ((call_step (published rq) ^^ 3) (NodeConnectionServerImpl_notify_all (w\<lparr>wc_announced := n\<rparr>))) = Found"
    by simp
  ultimately show ?thesis using wait_step.notify by blast
qed

theorem no_call_overlooked_witness:
  "\<exists>(w :: (int, int) waiting_call) n. wc_pc w = Waiting \<and> published demo_request (wc_node w) \<and> wc_announced w = Suc n \<and>
     wc_pc ((call_step (published demo_request) ^^ 3) (NodeConnectionServerImpl_notify_all (w\<lparr>wc_announced := n\<rparr>))) = Found"
proof -
  let ?f = "published demo_request" and ?nh = "NodeHandler_new ''talker'' ''hello'' None 4001 5001 :: (int, int) NodeHandler"
  let ?w = "(demo_call Waiting)\<lparr>wc_node := NodeHandler_advertise ''std_msgs.String'' ''chat'' ?nh, wc_announced := 1\<rparr>"
  have own: "calm_step ?f w (call_step ?f w)" for w by (simp add: calm_step_def wait_step.own)
  have steps: "call_step ?f (demo_call At_Head) = demo_call At_Look" "call_step ?f (demo_call At_Look) = demo_call At_Pred"
    "call_step ?f (demo_call At_Pred) = demo_call Before_Wait" "call_step ?f (demo_call Before_Wait) = demo_call Waiting"
    by (simp_all add: call_step_def demo_call_def NodeHandler_find_wait_published_topic_def NodeHandler_new_def)
  have "calm_step ?f (demo_call Waiting) ?w"
    using wait_step.announce [of "demo_call Waiting", OF app_step.advertise announces_advertise]
    by (auto simp: calm_step_def demo_call_def)
  then have run: "(calm_step ?f)\<^sup>*\<^sup>* (demo_call At_Head) ?w"
    using own [of "demo_call At_Head"] own [of "demo_call At_Look"] own [of "demo_call At_Pred"] own [of "demo_call Before_Wait"]
    unfolding steps by (meson converse_rtranclp_into_rtranclp rtranclp.rtrancl_refl)
  have w: "wait_start (demo_call At_Head)" "wc_pc ?w = Waiting" "?f (wc_node ?w)" "wc_ok ?w" "\<not> wc_cancelled ?w"
    by (simp_all add: wait_start_def demo_call_def demo_request_def NodeHandler_find_wait_published_topic_def NodeHandler_advertise_def
        NodeHandler_add_published_topic_def)
  from no_call_overlooked [OF w(1) run w(2,3)] w show ?thesis by blast
qed

end
