(* ===== verification/Service_Server.thy ===== *)
theory Service_Server
  imports Prelude
begin

text \<open>
  \<^verbatim>\<open>cpp/include/ServiceServer.hpp\<close> and its constructor in \<^verbatim>\<open>cpp/include/rscl.hpp\<close>: the server of a service.

  The server keeps parallel vectors with one entry per stream; they only grow together, in
  \<^verbatim>\<open>CreateListenPort\<close>, so that a \<open>call_slot\<close> is the tuple of their entries for one stream.  One thread
  takes events from gRPC's completion queue (\<^verbatim>\<open>handle_event\<close>); every call runs the user's callback in a
  thread of its own.  A method that takes a stream id works on the slot of that stream; \<open>on_slot\<close> is the
  access to the vectors.  \<open>svc_step\<close> interleaves the two kinds of threads, a method call at a time.
\<close>

section \<open>State\<close>

datatype ServiceCallStatus = SUSPEND | SUCCESS | PROCESS | ABORTED | FAILED | PROMPTED

datatype ServiceRPCSetting = PULL_NEW_REQ | SET_CANCELED

record 'p ServiceRPCRequest =
  sq_setting :: ServiceRPCSetting
  sq_payload :: 'p

record 'r ServiceRPCReply =
  sr_status :: ServiceCallStatus
  sr_payload :: "'r option"

text \<open>A \<^verbatim>\<open>future<void>\<close>: without shared state, of a running call, or ready.\<close>

datatype call_future = Fut_None | Fut_Running | Fut_Done

text \<open>
  What gRPC has of a stream: it waits for a client, a client is connected, or the stream has ended.
  \<open>sl_writes\<close> are the replies handed to \<^verbatim>\<open>Write\<close> on the current stream, \<open>sl_open\<close> how many of them have
  not been completed, \<open>sl_cancelled\<close> is \<^verbatim>\<open>IsCancelled()\<close> of its context.
\<close>

datatype conn_state = Listening | Connected | Closed

record 'r call_slot =
  sl_status :: ServiceCallStatus
  sl_future :: call_future
  sl_queue :: "'r ServiceRPCReply list"
  sl_writes :: "'r ServiceRPCReply list"
  sl_open :: nat
  sl_cancelled :: bool
  sl_conn :: conn_state

record 'r ServiceServer =
  sv_stream_id :: nat
  sv_reusable_id :: "nat list"
  sv_slots :: "'r call_slot list"

definition on_slot :: "nat \<Rightarrow> ('r call_slot \<Rightarrow> 'r call_slot) \<Rightarrow> 'r ServiceServer \<Rightarrow> 'r ServiceServer result" where
  "on_slot sid f s = bind_result (vec_get (sv_slots s) sid) (\<lambda>sl. Inr (s\<lparr>sv_slots := (sv_slots s)[sid := f sl]\<rparr>))"

section \<open>Operations\<close>

definition isSuspend :: "'r call_slot \<Rightarrow> bool" where "isSuspend sl \<longleftrightarrow> sl_status sl = SUSPEND"
definition isPrompted :: "'r call_slot \<Rightarrow> bool" where "isPrompted sl \<longleftrightarrow> sl_status sl = PROMPTED"
definition isAborted :: "'r call_slot \<Rightarrow> bool" where "isAborted sl \<longleftrightarrow> sl_status sl = ABORTED"
definition isProcess :: "'r call_slot \<Rightarrow> bool" where "isProcess sl \<longleftrightarrow> sl_status sl = PROCESS"

definition stream_write :: "'r ServiceRPCReply \<Rightarrow> 'r call_slot \<Rightarrow> 'r call_slot" where
  "stream_write reply sl = sl\<lparr>sl_writes := sl_writes sl @ [reply], sl_open := sl_open sl + 1\<rparr>"

definition write_reply :: "'r ServiceRPCReply \<Rightarrow> 'r call_slot \<Rightarrow> 'r call_slot" where
  "write_reply reply sl =
     (if sl_cancelled sl then sl
      else if sl_queue sl = [] then stream_write reply sl
      else sl\<lparr>sl_queue := sl_queue sl @ [reply]\<rparr>)"

definition setProcess :: "'r call_slot \<Rightarrow> 'r call_slot" where
  "setProcess sl =
     (if \<not> isSuspend sl then sl
      else write_reply \<lparr>sr_status = PROCESS, sr_payload = None\<rparr> (sl\<lparr>sl_status := PROCESS\<rparr>))"

text \<open>\<^verbatim>\<open>setPrompted\<close> looks at the status under one lock and stores it under another.\<close>

definition store_prompted :: "'r call_slot \<Rightarrow> 'r call_slot" where
  "store_prompted sl = write_reply \<lparr>sr_status = PROMPTED, sr_payload = None\<rparr> (sl\<lparr>sl_status := PROMPTED\<rparr>)"

definition setPrompted :: "'r call_slot \<Rightarrow> 'r call_slot" where
  "setPrompted sl = (if \<not> isProcess sl then sl else store_prompted sl)"

definition setFailed :: "'r call_slot \<Rightarrow> 'r call_slot" where
  "setFailed sl = (if \<not> isProcess sl \<and> \<not> isPrompted sl then sl else sl\<lparr>sl_status := FAILED\<rparr>)"

definition setSuccess :: "'r call_slot \<Rightarrow> 'r call_slot" where
  "setSuccess sl = (if \<not> isProcess sl \<and> \<not> isPrompted sl then sl else sl\<lparr>sl_status := SUCCESS\<rparr>)"

definition setAborted :: "'r call_slot \<Rightarrow> 'r call_slot" where
  "setAborted sl = (if \<not> isProcess sl \<and> \<not> isPrompted sl then sl else sl\<lparr>sl_status := ABORTED\<rparr>)"

definition setSuspend :: "'r call_slot \<Rightarrow> 'r call_slot" where
  "setSuspend sl = (if isProcess sl \<or> isPrompted sl then sl else sl\<lparr>sl_status := SUSPEND\<rparr>)"

definition endStatus :: "'r call_slot \<Rightarrow> ServiceCallStatus \<times> 'r call_slot" where
  "endStatus sl =
     (if sl_status sl = SUSPEND \<or> sl_status sl = PROCESS \<or> sl_status sl = PROMPTED
      then (ABORTED, sl\<lparr>sl_status := ABORTED\<rparr>) else (sl_status sl, sl))"

text \<open>
  \<^verbatim>\<open>CreateListenPort\<close> up to \<^verbatim>\<open>future_storages[stream_id].get()\<close>, and from there on; \<open>None\<close>: \<^verbatim>\<open>get\<close> waits for a call
  that still runs.
\<close>

definition new_slot :: "'r call_slot" where
  "new_slot = \<lparr>sl_status = SUSPEND, sl_future = Fut_Done, sl_queue = [], sl_writes = [], sl_open = 0,
     sl_cancelled = False, sl_conn = Closed\<rparr>"

definition listen_begin :: "nat \<Rightarrow> 'r ServiceServer \<Rightarrow> 'r ServiceServer result" where
  "listen_begin sid s =
     on_slot sid setAborted (if length (sv_slots s) \<le> sid then s\<lparr>sv_slots := sv_slots s @ [new_slot]\<rparr> else s)"

definition listen_end :: "nat \<Rightarrow> 'r ServiceServer \<Rightarrow> 'r ServiceServer result option" where
  "listen_end sid s =
     (case vec_get (sv_slots s) sid of
        Inl err \<Rightarrow> Some (Inl err)
      | Inr sl \<Rightarrow>
          (case sl_future sl of
             Fut_None \<Rightarrow> Some (Inl Future_No_State)
           | Fut_Running \<Rightarrow> None
           | Fut_Done \<Rightarrow> Some (Inr (s\<lparr>sv_slots := (sv_slots s)[sid := sl\<lparr>sl_future := Fut_None, sl_cancelled := False,
               sl_writes := [], sl_open := 0, sl_conn := Listening\<rparr>]\<rparr>))))"

definition CreateListenPort :: "nat \<Rightarrow> 'r ServiceServer \<Rightarrow> 'r ServiceServer result option" where
  "CreateListenPort sid s =
     (case listen_begin sid s of Inl err \<Rightarrow> Some (Inl err) | Inr s1 \<Rightarrow> listen_end sid s1)"

definition generate_stream_id :: "'r ServiceServer \<Rightarrow> nat \<times> 'r ServiceServer" where
  "generate_stream_id s =
     (case sv_reusable_id s of
        sid # ids \<Rightarrow> (sid, s\<lparr>sv_reusable_id := ids\<rparr>)
      | [] \<Rightarrow> (sv_stream_id s, s\<lparr>sv_stream_id := sv_stream_id s + 1\<rparr>))"

text \<open>The constructor: the server starts with ten streams that wait for clients.\<close>

fun open_ports :: "nat \<Rightarrow> 'r ServiceServer \<Rightarrow> 'r ServiceServer result option" where
  "open_ports 0 s = Some (Inr s)"
| "open_ports (Suc n) s =
     (let (sid, s1) = generate_stream_id s in
      case CreateListenPort sid s1 of
        None \<Rightarrow> None | Some (Inl err) \<Rightarrow> Some (Inl err) | Some (Inr s2) \<Rightarrow> open_ports n s2)"

definition ServiceServer_new :: "'r ServiceServer result option" where
  "ServiceServer_new = open_ports 10 \<lparr>sv_stream_id = 0, sv_reusable_id = [], sv_slots = []\<rparr>"

text \<open>
  An event of the completion queue; a \<^verbatim>\<open>READ\<close> comes with the request that gRPC has stored.  The result
  names the call that is started, if one is.
\<close>

datatype 'p service_tag = CONNECT nat | READ nat "'p ServiceRPCRequest" | WRITE nat | BROKEN_PIPE nat

definition connect_begin :: "nat \<Rightarrow> 'r ServiceServer \<Rightarrow> (nat \<times> 'r ServiceServer) result" where
  "connect_begin i s =
     (let (sid, s1) = generate_stream_id s in bind_result (listen_begin sid s1) (\<lambda>s2. Inr (sid, s2)))"

definition connect_end :: "nat \<Rightarrow> nat \<Rightarrow> 'r ServiceServer \<Rightarrow> 'r ServiceServer result option" where
  "connect_end sid i s = map_option (\<lambda>r. bind_result r (on_slot i setSuspend)) (listen_end sid s)"

definition start_call :: "'r call_slot \<Rightarrow> 'r call_slot" where
  "start_call sl = (setProcess sl)\<lparr>sl_future := Fut_Running\<rparr>"

definition handle_read ::
    "nat \<Rightarrow> 'p ServiceRPCRequest \<Rightarrow> 'r ServiceServer \<Rightarrow> ('r ServiceServer \<times> (nat \<times> 'p) option) result" where
  "handle_read i req s =
     bind_result (vec_get (sv_slots s) i) (\<lambda>sl.
       if isSuspend sl \<and> sq_setting req = PULL_NEW_REQ
       then bind_result (on_slot i start_call s) (\<lambda>s'. Inr (s', Some (i, sq_payload req)))
       else if isProcess sl \<and> sq_setting req = SET_CANCELED
       then bind_result (on_slot i setPrompted s) (\<lambda>s'. Inr (s', None))
       else Inr (s, None))"

definition complete_write :: "'r call_slot \<Rightarrow> 'r call_slot" where
  "complete_write sl =
     (let sl1 = sl\<lparr>sl_open := sl_open sl - 1\<rparr> in
      case sl_queue sl of [] \<Rightarrow> sl1 | reply # rest \<Rightarrow> (stream_write reply sl1)\<lparr>sl_queue := rest\<rparr>)"

fun handle_event ::
    "'p service_tag \<Rightarrow> 'r ServiceServer \<Rightarrow> ('r ServiceServer \<times> (nat \<times> 'p) option) result option" where
  "handle_event (CONNECT i) s =
     (case connect_begin i s of
        Inl err \<Rightarrow> Some (Inl err)
      | Inr (sid, s1) \<Rightarrow> map_option (\<lambda>r. bind_result r (\<lambda>s2. Inr (s2, None))) (connect_end sid i s1))"
| "handle_event (READ i req) s = Some (handle_read i req s)"
| "handle_event (WRITE i) s = Some (bind_result (on_slot i complete_write s) (\<lambda>s'. Inr (s', None)))"
| "handle_event (BROKEN_PIPE i) s = Some (Inr (s\<lparr>sv_reusable_id := sv_reusable_id s @ [i]\<rparr>, None))"

text \<open>
  The loop of the event thread: in every round \<^verbatim>\<open>core::ok()\<close> and the answer of \<^verbatim>\<open>Next\<close>, which is \<open>None\<close> when the queue is shut
  down and otherwise an event with the flag that says whether its operation succeeded.  Failed operations
  are dropped.  The result has the calls that were started; \<open>None\<close>: the loop still runs.
\<close>

fun handle_event_thread ::
    "(bool \<times> ('p service_tag \<times> bool) option) list \<Rightarrow> 'r ServiceServer \<Rightarrow> ('r ServiceServer \<times> (nat \<times> 'p) list) result option" where
  "handle_event_thread [] s = None"
| "handle_event_thread ((core_ok, nxt) # rounds) s =
     (if \<not> core_ok then Some (Inr (s, []))
      else case nxt of
        None \<Rightarrow> Some (Inr (s, []))
      | Some (tag, ok) \<Rightarrow>
          if \<not> ok then handle_event_thread rounds s
          else case handle_event tag s of
            None \<Rightarrow> None
          | Some (Inl err) \<Rightarrow> Some (Inl err)
          | Some (Inr (s', started)) \<Rightarrow>
              map_option (\<lambda>r. bind_result r (\<lambda>(t, calls). Inr (t, (case started of None \<Rightarrow> [] | Some c \<Rightarrow> [c]) @ calls)))
                (handle_event_thread rounds s'))"

text \<open>Failed operations leave no trace.\<close>

lemma handle_event_thread_failed:
  "handle_event_thread rounds s =
     handle_event_thread (filter (\<lambda>(core_ok, nxt). core_ok \<longrightarrow> (\<forall>tag. nxt \<noteq> Some (tag, False))) rounds) s"
proof (induction rounds arbitrary: s)
  case (Cons round rounds)
  obtain core_ok nxt where "round = (core_ok, nxt)" by fastforce
  with Cons.IH show ?case by (auto split: option.split sum.split)
qed simp

section \<open>The threads of a server\<close>

text \<open>
  A call runs the callback, fetches the final status, writes the reply and suspends the stream.  While
  a \<^verbatim>\<open>CONNECT\<close> event is handled the event thread may have to wait for the last call on the stream that it
  reuses.
\<close>

datatype 'p job = J_Call 'p | J_Reply ServiceCallStatus | J_Suspend

datatype event_pc = E_Idle | E_Wait nat nat
  | E_Prompt nat     \<comment> \<open>only in \<open>fine_step\<close>: inside \<open>setPrompted\<close>, between its two locks\<close>

record ('p, 'r) svc =
  svc_server :: "'r ServiceServer"
  svc_pc :: event_pc
  svc_jobs :: "nat \<rightharpoonup> 'p job"

abbreviation slot :: "('p, 'r) svc \<Rightarrow> nat \<Rightarrow> 'r call_slot" where
  "slot w i \<equiv> sv_slots (svc_server w) ! i"

abbreviation streams :: "('p, 'r) svc \<Rightarrow> nat" where
  "streams w \<equiv> length (sv_slots (svc_server w))"

definition set_conn :: "nat \<Rightarrow> conn_state \<Rightarrow> 'r ServiceServer \<Rightarrow> 'r ServiceServer" where
  "set_conn i c s = s\<lparr>sv_slots := (sv_slots s)[i := (sv_slots s ! i)\<lparr>sl_conn := c\<rparr>]\<rparr>"

inductive svc_step :: "('p, 'r) svc \<Rightarrow> ('p, 'r) svc \<Rightarrow> bool" where
  connect: "svc_pc w = E_Idle \<Longrightarrow> i < streams w \<Longrightarrow> sl_conn (slot w i) = Listening \<Longrightarrow>
    connect_begin i (set_conn i Connected (svc_server w)) = Inr (sid, s) \<Longrightarrow>
    svc_step w (w\<lparr>svc_server := s, svc_pc := E_Wait sid i\<rparr>)"
| connected: "svc_pc w = E_Wait sid i \<Longrightarrow> connect_end sid i (svc_server w) = Some (Inr s) \<Longrightarrow>
    svc_step w (w\<lparr>svc_server := s, svc_pc := E_Idle\<rparr>)"
| read: "svc_pc w = E_Idle \<Longrightarrow> i < streams w \<Longrightarrow> sl_conn (slot w i) = Connected \<Longrightarrow>
    handle_event (READ i req) (svc_server w) = Some (Inr (s, started)) \<Longrightarrow>
    svc_step w (w\<lparr>svc_server := s,
      svc_jobs := (case started of None \<Rightarrow> svc_jobs w | Some (j, p) \<Rightarrow> (svc_jobs w)(j \<mapsto> J_Call p))\<rparr>)"
| written: "svc_pc w = E_Idle \<Longrightarrow> i < streams w \<Longrightarrow> 0 < sl_open (slot w i) \<Longrightarrow>
    handle_event (WRITE i :: 'p service_tag) (svc_server w) = Some (Inr (s, started)) \<Longrightarrow> svc_step w (w\<lparr>svc_server := s\<rparr>)"
| closed: "svc_pc w = E_Idle \<Longrightarrow> i < streams w \<Longrightarrow> sl_conn (slot w i) = Connected \<Longrightarrow>
    handle_event (BROKEN_PIPE i :: 'p service_tag) (set_conn i Closed (svc_server w)) = Some (Inr (s, started)) \<Longrightarrow>
    svc_step w (w\<lparr>svc_server := s\<rparr>)"
| cancelled: "on_slot i (\<lambda>sl. sl\<lparr>sl_cancelled := True\<rparr>) (svc_server w) = Inr s \<Longrightarrow> svc_step w (w\<lparr>svc_server := s\<rparr>)"
| callback: "svc_jobs w i = Some (J_Call p) \<Longrightarrow> f \<in> {setSuccess, setFailed, setAborted} \<Longrightarrow>
    on_slot i f (svc_server w) = Inr s \<Longrightarrow> svc_step w (w\<lparr>svc_server := s\<rparr>)"
| return: "svc_jobs w i = Some (J_Call p) \<Longrightarrow> on_slot i (snd \<circ> endStatus) (svc_server w) = Inr s \<Longrightarrow>
    svc_step w (w\<lparr>svc_server := s, svc_jobs := (svc_jobs w)(i \<mapsto> J_Reply (fst (endStatus (slot w i))))\<rparr>)"
| reply: "svc_jobs w i = Some (J_Reply st) \<Longrightarrow>
    on_slot i (write_reply \<lparr>sr_status = st, sr_payload = Some r\<rparr>) (svc_server w) = Inr s \<Longrightarrow>
    svc_step w (w\<lparr>svc_server := s, svc_jobs := (svc_jobs w)(i \<mapsto> J_Suspend)\<rparr>)"
| finish: "svc_jobs w i = Some J_Suspend \<Longrightarrow>
    on_slot i (\<lambda>sl. (setSuspend sl)\<lparr>sl_future := Fut_Done\<rparr>) (svc_server w) = Inr s \<Longrightarrow>
    svc_step w (w\<lparr>svc_server := s, svc_jobs := (svc_jobs w)(i := None)\<rparr>)"

text \<open>The same with the two sections of \<^verbatim>\<open>setPrompted\<close> apart: other threads run between them.\<close>

inductive fine_step :: "('p, 'r) svc \<Rightarrow> ('p, 'r) svc \<Rightarrow> bool" where
  whole: "svc_step w w' \<Longrightarrow> fine_step w w'"
| look: "svc_pc w = E_Idle \<Longrightarrow> i < streams w \<Longrightarrow> sl_conn (slot w i) = Connected \<Longrightarrow> isProcess (slot w i) \<Longrightarrow>
    fine_step w (w\<lparr>svc_pc := E_Prompt i\<rparr>)"
| store: "svc_pc w = E_Prompt i \<Longrightarrow> on_slot i store_prompted (svc_server w) = Inr s \<Longrightarrow>
    fine_step w (w\<lparr>svc_server := s, svc_pc := E_Idle\<rparr>)"

definition svc_start :: "('p, 'r) svc \<Rightarrow> bool" where
  "svc_start w \<longleftrightarrow> ServiceServer_new = Some (Inr (svc_server w)) \<and> svc_pc w = E_Idle \<and> svc_jobs w = Map.empty"

section \<open>The protocol of replies\<close>

text \<open>
  The specification of what a client reads on a stream: for every call \<^verbatim>\<open>PROCESS\<close>, then \<^verbatim>\<open>PROMPTED\<close> if it was
  cancelled in time, then one final status.
\<close>

datatype phase = Ph_Idle | Ph_Process | Ph_Prompted

definition final :: "ServiceCallStatus \<Rightarrow> bool" where
  "final st \<longleftrightarrow> st = SUCCESS \<or> st = FAILED \<or> st = ABORTED"

lemma intermediate_not_final: "\<not> final PROCESS" "\<not> final PROMPTED" "\<not> final SUSPEND"
  by (simp_all add: final_def)

fun next_phase :: "phase \<Rightarrow> ServiceCallStatus \<Rightarrow> phase option" where
  "next_phase Ph_Idle st = (if st = PROCESS then Some Ph_Process else None)"
| "next_phase Ph_Process st = (if st = PROMPTED then Some Ph_Prompted else if final st then Some Ph_Idle else None)"
| "next_phase Ph_Prompted st = (if final st then Some Ph_Idle else None)"

fun phases :: "phase \<Rightarrow> ServiceCallStatus list \<Rightarrow> phase option" where
  "phases ph [] = Some ph"
| "phases ph (st # sts) = (case next_phase ph st of None \<Rightarrow> None | Some ph' \<Rightarrow> phases ph' sts)"

lemma phases_snoc:
  "phases ph (sts @ [st]) = (case phases ph sts of None \<Rightarrow> None | Some ph' \<Rightarrow> next_phase ph' st)"
  by (induction sts arbitrary: ph) (auto split: option.splits)

abbreviation replied :: "'r call_slot \<Rightarrow> phase option" where
  "replied sl \<equiv> phases Ph_Idle (map sr_status (sl_writes sl))"

text \<open>
  The invariant of a stream and its call.  A stream whose client is gone is not written to any more, so
  that only what it was sent before has to fit the protocol.
\<close>

fun job_ok :: "'p job option \<Rightarrow> 'r call_slot \<Rightarrow> bool" where
  "job_ok None sl = (sl_status sl = SUSPEND \<and> sl_future sl \<noteq> Fut_Running)"
| "job_ok (Some (J_Call p)) sl = (sl_status sl \<noteq> SUSPEND \<and> sl_future sl = Fut_Running)"
| "job_ok (Some (J_Reply st)) sl = (final (sl_status sl) \<and> final st \<and> sl_future sl = Fut_Running)"
| "job_ok (Some J_Suspend) sl = (final (sl_status sl) \<and> sl_future sl = Fut_Running)"

lemma job_cases:
  obtains (idle) "j = None" | (call) p where "j = Some (J_Call p)" | (reply) st where "j = Some (J_Reply st)"
    | (suspend) "j = Some J_Suspend"
  by (metis job.exhaust not_None_eq)

fun phase_ok :: "'p job option \<Rightarrow> ServiceCallStatus \<Rightarrow> phase \<Rightarrow> bool" where
  "phase_ok (Some (J_Call p)) st ph =
     (if st = PROCESS then ph = Ph_Process else if st = PROMPTED then ph = Ph_Prompted else ph \<noteq> Ph_Idle)"
| "phase_ok (Some (J_Reply st')) st ph = (ph \<noteq> Ph_Idle)"
| "phase_ok j st ph = (ph = Ph_Idle)"

definition slot_ok :: "'p job option \<Rightarrow> 'r call_slot \<Rightarrow> bool" where
  "slot_ok j sl \<longleftrightarrow> job_ok j sl \<and> sl_queue sl = [] \<and> replied sl \<noteq> None \<and>
     (\<not> sl_cancelled sl \<longrightarrow> (\<exists>ph. replied sl = Some ph \<and> phase_ok j (sl_status sl) ph)) \<and>
     (sl_conn sl = Listening \<longrightarrow> j = None)"

definition svc_inv :: "('p, 'r) svc \<Rightarrow> bool" where
  "svc_inv w \<longleftrightarrow>
     sv_stream_id (svc_server w) = streams w \<and> dom (svc_jobs w) \<subseteq> {..<streams w} \<and>
     (\<forall>i < streams w. slot_ok (svc_jobs w i) (slot w i)) \<and>
     distinct (sv_reusable_id (svc_server w)) \<and>
     (\<forall>i\<in>set (sv_reusable_id (svc_server w)). i < streams w \<and> sl_conn (slot w i) = Closed) \<and>
     (\<forall>sid i. svc_pc w = E_Wait sid i \<longrightarrow> sid < streams w \<and> i < streams w \<and> sid \<noteq> i \<and>
        sid \<notin> set (sv_reusable_id (svc_server w)) \<and> sl_conn (slot w sid) = Closed \<and>
        sl_conn (slot w i) = Connected \<and> svc_jobs w i = None)"

lemma on_slot_Inr_iff:
  "on_slot i f s = Inr s' \<longleftrightarrow> i < length (sv_slots s) \<and> s' = s\<lparr>sv_slots := (sv_slots s)[i := f (sv_slots s ! i)]\<rparr>"
  by (auto simp: on_slot_def bind_result_Inr_iff vec_get_eq_Inr_iff)

lemmas set_defs = setProcess_def setPrompted_def store_prompted_def setFailed_def setSuccess_def setAborted_def
  setSuspend_def isSuspend_def isPrompted_def isProcess_def

text \<open>How the methods act on a stream that satisfies the invariant.\<close>

lemma write_reply_simps [simp]:
  "sl_status (write_reply r sl) = sl_status sl" "sl_future (write_reply r sl) = sl_future sl"
  "sl_cancelled (write_reply r sl) = sl_cancelled sl" "sl_conn (write_reply r sl) = sl_conn sl"
  "sl_queue sl = [] \<Longrightarrow> sl_queue (write_reply r sl) = []"
  "sl_queue sl = [] \<Longrightarrow> sl_writes (write_reply r sl) = (if sl_cancelled sl then sl_writes sl else sl_writes sl @ [r])"
  by (simp_all add: write_reply_def stream_write_def)

lemma set_simps [simp]:
  "sl_queue (setSuspend sl) = sl_queue sl" "sl_queue (setAborted sl) = sl_queue sl"
  "sl_writes (setSuspend sl) = sl_writes sl" "sl_writes (setAborted sl) = sl_writes sl"
  "sl_future (setSuspend sl) = sl_future sl" "sl_future (setAborted sl) = sl_future sl"
  "sl_conn (setSuspend sl) = sl_conn sl" "sl_conn (setAborted sl) = sl_conn sl"
  "sl_cancelled (setSuspend sl) = sl_cancelled sl" "sl_cancelled (setAborted sl) = sl_cancelled sl"
  by (simp_all add: set_defs)

lemma slot_ok_new: "slot_ok None new_slot"
  by (simp add: slot_ok_def new_slot_def)

lemma slot_ok_start:
  assumes "slot_ok j sl" and "isSuspend sl" and "sl_conn sl = Connected"
  shows "slot_ok (Some (J_Call p)) (start_call sl)"
proof -
  have j: "j = None" using assms(1,2) by (cases j rule: job_cases) (auto simp: slot_ok_def isSuspend_def final_def)
  with assms show ?thesis
    by (auto simp: slot_ok_def start_call_def setProcess_def isSuspend_def phases_snoc)
qed

lemma slot_ok_prompted:
  assumes "slot_ok j sl" and "isProcess sl"
  shows "slot_ok j (setPrompted sl)"
proof -
  obtain p where "j = Some (J_Call p)"
    using assms by (cases j rule: job_cases) (auto simp: slot_ok_def isProcess_def final_def)
  with assms show ?thesis
    by (auto simp: slot_ok_def setPrompted_def store_prompted_def isProcess_def phases_snoc)
qed

lemma slot_ok_callback:
  assumes "slot_ok (Some (J_Call p)) sl" and "f \<in> {setSuccess, setFailed, setAborted}"
  shows "slot_ok (Some (J_Call p)) (f sl)"
  using assms by (auto simp: slot_ok_def set_defs split: if_splits)

lemma setAborted_ok: "slot_ok j sl \<Longrightarrow> slot_ok j (setAborted sl)"
proof (cases j)
  case None
  then show "slot_ok j sl \<Longrightarrow> slot_ok j (setAborted sl)" by (auto simp: slot_ok_def set_defs)
next
  case (Some a)
  then show "slot_ok j sl \<Longrightarrow> slot_ok j (setAborted sl)"
    by (cases a) (auto simp: slot_ok_def set_defs final_def)
qed

lemma slot_ok_return:
  assumes "slot_ok (Some (J_Call p)) sl"
  shows "slot_ok (Some (J_Reply (fst (endStatus sl)))) (snd (endStatus sl))"
  using assms by (cases "sl_status sl") (auto simp: slot_ok_def endStatus_def final_def split: if_splits)

lemma slot_ok_reply:
  assumes "slot_ok (Some (J_Reply st)) sl"
  shows "slot_ok (Some J_Suspend) (write_reply \<lparr>sr_status = st, sr_payload = r\<rparr> sl)"
proof -
  have "next_phase ph st = Some Ph_Idle" if "ph \<noteq> Ph_Idle" for ph
    using assms that by (cases ph) (auto simp: slot_ok_def final_def)
  with assms show ?thesis by (auto simp: slot_ok_def phases_snoc)
qed

lemma slot_ok_finish:
  assumes "slot_ok (Some J_Suspend) sl"
  shows "slot_ok None ((setSuspend sl)\<lparr>sl_future := Fut_Done\<rparr>)"
  using assms by (auto simp: slot_ok_def setSuspend_def isProcess_def isPrompted_def final_def)

lemma slot_ok_listen:
  assumes "slot_ok j sl" and "sl_future sl = Fut_Done"
  shows "j = None" and "slot_ok j (sl\<lparr>sl_future := Fut_None, sl_cancelled := False, sl_writes := [], sl_open := 0, sl_conn := Listening\<rparr>)"
proof -
  show "j = None" using assms by (cases j rule: job_cases) (auto simp: slot_ok_def)
  with assms show "slot_ok j (sl\<lparr>sl_future := Fut_None, sl_cancelled := False, sl_writes := [], sl_open := 0, sl_conn := Listening\<rparr>)"
    by (simp add: slot_ok_def)
qed

lemma slot_ok_suspend: "slot_ok None sl \<Longrightarrow> slot_ok None (setSuspend sl)"
  by (auto simp: slot_ok_def set_defs)

lemma slot_ok_conn: "slot_ok j sl \<Longrightarrow> c \<noteq> Listening \<Longrightarrow> slot_ok j (sl\<lparr>sl_conn := c\<rparr>)"
  by (cases j rule: job_cases) (auto simp: slot_ok_def)

lemma slot_ok_cancelled: "slot_ok j sl \<Longrightarrow> slot_ok j (sl\<lparr>sl_cancelled := True\<rparr>)"
  by (cases j rule: job_cases) (auto simp: slot_ok_def)

lemma slot_ok_written: "slot_ok j sl \<Longrightarrow> slot_ok j (complete_write sl)"
  by (cases j rule: job_cases) (auto simp: slot_ok_def complete_write_def)

section \<open>The invariant of the server\<close>

text \<open>A step that changes one stream and its call, but not whether it is connected.\<close>

lemma svc_inv_update:
  assumes "svc_inv w" and "i < streams w" and "slot_ok j sl" and "sl_conn sl = sl_conn (slot w i)"
    and "svc_jobs w i = None \<Longrightarrow> j = None \<or> svc_pc w = E_Idle"
  shows "svc_inv (w\<lparr>svc_server := (svc_server w)\<lparr>sv_slots := (sv_slots (svc_server w))[i := sl]\<rparr>,
    svc_jobs := (svc_jobs w)(i := j)\<rparr>)"
  using assms unfolding svc_inv_def
  by (auto simp: nth_list_update split: if_splits)

lemma svc_inv_same_job:
  assumes "svc_inv w" and "i < streams w" and "slot_ok (svc_jobs w i) sl" and "sl_conn sl = sl_conn (slot w i)"
  shows "svc_inv (w\<lparr>svc_server := (svc_server w)\<lparr>sv_slots := (sv_slots (svc_server w))[i := sl]\<rparr>\<rparr>)"
  using svc_inv_update [OF assms] by simp

lemma svc_inv_slot: "svc_inv w \<Longrightarrow> i < streams w \<Longrightarrow> slot_ok (svc_jobs w i) (slot w i)"
  by (simp add: svc_inv_def)

lemma svc_inv_job: "svc_inv w \<Longrightarrow> svc_jobs w i = Some j \<Longrightarrow> i < streams w"
  by (auto simp: svc_inv_def dest: domI)

text \<open>A new client: the server opens another stream, a new one or one that has been closed.\<close>

lemma connect_begin_new:
  assumes "sv_reusable_id s = []" and "sv_stream_id s = length (sv_slots s)" and "connect_begin i s = Inr (sid, s')"
  shows "sid = length (sv_slots s)"
    and "s' = s\<lparr>sv_stream_id := Suc (length (sv_slots s)), sv_slots := sv_slots s @ [new_slot]\<rparr>"
proof -
  have "setAborted new_slot = (new_slot :: 'a call_slot)" by (simp add: set_defs new_slot_def)
  then show "sid = length (sv_slots s)" "s' = s\<lparr>sv_stream_id := Suc (length (sv_slots s)), sv_slots := sv_slots s @ [new_slot]\<rparr>"
    using assms by (auto simp: connect_begin_def generate_stream_id_def listen_begin_def bind_result_Inr_iff on_slot_Inr_iff
        nth_append list_update_append)
qed

lemma connect_begin_reused:
  assumes "sv_reusable_id s = r # rs" and "r < length (sv_slots s)" and "connect_begin i s = Inr (sid, s')"
  shows "sid = r" and "s' = s\<lparr>sv_reusable_id := rs, sv_slots := (sv_slots s)[r := setAborted (sv_slots s ! r)]\<rparr>"
  using assms
  by (auto simp: connect_begin_def generate_stream_id_def listen_begin_def bind_result_Inr_iff on_slot_Inr_iff)

lemma svc_inv_connect:
  assumes inv: "svc_inv w" and "svc_pc w = E_Idle" and i: "i < streams w" "sl_conn (slot w i) = Listening"
    and con: "connect_begin i (set_conn i Connected (svc_server w)) = Inr (sid, s)"
  shows "svc_inv (w\<lparr>svc_server := s, svc_pc := E_Wait sid i\<rparr>)"
proof -
  let ?s = "set_conn i Connected (svc_server w)"
  have len: "length (sv_slots ?s) = streams w" "sv_stream_id ?s = streams w" using inv by (simp_all add: set_conn_def svc_inv_def)
  have ok: "slot_ok (svc_jobs w k) (sv_slots ?s ! k)" if "k < streams w" for k
    using svc_inv_slot [OF inv that] i(1) by (cases "k = i") (auto simp: set_conn_def that intro: slot_ok_conn)
  have job: "svc_jobs w i = None" using svc_inv_slot [OF inv i(1)] i(2) by (simp add: slot_ok_def)
  have conn: "sl_conn (sv_slots ?s ! i) = Connected" using i(1) by (simp add: set_conn_def)
  show ?thesis
  proof (cases "sv_reusable_id (svc_server w)")
    case Nil
    then have none: "sv_reusable_id ?s = []" by (simp add: set_conn_def)
    note s = connect_begin_new [OF none _ con, unfolded len, OF refl]
    have dom: "svc_jobs w (streams w) = None" "dom (svc_jobs w) \<subseteq> {..<Suc (streams w)}"
      using inv by (force simp: svc_inv_def)+
    have "slot_ok (svc_jobs w k) ((sv_slots ?s @ [new_slot]) ! k)" if "k < Suc (streams w)" for k
      using ok [of k] dom(1) that slot_ok_new by (cases "k < streams w") (auto simp: nth_append len less_Suc_eq)
    moreover have "sl_conn (new_slot :: 'b call_slot) = Closed" by (simp add: new_slot_def)
    ultimately show ?thesis
      using i(1) job conn none dom(2) unfolding svc_inv_def s by (simp add: len nth_append)
  next
    case (Cons r rs)
    have r: "r < streams w" "sl_conn (slot w r) = Closed" "r \<noteq> i" "r \<notin> set rs" "distinct rs"
      using inv i(2) Cons by (auto simp: svc_inv_def)
    have reuse: "sv_reusable_id ?s = r # rs" by (simp add: set_conn_def Cons)
    note s = connect_begin_reused [OF reuse _ con, unfolded len, OF r(1)]
    have "slot_ok (svc_jobs w k) ((sv_slots ?s)[r := setAborted (sv_slots ?s ! r)] ! k)" if "k < streams w" for k
      using ok [OF that] that by (cases "k = r") (auto simp: set_conn_def intro: setAborted_ok)
    then show ?thesis
      using inv i job conn r Cons unfolding svc_inv_def s
      by (auto simp: set_conn_def nth_list_update)
  qed
qed

lemma svc_inv_connected:
  assumes inv: "svc_inv w" and pc: "svc_pc w = E_Wait sid i" and con: "connect_end sid i (svc_server w) = Some (Inr s)"
  shows "svc_inv (w\<lparr>svc_server := s, svc_pc := E_Idle\<rparr>)"
proof -
  let ?new = "(slot w sid)\<lparr>sl_future := Fut_None, sl_cancelled := False, sl_writes := [], sl_open := 0, sl_conn := Listening\<rparr>"
  have ids: "sid < streams w" "i < streams w" "sid \<noteq> i" "sid \<notin> set (sv_reusable_id (svc_server w))"
    "svc_jobs w i = None" "sl_conn (slot w i) = Connected"
    using inv pc by (auto simp: svc_inv_def)
  with con have fut: "sl_future (slot w sid) = Fut_Done"
    and s: "s = (svc_server w)\<lparr>sv_slots := (sv_slots (svc_server w))[sid := ?new, i := setSuspend (slot w i)]\<rparr>"
    by (auto simp: connect_end_def listen_end_def vec_get_Inr on_slot_Inr_iff bind_result_Inr_iff split: call_future.splits)
  have "slot_ok (svc_jobs w sid) ?new" "svc_jobs w sid = None"
    using slot_ok_listen [OF svc_inv_slot [OF inv ids(1)] fut] by auto
  moreover have "slot_ok (svc_jobs w i) (setSuspend (slot w i))"
    using svc_inv_slot [OF inv ids(2)] ids(5) slot_ok_suspend by simp
  ultimately show ?thesis
    using inv ids unfolding svc_inv_def s by (auto simp: nth_list_update)
qed

lemma svc_inv_read:
  assumes inv: "svc_inv w" and "svc_pc w = E_Idle" and i: "i < streams w" "sl_conn (slot w i) = Connected"
    and "handle_read i req (svc_server w) = Inr (s, started)"
  shows "svc_inv (w\<lparr>svc_server := s,
      svc_jobs := (case started of None \<Rightarrow> svc_jobs w | Some (j, p) \<Rightarrow> (svc_jobs w)(j \<mapsto> J_Call p))\<rparr>)"
proof -
  note ok = svc_inv_slot [OF inv i(1)]
  have eff: "handle_read i req (svc_server w) =
      (if isSuspend (slot w i) \<and> sq_setting req = PULL_NEW_REQ
       then Inr ((svc_server w)\<lparr>sv_slots := (sv_slots (svc_server w))[i := start_call (slot w i)]\<rparr>, Some (i, sq_payload req))
       else if isProcess (slot w i) \<and> sq_setting req = SET_CANCELED
       then Inr ((svc_server w)\<lparr>sv_slots := (sv_slots (svc_server w))[i := setPrompted (slot w i)]\<rparr>, None)
       else Inr (svc_server w, None))"
    using i(1) by (simp add: handle_read_def on_slot_def vec_get_Inr)
  consider (start) "isSuspend (slot w i)" "started = Some (i, sq_payload req)"
      "s = (svc_server w)\<lparr>sv_slots := (sv_slots (svc_server w))[i := start_call (slot w i)]\<rparr>"
    | (prompt) "isProcess (slot w i)" "started = None"
      "s = (svc_server w)\<lparr>sv_slots := (sv_slots (svc_server w))[i := setPrompted (slot w i)]\<rparr>"
    | (ignored) "started = None" "s = svc_server w"
    using assms(5) unfolding eff by (metis (no_types, lifting) prod.inject sum.inject(2))
  then show ?thesis
  proof cases
    case start
    then show ?thesis
      using svc_inv_update [OF inv i(1) slot_ok_start [OF ok start(1) i(2), of "sq_payload req"]] assms(2)
      by (simp add: start_call_def setProcess_def)
  next
    case prompt
    then show ?thesis
      using svc_inv_same_job [OF inv i(1) slot_ok_prompted [OF ok prompt(1)]]
      by (simp add: setPrompted_def store_prompted_def)
  qed (use inv in simp)
qed

lemma svc_inv_closed:
  assumes inv: "svc_inv w" and "svc_pc w = E_Idle" and i: "i < streams w" "sl_conn (slot w i) = Connected"
  shows "svc_inv (w\<lparr>svc_server := (set_conn i Closed (svc_server w))\<lparr>sv_reusable_id := sv_reusable_id (svc_server w) @ [i]\<rparr>\<rparr>)"
proof -
  have "i \<notin> set (sv_reusable_id (svc_server w))" using inv i(2) by (auto simp: svc_inv_def)
  moreover have "slot_ok (svc_jobs w i) ((slot w i)\<lparr>sl_conn := Closed\<rparr>)"
    using svc_inv_slot [OF inv i(1)] by (rule slot_ok_conn) simp
  ultimately show ?thesis
    using assms unfolding svc_inv_def set_conn_def by (auto simp: nth_list_update)
qed

text \<open>A step of a call: it works on the slot of its stream and goes on to its next job.\<close>

lemma svc_inv_own:
  assumes inv: "svc_inv w" and job: "svc_jobs w i = Some j" and "on_slot i f (svc_server w) = Inr s"
    and "slot_ok (Some j) (slot w i) \<Longrightarrow> slot_ok j' (f (slot w i))" and "sl_conn (f (slot w i)) = sl_conn (slot w i)"
  shows "svc_inv (w\<lparr>svc_server := s, svc_jobs := (svc_jobs w)(i := j')\<rparr>)"
proof -
  note i = svc_inv_job [OF inv job]
  have "slot_ok j' (f (slot w i))" using svc_inv_slot [OF inv i] job assms(4) by simp
  from svc_inv_update [OF inv i this assms(5)] job assms(3) show ?thesis by (auto simp: on_slot_Inr_iff)
qed

lemma svc_step_inv:
  assumes inv: "svc_inv w" and "svc_step w w'"
  shows "svc_inv w'"
  using assms(2)
proof cases
  case (connect i sid s)
  with svc_inv_connect [OF inv] show ?thesis by simp
next
  case (connected sid i s)
  with svc_inv_connected [OF inv] show ?thesis by simp
next
  case (read i req s started)
  with svc_inv_read [OF inv] show ?thesis by simp
next
  case (written i s started)
  with svc_inv_same_job [OF inv written(3) slot_ok_written [OF svc_inv_slot [OF inv written(3)]]] show ?thesis
    by (auto simp: bind_result_Inr_iff on_slot_Inr_iff complete_write_def stream_write_def Let_def split: list.splits)
next
  case (closed i s started)
  with svc_inv_closed [OF inv] show ?thesis by (auto simp: set_conn_def)
next
  case (cancelled i s)
  then have "i < streams w" by (simp add: on_slot_Inr_iff)
  with svc_inv_same_job [OF inv this slot_ok_cancelled [OF svc_inv_slot [OF inv this]]] cancelled show ?thesis
    by (auto simp: on_slot_Inr_iff)
next
  case (callback i p f s)
  have "sl_conn (f (slot w i)) = sl_conn (slot w i)" using callback(3) by (auto simp: setSuccess_def setFailed_def)
  from svc_inv_own [OF inv callback(2,4) slot_ok_callback [where p = p, OF _ callback(3)] this] callback(1,2) show ?thesis
    by (simp add: fun_upd_idem)
next
  case (return i p s)
  have "sl_conn ((snd \<circ> endStatus) (slot w i)) = sl_conn (slot w i)" by (simp add: endStatus_def)
  then show ?thesis unfolding return(1)
    by (rule svc_inv_own [OF inv return(2,3), rotated]) (simp add: slot_ok_return)
next
  case (reply i st r s)
  from svc_inv_own [OF inv reply(2,3) slot_ok_reply] reply(1) show ?thesis by simp
next
  case (finish i s)
  from svc_inv_own [OF inv finish(2,3) slot_ok_finish] finish(1) show ?thesis by simp
qed

text \<open>The constructor.\<close>

definition listening_slot :: "'r call_slot" where
  "listening_slot = new_slot\<lparr>sl_future := Fut_None, sl_conn := Listening\<rparr>"

lemma open_ports_eq:
  "sv_reusable_id s = [] \<Longrightarrow> sv_stream_id s = length (sv_slots s) \<Longrightarrow>
     open_ports n s = Some (Inr (s\<lparr>sv_stream_id := length (sv_slots s) + n, sv_slots := sv_slots s @ replicate n listening_slot\<rparr>))"
proof (induction n arbitrary: s)
  case (Suc n)
  let ?s = "s\<lparr>sv_stream_id := Suc (length (sv_slots s)), sv_slots := sv_slots s @ [listening_slot]\<rparr>"
  have "CreateListenPort (length (sv_slots s)) (s\<lparr>sv_stream_id := Suc (length (sv_slots s))\<rparr>) = Some (Inr ?s)"
    by (simp add: CreateListenPort_def listen_begin_def listen_end_def on_slot_def vec_get_def set_defs new_slot_def
        listening_slot_def list_update_append)
  moreover have "open_ports n ?s = Some (Inr (?s\<lparr>sv_stream_id := length (sv_slots ?s) + n, sv_slots := sv_slots ?s @ replicate n listening_slot\<rparr>))"
    by (rule Suc.IH) (use Suc.prems in simp_all)
  ultimately show ?case using Suc.prems by (simp add: generate_stream_id_def)
qed simp

lemma ServiceServer_new_eq:
  "ServiceServer_new = Some (Inr \<lparr>sv_stream_id = 10, sv_reusable_id = [], sv_slots = replicate 10 listening_slot\<rparr>)"
  unfolding ServiceServer_new_def by (subst open_ports_eq) simp_all

lemma svc_inv_start:
  fixes w :: "('p, 'r) svc"
  assumes "svc_start w"
  shows "svc_inv w"
proof -
  have "svc_server w = \<lparr>sv_stream_id = 10, sv_reusable_id = [], sv_slots = replicate 10 listening_slot\<rparr>"
    using assms by (simp add: svc_start_def ServiceServer_new_eq)
  moreover have "slot_ok (svc_jobs w i) (listening_slot :: 'r call_slot)" for i
    using assms by (simp add: svc_start_def slot_ok_def listening_slot_def new_slot_def)
  ultimately show ?thesis using assms by (simp add: svc_inv_def svc_start_def)
qed

interpretation svc: invariant_system svc_start svc_step svc_inv
  by unfold_locales (auto intro: svc_inv_start svc_step_inv)

section \<open>A concrete server\<close>

text \<open>A server whose first stream has a client; the other ten wait for one.\<close>

definition demo_svc :: "nat call_slot \<Rightarrow> event_pc \<Rightarrow> nat job option \<Rightarrow> (nat, nat) svc" where
  "demo_svc sl pc j = \<lparr>svc_server = \<lparr>sv_stream_id = 11, sv_reusable_id = [], sv_slots = sl # replicate 10 listening_slot\<rparr>,
     svc_pc = pc, svc_jobs = (\<lambda>i. None)(0 := j)\<rparr>"

definition demo_slot :: "ServiceCallStatus \<Rightarrow> call_future \<Rightarrow> nat ServiceRPCReply list \<Rightarrow> nat call_slot" where
  "demo_slot st fut ws = \<lparr>sl_status = st, sl_future = fut, sl_queue = [], sl_writes = ws, sl_open = length ws,
     sl_cancelled = False, sl_conn = Connected\<rparr>"

definition svc_new :: "(nat, nat) svc" where
  "svc_new = \<lparr>svc_server = \<lparr>sv_stream_id = 10, sv_reusable_id = [], sv_slots = replicate 10 listening_slot\<rparr>,
     svc_pc = E_Idle, svc_jobs = Map.empty\<rparr>"

lemma svc_start_new: "svc_start svc_new"
  by (simp add: svc_start_def svc_new_def ServiceServer_new_eq)

lemma demo_on_slot:
  "on_slot 0 f (svc_server (demo_svc sl pc j)) = Inr (svc_server (demo_svc (f sl) pc j))"
  by (simp add: on_slot_def vec_get_def demo_svc_def)

lemma demo_svc_simps [simp]:
  "svc_pc (demo_svc sl pc j) = pc" "svc_jobs (demo_svc sl pc j) 0 = j" "slot (demo_svc sl pc j) 0 = sl"
  "0 < streams (demo_svc sl pc j)" "streams (demo_svc sl pc j) = 11"
  by (simp_all add: demo_svc_def)

lemma demo_svc_update [simp]:
  "(demo_svc sl pc j)\<lparr>svc_server := svc_server (demo_svc sl' pc' j')\<rparr> = demo_svc sl' pc j"
  "(demo_svc sl pc j)\<lparr>svc_pc := pc'\<rparr> = demo_svc sl pc' j"
  "(demo_svc sl pc j)\<lparr>svc_jobs := (svc_jobs (demo_svc sl pc j))(0 := j')\<rparr> = demo_svc sl pc j'"
  by (simp_all add: demo_svc_def)

lemma demo_svc_connected:
  "svc_step\<^sup>*\<^sup>* svc_new (demo_svc (demo_slot SUSPEND Fut_None []) E_Idle None)"
proof -
  let ?s = "\<lparr>sv_stream_id = 11, sv_reusable_id = [], sv_slots = demo_slot SUSPEND Fut_None [] # replicate 9 listening_slot @ [new_slot]\<rparr>"
  let ?w = "\<lparr>svc_server = ?s, svc_pc = E_Wait 10 0, svc_jobs = Map.empty\<rparr>"
  have ten: "replicate 10 listening_slot = listening_slot # replicate 9 listening_slot" by (simp add: numeral_eq_Suc)
  have con: "listening_slot\<lparr>sl_conn := Connected\<rparr> = demo_slot SUSPEND Fut_None []"
    by (simp add: listening_slot_def new_slot_def demo_slot_def)
  have "connect_begin 0 (set_conn 0 Connected (svc_server svc_new)) = Inr (10, ?s)"
    by (simp add: svc_new_def connect_begin_def generate_stream_id_def listen_begin_def on_slot_def vec_get_def ten set_conn_def con
        nth_append list_update_append set_defs) (simp add: new_slot_def)
  from svc_step.connect [OF _ _ _ this] have "svc_step svc_new ?w"
    by (simp add: svc_new_def listening_slot_def)
  moreover have "connect_end 10 0 ?s = Some (Inr (svc_server (demo_svc (demo_slot SUSPEND Fut_None []) E_Idle None)))"
    by (simp add: connect_end_def listen_end_def vec_get_def on_slot_def nth_append list_update_append new_slot_def set_defs)
      (simp add: demo_svc_def demo_slot_def listening_slot_def new_slot_def numeral_eq_Suc)
  from svc_step.connected [of ?w 10 0, simplified, OF this]
  have "svc_step ?w (demo_svc (demo_slot SUSPEND Fut_None []) E_Idle None)"
    by (simp add: demo_svc_def fun_upd_idem)
  ultimately show ?thesis by (meson converse_rtranclp_into_rtranclp rtranclp.rtrancl_refl)
qed

section \<open>Runs of one call\<close>

text \<open>A step of the call on stream \<open>i\<close>: it replaces the stream's slot and the state of its thread.\<close>

definition put :: "nat \<Rightarrow> 'r call_slot \<Rightarrow> 'p job option \<Rightarrow> ('p, 'r) svc \<Rightarrow> ('p, 'r) svc" where
  "put i sl j w = w\<lparr>svc_server := (svc_server w)\<lparr>sv_slots := (sv_slots (svc_server w))[i := sl]\<rparr>, svc_jobs := (svc_jobs w)(i := j)\<rparr>"

lemma put_simps [simp]:
  "streams (put i sl j w) = streams w" "svc_pc (put i sl j w) = svc_pc w" "svc_jobs (put i sl j w) i = j"
  "i < streams w \<Longrightarrow> slot (put i sl j w) i = sl" "put i sl j (put i sl' j' w) = put i sl j w"
  by (simp_all add: put_def)

lemma on_slot_put:
  "i < streams w \<Longrightarrow> on_slot i f (svc_server w) = Inr ((svc_server w)\<lparr>sv_slots := (sv_slots (svc_server w))[i := f (slot w i)]\<rparr>)"
  by (simp add: on_slot_def vec_get_Inr)

lemma step_start:
  fixes req :: "'p ServiceRPCRequest"
  assumes "svc_pc w = E_Idle" "i < streams w" "sl_conn (slot w i) = Connected" "isSuspend (slot w i)" "sq_setting req = PULL_NEW_REQ"
  shows "svc_step w (put i (start_call (slot w i)) (Some (J_Call (sq_payload req))) w)"
  using svc_step.read [OF assms(1-3), of req _ "Some (i, sq_payload req)"] assms
  by (simp add: handle_read_def vec_get_Inr on_slot_put put_def)

lemma step_callback:
  assumes "svc_jobs w i = Some (J_Call p)" "i < streams w" "f \<in> {setSuccess, setFailed, setAborted}"
  shows "svc_step w (put i (f (slot w i)) (Some (J_Call p)) w)"
  using svc_step.callback [OF assms(1,3) on_slot_put [OF assms(2)]] assms(1) by (simp add: put_def fun_upd_idem)

lemma step_return:
  assumes "svc_jobs w i = Some (J_Call p)" "i < streams w"
  shows "svc_step w (put i (snd (endStatus (slot w i))) (Some (J_Reply (fst (endStatus (slot w i))))) w)"
  using svc_step.return [OF assms(1) on_slot_put [OF assms(2)]] by (simp add: put_def)

lemma step_reply:
  assumes "svc_jobs w i = Some (J_Reply st)" "i < streams w"
  shows "svc_step w (put i (write_reply \<lparr>sr_status = st, sr_payload = Some r\<rparr> (slot w i)) (Some J_Suspend) w)"
  using svc_step.reply [OF assms(1) on_slot_put [OF assms(2)]] by (simp add: put_def)

lemma step_finish:
  assumes "svc_jobs w i = Some J_Suspend" "i < streams w"
  shows "svc_step w (put i ((setSuspend (slot w i))\<lparr>sl_future := Fut_Done\<rparr>) None w)"
  using svc_step.finish [OF assms(1) on_slot_put [OF assms(2)]] by (simp add: put_def)

text \<open>From the moment the callback sets its result to the moment the stream is suspended again.\<close>

lemma call_tail:
  assumes i: "i < streams w" and j: "svc_jobs w i = Some (J_Call p)" and f: "f \<in> {setSuccess, setFailed, setAborted}"
    and st: "isProcess (slot w i) \<or> isPrompted (slot w i)" and q: "sl_queue (slot w i) = []"
  shows "\<exists>w'. svc_step\<^sup>*\<^sup>* w w' \<and> svc_jobs w' i = None \<and> svc_pc w' = svc_pc w \<and> streams w' = streams w \<and>
    slot w' i = (write_reply \<lparr>sr_status = sl_status (f (slot w i)), sr_payload = Some r\<rparr> (f (slot w i)))
      \<lparr>sl_status := SUSPEND, sl_future := Fut_Done\<rparr>"
proof -
  let ?sl = "f (slot w i)"
  let ?st = "sl_status ?sl"
  have fin: "final ?st" using f st by (auto simp: set_defs final_def)
  then have "?st \<noteq> SUSPEND" "?st \<noteq> PROCESS" "?st \<noteq> PROMPTED" by (auto simp: final_def)
  then have e: "endStatus ?sl = (?st, ?sl)" and u: "setSuspend (write_reply rep ?sl) = (write_reply rep ?sl)\<lparr>sl_status := SUSPEND\<rparr>" for rep
    by (simp_all add: endStatus_def setSuspend_def isProcess_def isPrompted_def)
  let ?rep = "\<lparr>sr_status = ?st, sr_payload = Some r\<rparr>"
  let ?w1 = "put i ?sl (Some (J_Call p)) w"
  let ?w2 = "put i ?sl (Some (J_Reply ?st)) w"
  let ?w3 = "put i (write_reply ?rep ?sl) (Some J_Suspend) w"
  let ?w4 = "put i ((write_reply ?rep ?sl)\<lparr>sl_status := SUSPEND, sl_future := Fut_Done\<rparr>) None w"
  have "svc_step w ?w1" by (rule step_callback [OF j i f])
  moreover have "svc_step ?w1 ?w2" using step_return [of ?w1 i p] i e by simp
  moreover have "svc_step ?w2 ?w3" using step_reply [of ?w2 i ?st r] i by simp
  moreover have "svc_step ?w3 ?w4" using step_finish [of ?w3 i] i u by simp
  ultimately have "svc_step\<^sup>*\<^sup>* w ?w4" by (meson converse_rtranclp_into_rtranclp rtranclp.rtrancl_refl)
  then show ?thesis using i by (intro exI [of _ ?w4]) simp
qed

text \<open>
  On a connected stream on which no call runs, a request starts a call with its payload; whatever result the
  callback sets, the client is sent \<^verbatim>\<open>PROCESS\<close> and then that result with the reply.
\<close>

lemma service_request_served:
  fixes w :: "('p, 'r) svc" and req :: "'p ServiceRPCRequest" and f :: "'r call_slot \<Rightarrow> 'r call_slot"
  assumes "svc_start w0" and "svc_step\<^sup>*\<^sup>* w0 w" and "svc_pc w = E_Idle" and "i < streams w"
    and "sl_conn (slot w i) = Connected" and "\<not> sl_cancelled (slot w i)" and "svc_jobs w i = None"
    and "sq_setting req = PULL_NEW_REQ" and "f \<in> {setSuccess, setFailed, setAborted}"
  shows "\<exists>w1 w' st. svc_step w w1 \<and> svc_jobs w1 i = Some (J_Call (sq_payload req)) \<and> svc_step\<^sup>*\<^sup>* w1 w' \<and> final st \<and>
    sl_writes (slot w' i) = sl_writes (slot w i) @ [\<lparr>sr_status = PROCESS, sr_payload = None\<rparr>, \<lparr>sr_status = st, sr_payload = Some r\<rparr>] \<and>
    (f = setSuccess \<longrightarrow> st = SUCCESS) \<and> (f = setFailed \<longrightarrow> st = FAILED) \<and> (f = setAborted \<longrightarrow> st = ABORTED) \<and>
    isSuspend (slot w' i) \<and> svc_jobs w' i = None"
proof -
  have s: "isSuspend (slot w i)" "sl_queue (slot w i) = []"
    using svc_inv_slot [OF svc.reachable_inv [OF assms(1,2)] assms(4)] assms(7) by (auto simp: slot_ok_def isSuspend_def)
  let ?sl = "start_call (slot w i)"
  let ?w1 = "put i ?sl (Some (J_Call (sq_payload req))) w"
  have sl: "isProcess ?sl" "sl_queue ?sl = []" "\<not> sl_cancelled ?sl"
    "sl_writes ?sl = sl_writes (slot w i) @ [\<lparr>sr_status = PROCESS, sr_payload = None\<rparr>]"
    using s assms(6) by (simp_all add: start_call_def setProcess_def isProcess_def)
  let ?st = "sl_status (f ?sl)"
  have f: "final ?st" "f = setSuccess \<Longrightarrow> ?st = SUCCESS" "f = setFailed \<Longrightarrow> ?st = FAILED" "f = setAborted \<Longrightarrow> ?st = ABORTED" "sl_queue (f ?sl) = []" "sl_cancelled (f ?sl) = sl_cancelled ?sl"
    "sl_writes (f ?sl) = sl_writes ?sl"
    using assms(9) sl(1,2) by (auto simp: setSuccess_def setFailed_def setAborted_def final_def)
  have step: "svc_step w ?w1" by (rule step_start [OF assms(3-5) s(1) assms(8)])
  obtain w' where w': "svc_step\<^sup>*\<^sup>* ?w1 w'" "svc_jobs w' i = None"
      "slot w' i = (write_reply \<lparr>sr_status = ?st, sr_payload = Some r\<rparr> (f ?sl))\<lparr>sl_status := SUSPEND, sl_future := Fut_Done\<rparr>"
    using call_tail [of i ?w1 "sq_payload req" f r] assms(4,9) sl by auto
  with step f sl show ?thesis
    by (intro exI [of _ ?w1] exI [of _ w'] exI [of _ ?st]) (simp add: isSuspend_def put_def)
qed

section \<open>Properties\<close>




text \<open>A client that connects to the first stream and goes.\<close>

definition demo_abandoned :: "(nat, nat) svc" where
  "demo_abandoned = (demo_svc ((demo_slot SUSPEND Fut_None [])\<lparr>sl_conn := Closed\<rparr>) E_Idle None)
     \<lparr>svc_server := (svc_server (demo_svc ((demo_slot SUSPEND Fut_None [])\<lparr>sl_conn := Closed\<rparr>) E_Idle None))\<lparr>sv_reusable_id := [0]\<rparr>\<rparr>"

lemma demo_abandoned_reachable: "svc_step\<^sup>*\<^sup>* svc_new demo_abandoned"
proof -
  let ?w = "demo_svc (demo_slot SUSPEND Fut_None []) E_Idle None"
  have "svc_step ?w demo_abandoned"
    using svc_step.closed [of ?w 0 _ None] by (simp add: demo_slot_def set_conn_def demo_svc_def demo_abandoned_def)
  with demo_svc_connected show ?thesis by (rule rtranclp.rtrancl_into_rtrancl)
qed


text \<open>
  Replies are never queued.  \<^verbatim>\<open>write_reply\<close> queues a reply only behind another one, so that the queue of
  a stream is empty in every reachable state; and there is a run in which the final reply of a call is
  handed to \<^verbatim>\<open>Write\<close> while the first \<^verbatim>\<open>Write\<close> of the call has not been completed, which gRPC forbids.
\<close>

lemma service_writes_overlap:
  "(\<forall>w0 w :: (nat, nat) svc. svc_start w0 \<and> svc_step\<^sup>*\<^sup>* w0 w \<longrightarrow> (\<forall>i < streams w. sl_queue (slot w i) = [])) \<and>
   (\<exists>w :: (nat, nat) svc. svc_step\<^sup>*\<^sup>* svc_new w \<and> sl_open (slot w 0) = 2)"
proof
  have "sl_queue (slot w i) = []" if "svc_start w0" "svc_step\<^sup>*\<^sup>* w0 w" "i < streams w" for w0 w :: "(nat, nat) svc" and i
    using svc_inv_slot [OF svc.reachable_inv [OF that(1,2)] that(3)] by (simp add: slot_ok_def)
  then show "\<forall>w0 w :: (nat, nat) svc. svc_start w0 \<and> svc_step\<^sup>*\<^sup>* w0 w \<longrightarrow> (\<forall>i < streams w. sl_queue (slot w i) = [])"
    by blast
  let ?w = "demo_svc (demo_slot SUSPEND Fut_None []) E_Idle None"
  let ?w1 = "put 0 (start_call (demo_slot SUSPEND Fut_None [])) (Some (J_Call 3)) ?w"
  have "svc_step ?w ?w1" using step_start [of ?w 0 "\<lparr>sq_setting = PULL_NEW_REQ, sq_payload = 3\<rparr>"]
    by (simp add: demo_slot_def isSuspend_def)
  moreover obtain w' where "svc_step\<^sup>*\<^sup>* ?w1 w'" "slot w' 0 = (write_reply \<lparr>sr_status = sl_status (setSuccess (slot ?w1 0)), sr_payload = Some 9\<rparr>
      (setSuccess (slot ?w1 0)))\<lparr>sl_status := SUSPEND, sl_future := Fut_Done\<rparr>"
    using call_tail [of 0 ?w1 3 setSuccess 9] by (auto simp: start_call_def set_defs demo_slot_def write_reply_def stream_write_def)
  moreover from this(2) have "sl_open (slot w' 0) = 2"
    by (simp add: start_call_def set_defs demo_slot_def write_reply_def stream_write_def)
  ultimately show "\<exists>w :: (nat, nat) svc. svc_step\<^sup>*\<^sup>* svc_new w \<and> sl_open (slot w 0) = 2"
    using demo_svc_connected by (meson rtranclp.rtrancl_into_rtrancl rtranclp_trans)
qed

text \<open>
  A cancellation at the wrong moment wedges the stream.  \<^verbatim>\<open>setPrompted\<close> looks at the status and stores the
  new one under two different locks.  There is a run in which the call completes in between: the client
  reads \<^verbatim>\<open>PROMPTED\<close> after the final status, no call runs, and from then on every request on the stream is
  ignored, although its client is still connected.
\<close>

lemma service_cancel_race:
  "\<exists>w :: (nat, nat) svc. fine_step\<^sup>*\<^sup>* svc_new w \<and> svc_jobs w 0 = None \<and> sl_conn (slot w 0) = Connected \<and> \<not> sl_cancelled (slot w 0) \<and>
     map sr_status (sl_writes (slot w 0)) = [PROCESS, SUCCESS, PROMPTED] \<and>
     (\<forall>req :: nat ServiceRPCRequest. handle_read 0 req (svc_server w) = Inr (svc_server w, None))"
proof -
  have up: "fine_step\<^sup>*\<^sup>* w w'" if "svc_step\<^sup>*\<^sup>* w w'" for w w' :: "(nat, nat) svc"
    using that by (rule mono_rtranclp [rule_format, rotated]) (blast intro: fine_step.whole)
  let ?w = "demo_svc (demo_slot SUSPEND Fut_None []) E_Idle None"
  let ?w1 = "put 0 (start_call (demo_slot SUSPEND Fut_None [])) (Some (J_Call 3)) ?w"
  let ?w2 = "?w1\<lparr>svc_pc := E_Prompt 0\<rparr>"
  have "svc_step ?w ?w1" using step_start [of ?w 0 "\<lparr>sq_setting = PULL_NEW_REQ, sq_payload = 3\<rparr>"]
    by (simp add: demo_slot_def isSuspend_def)
  then have a: "fine_step\<^sup>*\<^sup>* svc_new ?w1"
    using demo_svc_connected by (intro up) (rule rtranclp.rtrancl_into_rtrancl)
  have b: "fine_step ?w1 ?w2"
    by (rule fine_step.look) (simp_all add: start_call_def set_defs demo_slot_def)
  obtain w3 where w3: "svc_step\<^sup>*\<^sup>* ?w2 w3" "svc_jobs w3 0 = None" "svc_pc w3 = E_Prompt 0" "streams w3 = 11"
    "slot w3 0 = (write_reply \<lparr>sr_status = sl_status (setSuccess (slot ?w1 0)), sr_payload = Some 9\<rparr>
      (setSuccess (slot ?w1 0)))\<lparr>sl_status := SUSPEND, sl_future := Fut_Done\<rparr>"
    using call_tail [of 0 ?w2 3 setSuccess 9] by (auto simp: put_def start_call_def set_defs demo_slot_def write_reply_def stream_write_def)
  let ?sl = "store_prompted (slot w3 0)"
  let ?s = "(svc_server w3)\<lparr>sv_slots := (sv_slots (svc_server w3))[0 := ?sl]\<rparr>"
  let ?w4 = "w3\<lparr>svc_server := ?s, svc_pc := E_Idle\<rparr>"
  have c: "fine_step w3 ?w4"
    using fine_step.store [OF w3(3) on_slot_put] w3(4) by simp
  have sl: "sl_status ?sl = PROMPTED" "sl_conn ?sl = Connected" "\<not> sl_cancelled ?sl"
    "map sr_status (sl_writes ?sl) = [PROCESS, SUCCESS, PROMPTED]"
    by (simp_all add: w3(5) store_prompted_def start_call_def set_defs demo_slot_def write_reply_def stream_write_def)
  have four: "slot ?w4 0 = ?sl" "0 < streams ?w4" using w3(4) by simp_all
  have "handle_read 0 req (svc_server ?w4) = Inr (svc_server ?w4, None)" for req :: "nat ServiceRPCRequest"
    using four sl(1) by (simp add: handle_read_def vec_get_Inr isSuspend_def isProcess_def)
  moreover have "fine_step\<^sup>*\<^sup>* svc_new ?w4"
    using a b up [OF w3(1)] c by (meson rtranclp.rtrancl_into_rtrancl rtranclp_trans)
  ultimately show ?thesis using sl w3(2) four by (intro exI [of _ ?w4]) simp
qed

end
