(* ===== verification/Service_Client.thy ===== *)
theory Service_Client
  imports Service_Server
begin

text \<open>
  \<^verbatim>\<open>cpp/include/ServiceClient.hpp\<close> and \<^verbatim>\<open>reset\<close> in \<^verbatim>\<open>cpp/include/rscl.hpp\<close>: the client of a service.

  The application thread calls \<^verbatim>\<open>request\<close>, \<^verbatim>\<open>cancel\<close> and \<^verbatim>\<open>reset\<close>; a second thread waits for the address of the
  server, opens the stream and reads replies (\<^verbatim>\<open>create_connection\<close>).  They share the flags \<^verbatim>\<open>connected\<close> and
  \<^verbatim>\<open>requested\<close> and the promise of the current reply.  The promises that \<^verbatim>\<open>reply_promise\<close> has held are a list;
  a future is a position in it.
\<close>

section \<open>State\<close>

datatype 'r answer = Unanswered | Answered 'r | Stream_Closed | Abandoned

record 'r reply_promise =
  pr_answer :: "'r answer"
  pr_retrieved :: bool

datatype reader_state = Awaiting_Address | Reading | Ended

record 'r ServiceClient =
  sc_status :: ServiceCallStatus
  sc_connected :: bool
  sc_requested :: bool
  sc_promises :: "'r reply_promise list"    \<comment> \<open>the last one is \<open>reply_promise\<close>\<close>
  sc_reader :: reader_state
  sc_joined :: bool                         \<comment> \<open>\<open>wait_server_notify_thread\<close> has been joined\<close>

definition fresh_promise :: "'r reply_promise" where
  "fresh_promise = \<lparr>pr_answer = Unanswered, pr_retrieved = False\<rparr>"

text \<open>\<open>st\<close> and \<open>rq\<close> are the values of the members that the constructor leaves uninitialised.\<close>

definition ServiceClient_new :: "ServiceCallStatus \<Rightarrow> bool \<Rightarrow> 'r ServiceClient" where
  "ServiceClient_new st rq = \<lparr>sc_status = st, sc_connected = False, sc_requested = rq,
     sc_promises = [fresh_promise], sc_reader = Awaiting_Address, sc_joined = False\<rparr>"

section \<open>The promise\<close>

abbreviation current :: "'r ServiceClient \<Rightarrow> 'r reply_promise" where
  "current c \<equiv> last (sc_promises c)"

definition set_current :: "'r reply_promise \<Rightarrow> 'r ServiceClient \<Rightarrow> 'r ServiceClient" where
  "set_current p c = c\<lparr>sc_promises := butlast (sc_promises c) @ [p]\<rparr>"

definition set_answer :: "'r answer \<Rightarrow> 'r ServiceClient \<Rightarrow> 'r ServiceClient result" where
  "set_answer a c =
     (if pr_answer (current c) \<noteq> Unanswered then Inl Promise_Satisfied
      else Inr (set_current ((current c)\<lparr>pr_answer := a\<rparr>) c))"

text \<open>\<^verbatim>\<open>reply_promise = promise<Reply>()\<close>: an unset promise is abandoned.\<close>

definition renew_promise :: "'r ServiceClient \<Rightarrow> 'r ServiceClient" where
  "renew_promise c =
     (let c1 = (if pr_answer (current c) = Unanswered then set_current ((current c)\<lparr>pr_answer := Abandoned\<rparr>) c else c)
      in c1\<lparr>sc_promises := sc_promises c1 @ [fresh_promise]\<rparr>)"

definition get_future :: "'r ServiceClient \<Rightarrow> (nat \<times> 'r ServiceClient) result" where
  "get_future c =
     (if pr_retrieved (current c) then Inl Future_Retrieved
      else Inr (length (sc_promises c) - 1, set_current ((current c)\<lparr>pr_retrieved := True\<rparr>) c))"

section \<open>The reading thread\<close>

text \<open>\<^verbatim>\<open>create_connection\<close> up to its loop, one round of the loop with a reply, and the round in which \<^verbatim>\<open>Read\<close> fails.\<close>

definition connection_open :: "'r ServiceClient \<Rightarrow> 'r ServiceClient" where
  "connection_open c = (renew_promise c)\<lparr>sc_connected := True, sc_requested := False, sc_reader := Reading\<rparr>"

definition read_reply :: "'r ServiceRPCReply \<Rightarrow> 'r \<Rightarrow> 'r ServiceClient \<Rightarrow> 'r ServiceClient result" where
  "read_reply response default_reply c =
     (let c1 = c\<lparr>sc_status := sr_status response\<rparr> in
      if sc_status c1 = SUCCESS \<or> sc_status c1 = FAILED \<or> sc_status c1 = ABORTED
      then bind_result (set_answer (Answered (case sr_payload response of None \<Rightarrow> default_reply | Some r \<Rightarrow> r)) c1)
             (\<lambda>c2. Inr ((renew_promise c2)\<lparr>sc_requested := False\<rparr>))
      else Inr c1)"

definition read_closed :: "'r ServiceClient \<Rightarrow> 'r ServiceClient result" where
  "read_closed c =
     bind_result (if sc_requested c then set_answer Stream_Closed c else Inr c)
       (\<lambda>c1. Inr ((renew_promise c1)\<lparr>sc_connected := False, sc_requested := False, sc_reader := Ended\<rparr>))"

text \<open>The loop over the replies that \<^verbatim>\<open>Read\<close> delivers before it fails.\<close>

fun read_replies :: "'r ServiceRPCReply list \<Rightarrow> 'r \<Rightarrow> 'r ServiceClient \<Rightarrow> 'r ServiceClient result" where
  "read_replies [] d c = Inr c"
| "read_replies (r # rs) d c = bind_result (read_reply r d c) (read_replies rs d)"

definition create_connection :: "'r ServiceRPCReply list \<Rightarrow> 'r \<Rightarrow> 'r ServiceClient \<Rightarrow> 'r ServiceClient result" where
  "create_connection rs d c = bind_result (read_replies rs d (connection_open c)) read_closed"

section \<open>The application thread\<close>

definition ServiceClient_ServerStatus :: "'r ServiceClient \<Rightarrow> ServiceCallStatus" where
  "ServiceClient_ServerStatus c = sc_status c"

text \<open>\<^verbatim>\<open>wait_server_notify_thread.join()\<close>: \<open>None\<close> while the thread still runs.\<close>

definition join_reader :: "'r ServiceClient \<Rightarrow> 'r ServiceClient result option" where
  "join_reader c =
     (if sc_joined c then Some (Inl Not_Joinable)
      else if sc_reader c = Ended then Some (Inr (c\<lparr>sc_joined := True\<rparr>)) else None)"

text \<open>
  \<^verbatim>\<open>request\<close> in sections: the check and the \<^verbatim>\<open>Write\<close>, the flag, the future.  \<open>wrote\<close> is the answer of \<^verbatim>\<open>Write\<close>;
  \<open>after\<close> is what the reading thread does while a failed request waits for it to end.
\<close>

definition request_allowed :: "'r ServiceClient \<Rightarrow> bool" where
  "request_allowed c \<longleftrightarrow> \<not> (\<not> sc_connected c \<or> sc_requested c)"

definition ServiceClient_request ::
    "bool \<Rightarrow> ('r ServiceClient \<Rightarrow> 'r ServiceClient) \<Rightarrow> 'r ServiceClient \<Rightarrow> (nat option \<times> 'r ServiceClient) result option" where
  "ServiceClient_request wrote after c =
     (if \<not> request_allowed c then Some (Inr (None, c))
      else if wrote
      then Some (bind_result (get_future (c\<lparr>sc_requested := True\<rparr>)) (\<lambda>(k, c'). Inr (Some k, c')))
      else map_option (\<lambda>r. bind_result r (\<lambda>c'. Inr (None, c'))) (join_reader (after c)))"

definition ServiceClient_cancel ::
    "bool \<Rightarrow> ('r ServiceClient \<Rightarrow> 'r ServiceClient) \<Rightarrow> 'r ServiceClient \<Rightarrow> (bool \<times> 'r ServiceClient) result option" where
  "ServiceClient_cancel wrote after c =
     (if \<not> sc_connected c \<or> \<not> sc_requested c then Some (Inr (False, c))
      else if wrote then Some (Inr (True, c))
      else map_option (\<lambda>r. bind_result r (\<lambda>c'. Inr (False, c'))) (join_reader (after c)))"

text \<open>\<^verbatim>\<open>reset\<close>: it joins the old thread and starts a new one.\<close>

definition ServiceClient_reset :: "('r ServiceClient \<Rightarrow> 'r ServiceClient) \<Rightarrow> 'r ServiceClient \<Rightarrow> 'r ServiceClient result option" where
  "ServiceClient_reset after c =
     map_option (\<lambda>r. bind_result r (\<lambda>c'. Inr (c'\<lparr>sc_reader := Awaiting_Address, sc_joined := False\<rparr>))) (join_reader (after c))"

section \<open>Both threads\<close>

datatype request_pc = R_Idle | R_Written | R_Marked

record 'r client_run =
  cr_client :: "'r ServiceClient"
  cr_pc :: request_pc
  cr_futures :: "nat list"                      \<comment> \<open>the futures that the application was given\<close>
  cr_reads :: "'r ServiceRPCReply list"         \<comment> \<open>the replies that were read\<close>

inductive client_step :: "'r client_run \<Rightarrow> 'r client_run \<Rightarrow> bool" where
  send: "cr_pc w = R_Idle \<Longrightarrow> request_allowed (cr_client w) \<Longrightarrow> client_step w (w\<lparr>cr_pc := R_Written\<rparr>)"
| mark: "cr_pc w = R_Written \<Longrightarrow>
    client_step w (w\<lparr>cr_client := (cr_client w)\<lparr>sc_requested := True\<rparr>, cr_pc := R_Marked\<rparr>)"
| take: "cr_pc w = R_Marked \<Longrightarrow> get_future (cr_client w) = Inr (k, c) \<Longrightarrow>
    client_step w (w\<lparr>cr_client := c, cr_pc := R_Idle, cr_futures := cr_futures w @ [k]\<rparr>)"
| read: "sc_reader (cr_client w) = Reading \<Longrightarrow> read_reply r d (cr_client w) = Inr c \<Longrightarrow>
    client_step w (w\<lparr>cr_client := c, cr_reads := cr_reads w @ [r]\<rparr>)"
| closed: "sc_reader (cr_client w) = Reading \<Longrightarrow> read_closed (cr_client w) = Inr c \<Longrightarrow>
    client_step w (w\<lparr>cr_client := c\<rparr>)"

inductive_cases client_stepE: "client_step w w'"

section \<open>Answers\<close>

lemma set_current_simps [simp]:
  "sc_promises (set_current p c) = butlast (sc_promises c) @ [p]" "sc_status (set_current p c) = sc_status c"
  "sc_connected (set_current p c) = sc_connected c" "sc_requested (set_current p c) = sc_requested c"
  "sc_reader (set_current p c) = sc_reader c" "sc_joined (set_current p c) = sc_joined c"
  by (simp_all add: set_current_def)

lemma renew_promise_simps [simp]:
  "sc_status (renew_promise c) = sc_status c" "sc_connected (renew_promise c) = sc_connected c"
  "sc_requested (renew_promise c) = sc_requested c" "sc_reader (renew_promise c) = sc_reader c"
  "sc_joined (renew_promise c) = sc_joined c" "sc_promises (renew_promise c) \<noteq> []"
  "last (sc_promises (renew_promise c)) = fresh_promise"
  by (simp_all add: renew_promise_def Let_def)

text \<open>The invariant of the promises: there is a current one, and it is not set.\<close>

definition promise_ok :: "'r ServiceClient \<Rightarrow> bool" where
  "promise_ok c \<longleftrightarrow> sc_promises c \<noteq> [] \<and> pr_answer (current c) = Unanswered"

lemma promise_ok_renew: "promise_ok (renew_promise c)"
  by (simp add: promise_ok_def fresh_promise_def)

lemma promise_ok_update [simp]:
  "promise_ok (c\<lparr>sc_requested := b\<rparr>) = promise_ok c" "promise_ok (c\<lparr>sc_connected := b\<rparr>) = promise_ok c"
  "promise_ok (c\<lparr>sc_reader := r\<rparr>) = promise_ok c" "promise_ok (c\<lparr>sc_status := st\<rparr>) = promise_ok c"
  by (simp_all add: promise_ok_def)

lemma read_reply_eq:
  assumes "promise_ok c"
  shows "read_reply r d c = Inr (if final (sr_status r)
    then (renew_promise (set_current ((current c)\<lparr>pr_answer := Answered (case sr_payload r of None \<Rightarrow> d | Some x \<Rightarrow> x)\<rparr>)
           (c\<lparr>sc_status := sr_status r\<rparr>)))\<lparr>sc_requested := False\<rparr>
    else c\<lparr>sc_status := sr_status r\<rparr>)"
  using assms by (simp add: read_reply_def final_def promise_ok_def set_answer_def)

lemma read_closed_eq:
  assumes "promise_ok c"
  shows "read_closed c = Inr ((renew_promise (if sc_requested c
      then set_current ((current c)\<lparr>pr_answer := Stream_Closed\<rparr>) c else c))
    \<lparr>sc_connected := False, sc_requested := False, sc_reader := Ended\<rparr>)"
  using assms by (simp add: read_closed_def set_answer_def promise_ok_def)

lemma promise_ok_read: "promise_ok c \<Longrightarrow> read_reply r d c = Inr c' \<Longrightarrow> promise_ok c'"
  by (auto simp: read_reply_eq promise_ok_renew split: if_splits)

lemma read_replies_waiting:
  assumes "promise_ok c" and "\<forall>r\<in>set rs. \<not> final (sr_status r)"
  shows "\<exists>st. read_replies rs d c = Inr (c\<lparr>sc_status := st\<rparr>)"
  using assms
proof (induction rs arbitrary: c)
  case Nil
  then show ?case by (auto intro: exI [of _ "sc_status c"])
next
  case (Cons r rs)
  obtain st where "read_replies rs d (c\<lparr>sc_status := sr_status r\<rparr>) = Inr ((c\<lparr>sc_status := sr_status r\<rparr>)\<lparr>sc_status := st\<rparr>)"
    using Cons.IH [of "c\<lparr>sc_status := sr_status r\<rparr>"] Cons.prems by auto
  with Cons.prems show ?case by (auto simp: read_reply_eq)
qed

lemma read_replies_append:
  "read_replies (rs @ rs') d c = bind_result (read_replies rs d c) (read_replies rs' d)"
proof (induction rs arbitrary: c)
  case (Cons r rs)
  then show ?case by (cases "read_reply r d c") auto
qed simp

lemma nth_answered:
  assumes "sc_promises c \<noteq> []" and "pr_answer (current c) \<noteq> Unanswered"
  shows "sc_promises (renew_promise c) ! (length (sc_promises c) - 1) = current c"
  using assms by (simp add: renew_promise_def Let_def nth_append last_conv_nth)

section \<open>Properties\<close>

text \<open>
  On a connected client with no request under way, \<^verbatim>\<open>request\<close> returns a future; whatever intermediate replies
  are read, the first reply with a final status sets exactly that future, and the client is ready again.
\<close>

lemma request_answered:
  assumes "promise_ok c" and "\<not> pr_retrieved (current c)" and "request_allowed c"
    and "\<forall>r\<in>set rs. \<not> final (sr_status r)" and "final (sr_status r)" and "sr_payload r = Some x"
  shows "\<exists>k c1 c2. ServiceClient_request True after c = Some (Inr (Some k, c1)) \<and> read_replies (rs @ [r]) d c1 = Inr c2 \<and>
    pr_answer (sc_promises c1 ! k) = Unanswered \<and> pr_answer (sc_promises c2 ! k) = Answered x \<and>
    sc_status c2 = sr_status r \<and> promise_ok c2 \<and> \<not> pr_retrieved (current c2) \<and> request_allowed c2"
proof -
  let ?c1 = "set_current ((current c)\<lparr>pr_retrieved := True\<rparr>) (c\<lparr>sc_requested := True\<rparr>)"
  let ?k = "length (sc_promises c) - 1"
  have req: "ServiceClient_request True after c = Some (Inr (Some ?k, ?c1))"
    using assms(2,3) by (simp add: ServiceClient_request_def get_future_def)
  have ok: "promise_ok ?c1" "sc_promises ?c1 \<noteq> []" "length (sc_promises ?c1) = length (sc_promises c)"
    "pr_answer (sc_promises ?c1 ! ?k) = Unanswered"
    using assms(1) by (simp_all add: promise_ok_def nth_append)
  obtain st where wait: "read_replies rs d ?c1 = Inr (?c1\<lparr>sc_status := st\<rparr>)"
    using read_replies_waiting [OF ok(1) assms(4)] by blast
  let ?a = "set_current ((current ?c1)\<lparr>pr_answer := Answered x\<rparr>) (?c1\<lparr>sc_status := sr_status r\<rparr>)"
  let ?c2 = "(renew_promise ?a)\<lparr>sc_requested := False\<rparr>"
  have "read_replies (rs @ [r]) d ?c1 = Inr ?c2"
    using assms(5,6) ok(1) by (simp add: read_replies_append wait read_reply_eq)
  moreover have "pr_answer (sc_promises ?c2 ! ?k) = Answered x"
    using nth_answered [of ?a] ok(3) by simp
  moreover have "promise_ok ?c2" "\<not> pr_retrieved (current ?c2)" "request_allowed ?c2" "sc_status ?c2 = sr_status r"
    using assms(3) by (simp_all add: promise_ok_renew fresh_promise_def request_allowed_def)
  ultimately show ?thesis using req ok(4) by blast
qed

definition demo_client_connected :: "nat ServiceClient" where
  "demo_client_connected = connection_open (ServiceClient_new SUSPEND False)"

lemma demo_client_connected_ok:
  "promise_ok demo_client_connected" "\<not> pr_retrieved (current demo_client_connected)" "request_allowed demo_client_connected"
  by (simp_all add: demo_client_connected_def connection_open_def promise_ok_renew request_allowed_def fresh_promise_def)

text \<open>
  C37: a closed stream is reported.  When the stream ends while a request is under way, its future is set
  to the exception; in any case the client is disconnected and refuses requests without blocking.
\<close>

theorem closed_stream_reported:
  assumes "promise_ok c"
  shows "\<exists>c'. read_closed c = Inr c' \<and>
    pr_answer (sc_promises c' ! (length (sc_promises c) - 1)) = (if sc_requested c then Stream_Closed else Abandoned) \<and>
    ServiceClient_request wrote after c' = Some (Inr (None, c'))"
proof -
  let ?a = "if sc_requested c then set_current ((current c)\<lparr>pr_answer := Stream_Closed\<rparr>) c else c"
  have "pr_answer (sc_promises (renew_promise ?a) ! (length (sc_promises c) - 1)) = (if sc_requested c then Stream_Closed else Abandoned)"
    using assms by (auto simp: promise_ok_def renew_promise_def Let_def nth_append)
  with read_closed_eq [OF assms] show ?thesis
    by (simp add: ServiceClient_request_def request_allowed_def)
qed

theorem closed_stream_reported_witness:
  "\<exists>c'. read_closed (demo_client_connected\<lparr>sc_requested := True\<rparr>) = Inr c' \<and> pr_answer (sc_promises c' ! 1) = Stream_Closed"
proof -
  have "promise_ok (demo_client_connected\<lparr>sc_requested := True\<rparr>)" using demo_client_connected_ok by simp
  from closed_stream_reported [OF this] show ?thesis
    by (auto simp: demo_client_connected_def connection_open_def renew_promise_def ServiceClient_new_def fresh_promise_def)
qed

text \<open>
  A fast reply is lost.  \<^verbatim>\<open>request\<close> sets \<^verbatim>\<open>requested\<close> and fetches the future only after \<^verbatim>\<open>Write\<close>.  There is a run in
  which the reply to the only request is read in between: the application holds a future that the reply
  did not set, \<^verbatim>\<open>requested\<close> stays true, and every later request is refused.
\<close>

lemma fast_reply_lost:
  "\<exists>w :: nat client_run. client_step\<^sup>*\<^sup>* \<lparr>cr_client = demo_client_connected, cr_pc = R_Idle, cr_futures = [], cr_reads = []\<rparr> w \<and>
     cr_pc w = R_Idle \<and> cr_reads w = [\<lparr>sr_status = SUCCESS, sr_payload = Some 9\<rparr>] \<and>
     (\<exists>k. cr_futures w = [k] \<and> pr_answer (sc_promises (cr_client w) ! k) = Unanswered) \<and>
     (\<forall>wrote after. ServiceClient_request wrote after (cr_client w) = Some (Inr (None, cr_client w)))"
proof -
  let ?c = demo_client_connected
  let ?r = "\<lparr>sr_status = SUCCESS, sr_payload = Some 9\<rparr> :: nat ServiceRPCReply"
  let ?w = "\<lambda>c pc fs rs. \<lparr>cr_client = c, cr_pc = pc, cr_futures = fs, cr_reads = rs\<rparr>"
  obtain c1 where c1: "read_reply ?r 0 ?c = Inr c1" using read_reply_eq [OF demo_client_connected_ok(1)] by blast
  have ok1: "promise_ok c1" by (rule promise_ok_read [OF demo_client_connected_ok(1) c1])
  have conn1: "sc_connected c1" "\<not> pr_retrieved (current c1)"
    using c1 demo_client_connected_ok by (auto simp: read_reply_eq final_def request_allowed_def fresh_promise_def)
  let ?c2 = "c1\<lparr>sc_requested := True\<rparr>"
  let ?c3 = "set_current ((current c1)\<lparr>pr_retrieved := True\<rparr>) ?c2"
  let ?k = "length (sc_promises c1) - 1"
  have "client_step (?w ?c R_Idle [] []) (?w ?c R_Written [] [])"
    using client_step.send [of "?w ?c R_Idle [] []"] demo_client_connected_ok(3) by simp
  moreover have "client_step (?w ?c R_Written [] []) (?w c1 R_Written [] [?r])"
    using client_step.read [of "?w ?c R_Written [] []" ?r 0 c1] c1 by (simp add: demo_client_connected_def connection_open_def)
  moreover have "client_step (?w c1 R_Written [] [?r]) (?w ?c2 R_Marked [] [?r])"
    using client_step.mark [of "?w c1 R_Written [] [?r]"] by simp
  moreover have "client_step (?w ?c2 R_Marked [] [?r]) (?w ?c3 R_Idle [?k] [?r])"
    using client_step.take [of "?w ?c2 R_Marked [] [?r]" ?k ?c3] conn1(2) by (simp add: get_future_def)
  ultimately have "client_step\<^sup>*\<^sup>* (?w ?c R_Idle [] []) (?w ?c3 R_Idle [?k] [?r])"
    by (meson converse_rtranclp_into_rtranclp rtranclp.rtrancl_refl)
  moreover have "pr_answer (sc_promises ?c3 ! ?k) = Unanswered" using ok1 by (simp add: promise_ok_def nth_append)
  moreover have "ServiceClient_request wrote after ?c3 = Some (Inr (None, ?c3))" for wrote after
    by (simp add: ServiceClient_request_def request_allowed_def)
  ultimately show ?thesis by (intro exI [of _ "?w ?c3 R_Idle [?k] [?r]"]) simp
qed

text \<open>
  A client cannot be reset after a failed write.  When \<^verbatim>\<open>Write\<close> fails, \<^verbatim>\<open>request\<close> and \<^verbatim>\<open>cancel\<close> join the
  reading thread; \<^verbatim>\<open>reset\<close>, which is meant to bring the client back, joins it again and throws.
\<close>

lemma reset_after_failed_write:
  assumes "request_allowed c \<and> ServiceClient_request False after c = Some (Inr (None, c')) \<or>
    sc_connected c \<and> sc_requested c \<and> ServiceClient_cancel False after c = Some (Inr (False, c'))"
  shows "ServiceClient_reset (\<lambda>c. c) c' = Some (Inl Not_Joinable)"
  using assms
  by (auto simp: ServiceClient_request_def ServiceClient_cancel_def join_reader_def bind_result_Inr_iff
      ServiceClient_reset_def split: if_splits)

end
