(* ===== verification/Rate_Timer.thy ===== *)
theory Rate_Timer
  imports Prelude "HOL-Library.Sublist"
begin

text \<open>
  \<^verbatim>\<open>cpp/include/Rate.hpp\<close> (the Linux branch): a periodic timer, and the loop that runs tasks until the period
  is over.

  The answers of the system calls are arguments.  The conversion of \<^verbatim>\<open>1e9 / freq\<close> to \<^verbatim>\<open>long\<close> is the argument
  \<open>ns\<close>.  The kernel's side of a timer descriptor, the number of periods that have ended since it was last
  read, is \<open>expirations\<close>.
\<close>

section \<open>State and operations\<close>

record Rate =
  rt_timer_fd :: int
  rt_interval_ns :: int
  rt_epoll_fd :: int

record itimerspec =
  it_interval_sec :: int
  it_interval_nsec :: int
  it_value_sec :: int
  it_value_nsec :: int

text \<open>C++ division truncates, and \<^verbatim>\<open>%\<close> is the rest of that division.\<close>

definition timer_spec :: "int \<Rightarrow> itimerspec" where
  "timer_spec ns =
     (let s = trunc_div ns 1000000000; r = ns - 1000000000 * trunc_div ns 1000000000
      in \<lparr>it_interval_sec = s, it_interval_nsec = r, it_value_sec = s, it_value_nsec = r\<rparr>)"

record rate_answers =
  ra_timerfd_create :: int
  ra_settime :: "itimerspec \<Rightarrow> int"
  ra_epoll_create :: int
  ra_epoll_ctl :: int

text \<open>The constructor, with the descriptors it closes; \<open>garbage\<close> is the object before.\<close>

definition Rate_new :: "rate_answers \<Rightarrow> int \<Rightarrow> Rate \<Rightarrow> Rate \<times> int list" where
  "Rate_new a ns garbage =
     (let r0 = garbage\<lparr>rt_timer_fd := ra_timerfd_create a\<rparr> in
      if rt_timer_fd r0 = - 1 then (r0, [])
      else let r1 = r0\<lparr>rt_interval_ns := ns\<rparr> in
      if ra_settime a (timer_spec ns) = - 1 then (r1, [rt_timer_fd r1])
      else let r2 = r1\<lparr>rt_epoll_fd := ra_epoll_create a\<rparr> in
      if rt_epoll_fd r2 = - 1 then (r2, [rt_timer_fd r2])
      else if ra_epoll_ctl a = - 1 then (r2, [rt_epoll_fd r2, rt_timer_fd r2])
      else (r2, []))"

definition Rate_delete :: "Rate \<Rightarrow> int list" where
  "Rate_delete r = [rt_timer_fd r, rt_epoll_fd r]"

text \<open>
  What \<^verbatim>\<open>epoll_wait\<close> and the \<^verbatim>\<open>read\<close> after it answer: an error, nothing, or an event with its descriptor and the
  number of expirations, if eight bytes could be read.
\<close>

datatype timer_answer = Wait_Error | Wait_Nothing | Wait_Event int "nat option"

definition read_expirations :: "nat option \<Rightarrow> bool" where
  "read_expirations rd = (case rd of None \<Rightarrow> False | Some n \<Rightarrow> n = 1)"

definition Rate_sleep :: "timer_answer \<Rightarrow> Rate \<Rightarrow> bool" where
  "Rate_sleep w r =
     (case w of
        Wait_Error \<Rightarrow> False
      | Wait_Nothing \<Rightarrow> False
      | Wait_Event fd rd \<Rightarrow> if fd = rt_timer_fd r then read_expirations rd else False)"

text \<open>
  \<^verbatim>\<open>vtask_loop\<close> on a list of tasks: the return value and the tasks that were run.  There is one answer of
  \<^verbatim>\<open>epoll_wait\<close> per task, and the last one is that of \<^verbatim>\<open>sleep\<close>.
\<close>

fun Rate_vtask_loop :: "timer_answer list \<Rightarrow> 'f list \<Rightarrow> Rate \<Rightarrow> (bool \<times> 'f list) option" where
  "Rate_vtask_loop [] funcs r = None"
| "Rate_vtask_loop (w # ws) [] r = Some (Rate_sleep w r, [])"
| "Rate_vtask_loop (w # ws) (func # funcs) r =
     (case w of
        Wait_Error \<Rightarrow> Some (False, [])
      | Wait_Nothing \<Rightarrow> map_option (\<lambda>(b, run). (b, func # run)) (Rate_vtask_loop ws funcs r)
      | Wait_Event fd rd \<Rightarrow>
          Some (if fd = rt_timer_fd r then read_expirations rd else False, []))"

section \<open>The kernel's timer\<close>

text \<open>
  A timer of period \<open>p\<close> started at time 0 expires at the multiples of \<open>p\<close>; \<open>expirations\<close> counts those after
  \<open>t0\<close> and up to \<open>t\<close>.  \<open>poll_timer\<close> answers a wait without timeout at time \<open>t\<close>, \<open>await_timer\<close> one that blocks:
  it returns at the next expiration if there was none since the last read at \<open>t0\<close>.
\<close>

definition expirations :: "nat \<Rightarrow> nat \<Rightarrow> nat \<Rightarrow> nat" where
  "expirations p t0 t = t div p - t0 div p"

definition poll_timer :: "nat \<Rightarrow> nat \<Rightarrow> int \<Rightarrow> nat \<Rightarrow> timer_answer" where
  "poll_timer p t0 fd t = (if expirations p t0 t = 0 then Wait_Nothing else Wait_Event fd (Some (expirations p t0 t)))"

definition await_timer :: "nat \<Rightarrow> nat \<Rightarrow> int \<Rightarrow> nat \<Rightarrow> timer_answer" where
  "await_timer p t0 fd t = Wait_Event fd (Some (max 1 (expirations p t0 t)))"

text \<open>A period of tasks: it starts at \<open>t\<close>, and every task takes some time.\<close>

fun period_answers :: "nat \<Rightarrow> nat \<Rightarrow> int \<Rightarrow> nat \<Rightarrow> nat list \<Rightarrow> timer_answer list" where
  "period_answers p t0 fd t [] = [await_timer p t0 fd t]"
| "period_answers p t0 fd t (d # ds) = poll_timer p t0 fd t # period_answers p t0 fd (t + d) ds"

section \<open>Properties\<close>

text \<open>
  The interval is split without loss.  For every interval that is not negative, seconds and nanoseconds
  add up to it and the nanoseconds are in the range that \<^verbatim>\<open>timerfd_settime\<close> accepts; a negative interval
  yields a negative field, which it rejects.
\<close>

lemma timer_spec_exact:
  "it_interval_sec (timer_spec ns) * 1000000000 + it_interval_nsec (timer_spec ns) = ns \<and>
   (0 \<le> ns \<longrightarrow> 0 \<le> it_interval_sec (timer_spec ns) \<and> 0 \<le> it_interval_nsec (timer_spec ns) \<and> it_interval_nsec (timer_spec ns) < 1000000000) \<and>
   (ns < 0 \<longrightarrow> it_interval_sec (timer_spec ns) < 0 \<or> it_interval_nsec (timer_spec ns) < 0)"
proof -
  have split: "it_interval_sec (timer_spec ns) = trunc_div ns 1000000000"
    "it_interval_nsec (timer_spec ns) = ns - 1000000000 * trunc_div ns 1000000000"
    by (simp_all add: timer_spec_def Let_def)
  have pos: "trunc_div ns 1000000000 = ns div 1000000000" if "0 \<le> ns"
    using that by (simp add: trunc_div_def sgn_if)
  have neg: "trunc_div ns 1000000000 = - ((- ns) div 1000000000)" if "ns < 0"
    using that by (simp add: trunc_div_def sgn_if)
  show ?thesis
  proof (cases "0 \<le> ns")
    case True
    have "it_interval_nsec (timer_spec ns) = ns mod 1000000000"
      unfolding split pos [OF True] by (rule minus_mult_div_eq_mod)
    with True show ?thesis by (simp add: split(1) pos pos_imp_zdiv_nonneg_iff)
  next
    case False
    define m where "m = - ns"
    have m: "0 < m" "ns = - m" using False by (simp_all add: m_def)
    have sec: "it_interval_sec (timer_spec ns) = - (m div 1000000000)"
      using neg False by (simp add: split(1) m_def)
    have nsec: "it_interval_nsec (timer_spec ns) = - (m mod 1000000000)"
      unfolding split(2) minus_mult_div_eq_mod [symmetric] using neg False by (simp add: m_def)
    have "0 < m div 1000000000 \<or> 0 < m mod 1000000000"
      using m(1) by (metis div_mult_mod_eq add_0 less_le mult_zero_left pos_imp_zdiv_nonneg_iff pos_mod_sign less_imp_le zero_less_numeral)
    moreover have "- (m div 1000000000) * 1000000000 + - (m mod 1000000000) = ns"
      using div_mult_mod_eq [of m 1000000000] m(2) by linarith
    ultimately show ?thesis using False unfolding sec nsec by auto
  qed
qed

text \<open>
  A timer that could not be set up is closed twice.  When the constructor fails after the timer
  descriptor was created it closes it, and the destructor closes it again, together with an epoll
  descriptor that was never opened.
\<close>

lemma failed_timer_closed_twice:
  assumes "ra_timerfd_create a \<noteq> - 1" and "ra_settime a (timer_spec ns) = - 1" and "Rate_new a ns garbage = (r, closed)"
  shows "closed @ Rate_delete r = [ra_timerfd_create a, ra_timerfd_create a, rt_epoll_fd garbage]"
  using assms by (auto simp: Rate_new_def Rate_delete_def Let_def)

end
