(* ===== verification/Kqueue.thy ===== *)
theory Kqueue
  imports TCP_Server Rate_Timer
begin

text \<open>
  The macOS branches (\<^verbatim>\<open>#elif __APPLE__\<close>) of \<^verbatim>\<open>AsyncSocket.cpp\<close>, \<^verbatim>\<open>TCPServer.cpp\<close> and \<^verbatim>\<open>Rate.hpp\<close>, which use kqueue in
  the place of epoll and timerfd, and how they relate to the Linux branches of the other theories.

  The state is that of the Linux branch: \<open>sock_epoll_fd\<close> is \<^verbatim>\<open>kq_fd\<close>, and \<open>sock_interest\<close> holds the filter that
  a descriptor is registered with.  The code registers read filters only.
\<close>

section \<open>Sockets\<close>

definition EVFILT_READ :: "32 word" where "EVFILT_READ = - 1"
definition EV_ADD :: "32 word" where "EV_ADD = 1"
definition EV_ENABLE :: "32 word" where "EV_ENABLE = 4"
definition EV_ERROR :: "32 word" where "EV_ERROR = 0x4000"

text \<open>\<open>ret\<close> is the answer of \<^verbatim>\<open>kevent\<close>; \<^verbatim>\<open>EV_DELETE\<close> removes the pair of descriptor and filter.\<close>

definition Socket_add_kqueue_event ::
    "int \<Rightarrow> nat \<Rightarrow> 32 word \<Rightarrow> 32 word \<Rightarrow> 'z Socket_scheme \<Rightarrow> int \<times> 'z Socket_scheme" where
  "Socket_add_kqueue_event ret fd kfilter flags s =
     (if ret < 0 then (- 1, s)
      else (0, s\<lparr>sock_interest := (sock_interest s)(fd \<mapsto> kfilter)\<rparr>))"

definition Socket_delete_kqueue_event :: "int \<Rightarrow> nat \<Rightarrow> 32 word \<Rightarrow> 'z Socket_scheme \<Rightarrow> int \<times> 'z Socket_scheme" where
  "Socket_delete_kqueue_event ret fd kfilter s =
     (if ret < 0 then (- 1, s)
      else (0, if sock_interest s fd = Some kfilter then s\<lparr>sock_interest := (sock_interest s)(fd := None)\<rparr> else s))"

definition Socket_init_kqueue :: "int \<Rightarrow> 'z Socket_scheme \<Rightarrow> int \<times> 'z Socket_scheme" where
  "Socket_init_kqueue created s =
     (let s' = s\<lparr>sock_epoll_fd := created\<rparr> in if created < 0 then (- 1, s') else (0, s'))"

section \<open>The server\<close>

definition TCPServer_new_kq :: "int \<Rightarrow> int \<Rightarrow> string \<Rightarrow> int \<Rightarrow> ('m, 'f) TCPServer" where
  "TCPServer_new_kq created garbage ip port =
     (let s = \<lparr>sock_epoll_fd = garbage, sock_interest = Map.empty, sock_closed = [],
               srv_decoders = Map.empty, srv_addr_to_topic = Map.empty, srv_fd_to_addr = [],
               srv_fd_receive_data = [], srv_unmapped_addr_to_fd = Map.empty, srv_fd = garbage,
               srv_ip = ip, srv_port = port, srv_buf_size = 8192\<rparr>;
          s' = snd (Socket_init_kqueue created s)
      in s'\<lparr>srv_fd_to_addr := vec_resize 100 '''' (srv_fd_to_addr s')\<rparr>)"

definition init_tcp_srv_kq :: "init_answers \<Rightarrow> ('m, 'f) TCPServer \<Rightarrow> int \<times> ('m, 'f) TCPServer" where
  "init_tcp_srv_kq a s =
     (let fd = Socket_create_socket (ia_sockfd a) (ia_getfl a) (ia_setfl a);
          s = s\<lparr>srv_fd := fd\<rparr> in
      if fd < 0 then (- 1, s)
      else let (r, s) = TCPServer_bind_socket (ia_bind a) (nat fd) s in
      if r < 0 then (- 1, s)
      else let (r, s) = TCPServer_listen_socket (ia_listen a) (nat fd) s in
      if r < 0 then (- 1, s)
      else let (r, s) = TCPServer_get_socket_info (ia_getsockname a) (nat fd) s in
      if r < 0 then (- 1, s)
      else let (r, s) = Socket_add_kqueue_event (ia_ctl a) (nat fd) EVFILT_READ (EV_ADD OR EV_ENABLE) s in
      if r < 0 then (- 1, s)
      else (srv_port s, s))"

definition map_client_kq ::
    "int \<Rightarrow> string \<Rightarrow> string \<Rightarrow> nat \<Rightarrow> ('m, 'f) TCPServer \<Rightarrow> ('m, 'f) TCPServer result" where
  "map_client_kq ret topic token fd s =
     (let s1 = s\<lparr>srv_addr_to_topic := (srv_addr_to_topic s)(token \<mapsto> topic)\<rparr>;
          data = (if length (srv_fd_receive_data s1) \<le> fd
                  then vec_resize (length (srv_fd_receive_data s1) + 100) [] (srv_fd_receive_data s1)
                  else srv_fd_receive_data s1)
      in bind_result (vec_set data fd []) (\<lambda>data'.
           let s2 = snd (Socket_add_kqueue_event ret fd EVFILT_READ (EV_ADD OR EV_ENABLE) (s1\<lparr>srv_fd_receive_data := data'\<rparr>))
           in Inr (s2\<lparr>srv_unmapped_addr_to_fd := (srv_unmapped_addr_to_fd s2)(token := None)\<rparr>)))"

definition close_and_delete_event_kq ::
    "int \<Rightarrow> nat \<Rightarrow> 32 word \<Rightarrow> ('m, 'f) TCPServer \<Rightarrow> ('m, 'f) TCPServer result" where
  "close_and_delete_event_kq ret fd revents s =
     bind_result (vec_get (srv_fd_to_addr s) fd) (\<lambda>token.
       bind_result (vec_set (srv_fd_to_addr s) fd '''') (\<lambda>addrs.
         bind_result (vec_set (srv_fd_receive_data s) fd []) (\<lambda>data.
           Inr (close_fd fd (snd (Socket_delete_kqueue_event ret fd revents
             (s\<lparr>srv_unmapped_addr_to_fd := (srv_unmapped_addr_to_fd s)(token := None),
                srv_addr_to_topic := (srv_addr_to_topic s)(token := None),
                srv_fd_to_addr := addrs, srv_fd_receive_data := data\<rparr>)))))))"

fun recv_loop_kq ::
    "(string \<Rightarrow> 'm protobuf) \<Rightarrow> string \<Rightarrow> nat \<Rightarrow> 32 word \<Rightarrow> int \<Rightarrow> recv_end \<Rightarrow> bytes list \<Rightarrow> ('m, 'f) TCPServer \<Rightarrow>
       (('m, 'f) TCPServer \<times> ('f \<times> 'm) list) result" where
  "recv_loop_kq pbs topic fd revents ret stop [] s =
     (case stop of
        Recv_EAGAIN \<Rightarrow> Inr (s, [])
      | _ \<Rightarrow> bind_result (close_and_delete_event_kq ret fd revents s) (\<lambda>s'. Inr (s', [])))"
| "recv_loop_kq pbs topic fd revents ret stop (chunk # chunks) s =
     bind_result (recv_chunk pbs topic fd chunk s) (\<lambda>(s1, calls).
       bind_result (recv_loop_kq pbs topic fd revents ret stop chunks s1) (\<lambda>(s2, calls').
         Inr (s2, calls @ calls')))"

definition handle_client_event_kq ::
    "(string \<Rightarrow> 'm protobuf) \<Rightarrow> sys_answers \<Rightarrow> nat \<Rightarrow> 32 word \<Rightarrow> ('m, 'f) TCPServer \<Rightarrow>
       (('m, 'f) TCPServer \<times> ('f \<times> 'm) list) result" where
  "handle_client_event_kq pbs a client_fd revents s =
     (if revents AND EVFILT_READ = 0 then Inr (s, [])
      else bind_result (vec_get (srv_fd_to_addr s) client_fd) (\<lambda>client_addr.
        case srv_addr_to_topic s client_addr of
          None \<Rightarrow> Inr (s, [])
        | Some topic \<Rightarrow>
            if srv_decoders s topic = None then Inr (s, [])
            else recv_loop_kq pbs topic client_fd revents (ans_ctl a) (ans_end a) (ans_chunks a) s))"

text \<open>An event of \<^verbatim>\<open>kevent\<close> and the loop over the events; \<^verbatim>\<open>EV_ERROR\<close> on a connection ends the loop.\<close>

record kevent =
  kv_ident :: nat
  kv_filter :: "32 word"
  kv_flags :: "32 word"
  kv_ans :: sys_answers

datatype kevent_answer = Kevent_EAGAIN | Kevent_Error | Kevent_Events "kevent list"

fun event_loop_kq ::
    "(string \<Rightarrow> 'm protobuf) \<Rightarrow> kevent list \<Rightarrow> int \<Rightarrow> ('m, 'f) TCPServer \<Rightarrow>
       (int \<times> ('m, 'f) TCPServer \<times> (nat \<times> 'f \<times> 'm) list) result" where
  "event_loop_kq pbs [] ret s = Inr (ret, s, [])"
| "event_loop_kq pbs (e # es) ret s =
     (if int (kv_ident e) = srv_fd s
      then bind_result (TCPServer_accept_new_client (kv_ans e) s) (\<lambda>(r, s1).
        event_loop_kq pbs es (if r < 0 then - 1 else ret) s1)
      else if kv_flags e AND EV_ERROR \<noteq> 0
      then bind_result (close_and_delete_event_kq (ans_ctl (kv_ans e)) (kv_ident e) EVFILT_READ s) (\<lambda>s1. Inr (- 1, s1, []))
      else bind_result (handle_client_event_kq pbs (kv_ans e) (kv_ident e) (kv_filter e) s) (\<lambda>(s1, calls).
        bind_result (event_loop_kq pbs es ret s1) (\<lambda>(ret', s2, log).
          Inr (ret', s2, map (Pair (kv_ident e)) calls @ log))))"

definition event_handler_kq ::
    "(string \<Rightarrow> 'm protobuf) \<Rightarrow> kevent_answer \<Rightarrow> ('m, 'f) TCPServer \<Rightarrow>
       (int \<times> ('m, 'f) TCPServer \<times> (nat \<times> 'f \<times> 'm) list) result" where
  "event_handler_kq pbs w s =
     (case w of
        Kevent_EAGAIN \<Rightarrow> Inr (0, s, [])
      | Kevent_Error \<Rightarrow> Inr (- 1, s, [])
      | Kevent_Events es \<Rightarrow> if es = [] then Inr (0, s, []) else event_loop_kq pbs es 0 s)"

section \<open>The two branches of the server agree\<close>

text \<open>Closing forgets the descriptor on both systems, whatever the answer to its removal was.\<close>

lemma close_after_delete:
  "close_fd fd (snd (Socket_delete_kqueue_event ret fd kfilter s)) = close_fd fd s"
  "close_fd fd (snd (Socket_delete_epoll_event ctl fd s)) = close_fd fd s"
  by (simp_all add: Socket_delete_kqueue_event_def Socket_delete_epoll_event_def close_fd_def)

lemma close_and_delete_event_kq_eq: "close_and_delete_event_kq ret fd revents s = TCPServer_close_and_delete_event ctl fd s"
  by (simp add: close_and_delete_event_kq_def TCPServer_close_and_delete_event_def close_after_delete)

lemma recv_loop_kq_eq: "recv_loop_kq pbs topic fd revents ret stop chunks s = recv_loop pbs topic fd ctl stop chunks s"
proof (induction chunks arbitrary: s)
  case (Cons chunk chunks)
  then show ?case by simp
qed (simp add: close_and_delete_event_kq_eq [where ctl = ctl] split: recv_end.split)

text \<open>
  Setting the server up and mapping a connection differ in the flags of the descriptors they register, and
  in nothing else.  \<open>same_watch\<close>: the same server up to these flags.
\<close>

definition same_watch :: "('m, 'f) TCPServer \<Rightarrow> ('m, 'f) TCPServer \<Rightarrow> bool" where
  "same_watch s t \<longleftrightarrow> dom (sock_interest s) = dom (sock_interest t) \<and> s\<lparr>sock_interest := Map.empty\<rparr> = t\<lparr>sock_interest := Map.empty\<rparr>"

lemma TCPServer_new_kq_eq: "TCPServer_new_kq created garbage ip port = TCPServer_new created garbage ip port"
  by (simp add: TCPServer_new_kq_def TCPServer_new_def Socket_init_kqueue_def Socket_init_epoll_def)

lemma init_tcp_srv_kq_same:
  "fst (init_tcp_srv_kq a s) = fst (TCPServer_init_tcp_srv a s) \<and>
   same_watch (snd (init_tcp_srv_kq a s)) (snd (TCPServer_init_tcp_srv a s))"
  by (simp add: init_tcp_srv_kq_def TCPServer_init_tcp_srv_def TCPServer_bind_socket_def TCPServer_listen_socket_def
      TCPServer_get_socket_info_def Socket_add_kqueue_event_def Socket_add_epoll_event_def same_watch_def Let_def
      split: option.split)

lemma map_client_kq_same:
  "rel_sum (=) same_watch (map_client_kq ret topic token fd s) (TCPServer_map_client ret topic token fd s)"
  by (auto simp: map_client_kq_def TCPServer_map_client_def Socket_add_kqueue_event_def Socket_add_epoll_event_def
      same_watch_def vec_set_def Let_def)

text \<open>
  \<open>matches\<close>: an event of kqueue and one of epoll that report the same descriptor ready for reading, and on
  which the system calls answer the same.
\<close>

definition matches :: "kevent \<Rightarrow> event \<Rightarrow> bool" where
  "matches k e \<longleftrightarrow> kv_ident k = ev_fd e \<and> kv_filter k = EVFILT_READ \<and> kv_flags k AND EV_ERROR = 0 \<and>
     ev_events e AND (EPOLLERR OR EPOLLHUP) = 0 \<and> kv_ans k = ev_ans e"

lemma handle_client_event_kq_eq:
  assumes "matches k e"
  shows "handle_client_event_kq pbs (kv_ans k) (kv_ident k) (kv_filter k) s =
    TCPServer_handle_client_event pbs (ev_ans e) (ev_fd e) (ev_events e) s"
  using assms
  by (auto simp: matches_def handle_client_event_kq_def TCPServer_handle_client_event_def EVFILT_READ_def
      recv_loop_kq_eq [where ctl = "ans_ctl (ev_ans e)"] split: option.split intro: bind_result_cong)

lemma event_loop_kq_eq:
  assumes "list_all2 matches ks es"
  shows "event_loop_kq pbs ks ret s = event_loop pbs es ret s"
  using assms
proof (induction arbitrary: ret s)
  case (Cons k ks e es)
  note eq = handle_client_event_kq_eq [OF Cons.hyps(1)]
  have ident: "kv_ident k = ev_fd e" "kv_ans k = ev_ans e" "kv_flags k AND EV_ERROR = 0"
    using Cons.hyps(1) by (simp_all add: matches_def)
  show ?case
  proof (cases "int (ev_fd e) = srv_fd s")
    case True
    then show ?thesis
      by (auto simp: event_round_def ident bind_result_assoc Cons.IH intro!: bind_result_cong)
  next
    case False
    then show ?thesis using eq [of pbs s]
      by (auto simp: event_round_def ident bind_result_assoc Cons.IH intro!: bind_result_cong)
  qed
qed simp

text \<open>The listening socket stays what it is while events are handled.\<close>

lemma srv_fd_close: "TCPServer_close_and_delete_event ctl fd s = Inr s' \<Longrightarrow> srv_fd s' = srv_fd s"
  by (auto simp: TCPServer_close_and_delete_event_def bind_result_Inr_iff close_fd_def Socket_delete_epoll_event_def
      split: if_splits)

lemma srv_fd_recv_loop: "recv_loop pbs topic fd ctl stop chunks s = Inr (s', calls) \<Longrightarrow> srv_fd s' = srv_fd s"
proof (induction chunks arbitrary: s calls)
  case Nil
  then show ?case by (auto simp: bind_result_Inr_iff split: recv_end.splits dest: srv_fd_close)
next
  case (Cons chunk chunks)
  from Cons.prems obtain s1 calls1 calls2 where "recv_chunk pbs topic fd chunk s = Inr (s1, calls1)"
      and rest: "recv_loop pbs topic fd ctl stop chunks s1 = Inr (s', calls2)"
    by (auto simp: bind_result_Inr_iff)
  then have "srv_fd s1 = srv_fd s"
    by (auto simp: recv_chunk_def bind_result_Inr_iff Let_def case_prod_beta split: option.splits)
  with Cons.IH [OF rest] show ?case by simp
qed

lemma srv_fd_event_round: "event_round pbs e s = Inr (failed, s', log) \<Longrightarrow> srv_fd s' = srv_fd s"
  by (auto simp: event_round_def TCPServer_accept_new_client_def TCPServer_handle_client_event_def bind_result_Inr_iff
      Let_def close_fd_def split: if_splits option.splits accept_answer.splits dest: srv_fd_close srv_fd_recv_loop)

lemma event_loop_kq_error:
  assumes "list_all2 matches ks es" and "kv_flags k AND EV_ERROR \<noteq> 0" and "int (kv_ident k) \<noteq> srv_fd s"
  shows "event_loop_kq pbs (ks @ k # rest) ret s = bind_result (event_loop pbs es ret s) (\<lambda>(ret', s1, log).
    bind_result (TCPServer_close_and_delete_event ctl (kv_ident k) s1) (\<lambda>s2. Inr (- 1, s2, log)))"
  using assms(1,3)
proof (induction arbitrary: ret s)
  case Nil
  with assms(2) show ?case by (simp add: close_and_delete_event_kq_eq [where ctl = ctl])
next
  case (Cons k' ks e es)
  have ident: "kv_ident k' = ev_fd e" "kv_ans k' = ev_ans e" "kv_flags k' AND EV_ERROR = 0"
    using Cons.hyps(1) by (simp_all add: matches_def)
  have keep: "int (kv_ident k) \<noteq> srv_fd s1" if "event_round pbs e s = Inr (failed, s1, log)" for failed s1 log
    using srv_fd_event_round [OF that] Cons.prems by simp
  have "event_loop_kq pbs ((k' # ks) @ k # rest) ret s =
      bind_result (event_round pbs e s) (\<lambda>(failed, s1, log).
        bind_result (event_loop_kq pbs (ks @ k # rest) (if failed then - 1 else ret) s1) (\<lambda>(ret', s2, log').
          Inr (ret', s2, log @ log')))"
    using handle_client_event_kq_eq [OF Cons.hyps(1), of pbs s]
    by (cases "int (ev_fd e) = srv_fd s")
      (auto simp: event_round_def ident bind_result_assoc case_prod_beta intro!: bind_result_cong)
  also have "\<dots> = bind_result (event_round pbs e s) (\<lambda>(failed, s1, log).
        bind_result (bind_result (event_loop pbs es (if failed then - 1 else ret) s1) (\<lambda>(ret', s1, log).
          bind_result (TCPServer_close_and_delete_event ctl (kv_ident k) s1) (\<lambda>s2. Inr (- 1, s2, log))))
          (\<lambda>(ret', s2, log'). Inr (ret', s2, log @ log')))"
    by (rule bind_result_cong) (auto simp: Cons.IH keep)
  finally show ?case by (auto simp: bind_result_assoc case_prod_beta intro!: bind_result_cong)
qed

section \<open>Runs of the server on kqueue\<close>

text \<open>
  \<open>as_epoll\<close>: the events of epoll that stand for a list of events of kqueue.  An error on a connection is the
  last of them.
\<close>

fun as_epoll :: "int \<Rightarrow> kevent list \<Rightarrow> event list" where
  "as_epoll srv [] = []"
| "as_epoll srv (k # ks) =
     (if int (kv_ident k) \<noteq> srv \<and> kv_flags k AND EV_ERROR \<noteq> 0
      then [\<lparr>ev_fd = kv_ident k, ev_events = EPOLLERR, ev_ans = kv_ans k\<rparr>]
      else \<lparr>ev_fd = kv_ident k, ev_events = EPOLLIN, ev_ans = kv_ans k\<rparr> # as_epoll srv ks)"

lemma event_round_error:
  "ev_events e AND (EPOLLERR OR EPOLLHUP) \<noteq> 0 \<Longrightarrow> int (ev_fd e) \<noteq> srv_fd s \<Longrightarrow>
     event_round pbs e s = bind_result (TCPServer_close_and_delete_event (ans_ctl (ev_ans e)) (ev_fd e) s) (\<lambda>s'. Inr (False, s', []))"
  by (simp add: event_round_def TCPServer_handle_client_event_def bind_result_assoc)

text \<open>The loop over the events of kqueue is the loop over those of epoll, up to the value it returns.\<close>

lemma event_loop_as_epoll:
  assumes "\<forall>k\<in>set ks. kv_filter k = EVFILT_READ" and "event_loop_kq pbs ks ret s = Inr (ret', s', log)"
  shows "\<exists>ret''. event_loop pbs (as_epoll (srv_fd s) ks) ret s = Inr (ret'', s', log)"
  using assms
proof (induction ks arbitrary: ret s log)
  case (Cons k ks)
  let ?e = "\<lparr>ev_fd = kv_ident k, ev_events = EPOLLIN, ev_ans = kv_ans k\<rparr>"
  show ?case
  proof (cases "int (kv_ident k) \<noteq> srv_fd s \<and> kv_flags k AND EV_ERROR \<noteq> 0")
    case True
    then show ?thesis using Cons.prems(2)
      by (auto simp: event_round_error epoll_masks bind_result_Inr_iff close_and_delete_event_kq_eq [where ctl = "ans_ctl (kv_ans k)"])
  next
    case False
    have "handle_client_event_kq pbs (kv_ans k) (kv_ident k) (kv_filter k) s =
        TCPServer_handle_client_event pbs (ev_ans ?e) (ev_fd ?e) (ev_events ?e) s" if "int (kv_ident k) \<noteq> srv_fd s"
      by (rule handle_client_event_kq_eq) (use False that Cons.prems(1) in \<open>simp add: matches_def epoll_masks\<close>)
    with False Cons.prems(2) obtain failed s1 log1 log2 where round: "event_round pbs ?e s = Inr (failed, s1, log1)"
      and rest: "event_loop_kq pbs ks (if failed then - 1 else ret) s1 = Inr (ret', s', log2)" "log = log1 @ log2"
      by (cases "int (kv_ident k) = srv_fd s") (fastforce simp: event_round_def bind_result_Inr_iff)+
    from Cons.IH [OF _ rest(1)] Cons.prems(1) srv_fd_event_round [OF round] round rest(2) False show ?thesis
      by (auto simp: bind_result_Inr_iff)
  qed
qed simp

fun spin_rounds_kq ::
    "(string \<Rightarrow> 'm protobuf) \<Rightarrow> kevent_answer list \<Rightarrow> ('m, 'f) TCPServer \<Rightarrow>
       (('m, 'f) TCPServer \<times> (nat \<times> 'f \<times> 'm) list) result" where
  "spin_rounds_kq pbs [] s = Inr (s, [])"
| "spin_rounds_kq pbs (w # ws) s =
     bind_result (event_handler_kq pbs w s) (\<lambda>(ret, s1, log).
       bind_result (spin_rounds_kq pbs ws s1) (\<lambda>(s2, log'). Inr (s2, log @ log')))"

lemma event_handler_as_epoll:
  assumes "\<forall>k\<in>set ks. kv_filter k = EVFILT_READ" and "event_handler_kq pbs (Kevent_Events ks) s = Inr (ret, s', log)"
  shows "\<exists>ret'. TCPServer_event_handler pbs (Epoll_Events (as_epoll (srv_fd s) ks)) s = Inr (ret', s', log)"
proof (cases ks)
  case (Cons k ks')
  with assms show ?thesis
    using event_loop_as_epoll [OF assms(1), of pbs 0 s ret s' log] by (simp add: event_handler_kq_def TCPServer_event_handler_def)
qed (use assms in \<open>simp add: event_handler_kq_def TCPServer_event_handler_def\<close>)

lemma srv_fd_event_loop: "event_loop pbs es ret s = Inr (ret', s', log) \<Longrightarrow> srv_fd s' = srv_fd s"
  by (induction es arbitrary: ret s log) (auto simp: bind_result_Inr_iff dest!: srv_fd_event_round)

lemma srv_fd_event_handler: "TCPServer_event_handler pbs w s = Inr (ret, s', log) \<Longrightarrow> srv_fd s' = srv_fd s"
  by (auto simp: TCPServer_event_handler_def dest: srv_fd_event_loop split: epoll_answer.splits if_splits)

lemma spin_rounds_as_epoll:
  assumes "\<forall>ks\<in>set kss. \<forall>k\<in>set ks. kv_filter k = EVFILT_READ" and "spin_rounds_kq pbs (map Kevent_Events kss) s = Inr (s', log)"
  shows "spin_rounds pbs (map Epoll_Events (map (as_epoll (srv_fd s)) kss)) s = Inr (s', log)"
  using assms
proof (induction kss arbitrary: s log)
  case (Cons ks kss)
  then obtain ret s1 log1 log2 where round: "event_handler_kq pbs (Kevent_Events ks) s = Inr (ret, s1, log1)"
    and rest: "spin_rounds_kq pbs (map Kevent_Events kss) s1 = Inr (s', log2)" "log = log1 @ log2"
    by (auto simp: bind_result_Inr_iff)
  obtain ret' where handler: "TCPServer_event_handler pbs (Epoll_Events (as_epoll (srv_fd s) ks)) s = Inr (ret', s1, log1)"
    using event_handler_as_epoll [OF _ round] Cons.prems(1) by auto
  from Cons.IH [OF _ rest(1)] Cons.prems(1) handler rest(2) srv_fd_event_handler [OF handler] show ?case by simp
qed simp

text \<open>The steps of a server on kqueue; what epoll and accept promise of events is asked of those of kqueue.\<close>

inductive tcp_step_kq :: "(string \<Rightarrow> 'm protobuf) \<Rightarrow> ('m, 'f) TCPServer \<Rightarrow> ('m, 'f) TCPServer \<Rightarrow> bool"
  for pbs :: "string \<Rightarrow> 'm protobuf" where
  spin: "\<forall>k\<in>set ks. kv_filter k = EVFILT_READ \<Longrightarrow> events_ok pbs (as_epoll (srv_fd s) ks) s \<Longrightarrow>
    event_handler_kq pbs (Kevent_Events ks) s = Inr (ret, s', log) \<Longrightarrow> tcp_step_kq pbs s s'"
| handshake: "srv_unmapped_addr_to_fd s (addr_token ip port) = Some fd \<Longrightarrow>
    map_client_kq ret topic (addr_token ip port) fd s = Inr s' \<Longrightarrow> tcp_step_kq pbs s s'"
| subscribe: "subscribe_decoder pbs topic url cb s = Inr s' \<Longrightarrow> tcp_step_kq pbs s s'"

definition tcp_start_kq :: "('m, 'f) TCPServer \<Rightarrow> bool" where
  "tcp_start_kq s \<longleftrightarrow> (\<exists>created garbage ip port a r.
     init_tcp_srv_kq a (TCPServer_new_kq created garbage ip port) = (r, s) \<and> 0 \<le> r)"

text \<open>The consistency of the tables depends on which descriptors are watched, not on the flags.\<close>

lemma srv_wf_same_watch:
  assumes "same_watch s t" and "srv_wf t"
  shows "srv_wf s"
proof -
  obtain m where s: "s = t\<lparr>sock_interest := m\<rparr>"
    using assms(1) by (cases s, cases t) (auto simp: same_watch_def)
  have "m fd = None \<longleftrightarrow> sock_interest t fd = None" for fd using assms(1) by (auto simp: same_watch_def s)
  with assms(2) show ?thesis by (simp add: wf_defs s)
qed

lemma srv_wf_start_kq:
  fixes s :: "('m, 'f) TCPServer"
  assumes "tcp_start_kq s"
  shows "srv_wf s"
proof -
  from assms obtain created garbage ip port a r where r: "init_tcp_srv_kq a (TCPServer_new created garbage ip port) = (r, s)" "0 \<le> r"
    by (auto simp: tcp_start_kq_def TCPServer_new_kq_eq)
  let ?new = "TCPServer_new created garbage ip port :: ('m, 'f) TCPServer"
  obtain t where t: "TCPServer_init_tcp_srv a ?new = (r, t)" "same_watch s t"
    using init_tcp_srv_kq_same [of a ?new] r(1) by (cases "TCPServer_init_tcp_srv a ?new") simp
  with r(2) have "tcp_start t" unfolding tcp_start_def by blast
  with t(2) show ?thesis by (blast intro: srv_wf_same_watch srv_wf_start)
qed

lemma tcp_step_kq_inv:
  assumes "srv_wf s" and "tcp_step_kq pbs s s'"
  shows "srv_wf s'"
  using assms(2)
proof cases
  case (spin ks ret log)
  then obtain ret' where "TCPServer_event_handler pbs (Epoll_Events (as_epoll (srv_fd s) ks)) s = Inr (ret', s', log)"
    using event_handler_as_epoll by blast
  with spin(2) assms(1) show ?thesis by (blast intro: tcp_step_inv tcp_step.spin)
next
  case (handshake ip port fd ret topic)
  then obtain t where "TCPServer_map_client ret topic (addr_token ip port) fd s = Inr t" "same_watch s' t"
    using map_client_kq_same [of ret topic "addr_token ip port" fd s] by (auto elim: rel_sum.cases)
  with assms(1) handshake(1) show ?thesis by (blast intro: srv_wf_same_watch srv_wf_map_client)
next
  case (subscribe topic url cb)
  with assms(1) show ?thesis by (rule srv_wf_subscribe)
qed

interpretation tcp_kq: invariant_system tcp_start_kq "tcp_step_kq pbs" srv_wf for pbs
  by unfold_locales (auto intro: srv_wf_start_kq tcp_step_kq_inv)

section \<open>The timer\<close>

text \<open>
  \<open>Rate\<close> on kqueue.  The period is converted to \<^verbatim>\<open>int\<close>, which is undefined for a value that does not fit.  The call
  that registers the timer also waits for an event: \<open>nev\<close> is its answer.
\<close>

record Rate_kq =
  rk_kq :: int
  rk_timeout :: "int \<times> int"

definition Rate_new_kq :: "int \<Rightarrow> int \<Rightarrow> int \<Rightarrow> Rate_kq \<Rightarrow> (Rate_kq \<times> int list) result" where
  "Rate_new_kq kqueue_fd ns nev garbage =
     (let r = garbage\<lparr>rk_kq := kqueue_fd\<rparr> in
      if rk_kq r = - 1 then Inr (r, [])
      else if ns < - (2 ^ 31) \<or> 2 ^ 31 \<le> ns then Inl Bad_Conversion
      else let r' = r\<lparr>rk_timeout := (0, 0)\<rparr>
           in if nev = - 1 then Inr (r', [rk_kq r']) else Inr (r', []))"

definition Rate_sleep_kq :: "int \<Rightarrow> bool" where
  "Rate_sleep_kq nev = (if nev = - 1 then False else nev = 1)"

fun Rate_vtask_loop_kq :: "int list \<Rightarrow> 'f list \<Rightarrow> (bool \<times> 'f list) option" where
  "Rate_vtask_loop_kq [] funcs = None"
| "Rate_vtask_loop_kq (nev # nevs) [] = Some (Rate_sleep_kq nev, [])"
| "Rate_vtask_loop_kq (nev # nevs) (func # funcs) =
     (if nev = 0 then map_option (\<lambda>(b, run). (b, func # run)) (Rate_vtask_loop_kq nevs funcs)
      else if nev = - 1 then Some (False, [])
      else Some (nev = 1, []))"

definition Rate_delete_kq :: "Rate_kq \<Rightarrow> int list" where
  "Rate_delete_kq r = [rk_kq r]"

text \<open>
  What \<^verbatim>\<open>kevent\<close> answers: however many periods have ended since it last reported the timer, there is one
  event; without a time-out it waits for it.
\<close>

definition poll_kq :: "nat \<Rightarrow> nat \<Rightarrow> nat \<Rightarrow> int" where
  "poll_kq p t0 t = (if expirations p t0 t = 0 then 0 else 1)"

fun period_answers_kq :: "nat \<Rightarrow> nat \<Rightarrow> nat \<Rightarrow> nat list \<Rightarrow> int list" where
  "period_answers_kq p t0 t [] = [1]"
| "period_answers_kq p t0 t (d # ds) = poll_kq p t0 t # period_answers_kq p t0 (t + d) ds"

text \<open>An event of kqueue on a connection, for the examples.\<close>

definition demo_kevent :: "nat \<Rightarrow> 32 word \<Rightarrow> bytes list \<Rightarrow> kevent" where
  "demo_kevent fd flags chunks = \<lparr>kv_ident = fd, kv_filter = EVFILT_READ, kv_flags = flags,
     kv_ans = ev_ans (demo_event fd Accept_EAGAIN chunks)\<rparr>"

text \<open>A server on kqueue with one connection and one subscriber, for the examples.\<close>

definition demo_start_kq :: "(bytes, nat) TCPServer" where
  "demo_start_kq = snd (init_tcp_srv_kq demo_answers (TCPServer_new_kq 5 0 ''10.0.0.2'' 0))"

definition demo_conn_kq :: "(bytes, nat) TCPServer" where
  "demo_conn_kq =
     \<lparr>sock_epoll_fd = 5, sock_interest = [3 \<mapsto> EVFILT_READ, 7 \<mapsto> EVFILT_READ], sock_closed = [],
      srv_decoders = [''chat'' \<mapsto> \<lparr>dec_msgs = [], dec_functions = [0]\<rparr>],
      srv_addr_to_topic = [addr_token (dotted (10, 0, 0, 1)) 5000 \<mapsto> ''chat''],
      srv_fd_to_addr = (replicate 100 [])[7 := addr_token (dotted (10, 0, 0, 1)) 5000],
      srv_fd_receive_data = replicate 100 [], srv_unmapped_addr_to_fd = Map.empty, srv_fd = 3,
      srv_ip = ''10.0.0.2'', srv_port = 4000, srv_buf_size = 8192\<rparr>"

lemmas setup_kq_defs = demo_answers_def init_tcp_srv_kq_def TCPServer_new_kq_def Socket_create_socket_def
  Socket_set_nonblock_def TCPServer_bind_socket_def TCPServer_listen_socket_def TCPServer_get_socket_info_def
  Socket_add_kqueue_event_def Socket_init_kqueue_def

lemma demo_start_kq_eq: "demo_start_kq = demo_start\<lparr>sock_interest := [3 \<mapsto> EVFILT_READ]\<rparr>"
  by (simp add: demo_start_kq_def demo_start_eq setup_kq_defs vec_resize_def)

lemma tcp_start_demo_kq: "tcp_start_kq demo_start_kq"
proof -
  have "fst (init_tcp_srv_kq demo_answers (TCPServer_new_kq 5 0 ''10.0.0.2'' 0 :: (bytes, nat) TCPServer)) = 4000"
    by (simp add: setup_kq_defs)
  then show ?thesis unfolding tcp_start_kq_def demo_start_kq_def by (metis prod.collapse zero_le_numeral)
qed

lemma demo_conn_kq_reachable: "(tcp_step_kq (\<lambda>t. example_pb))\<^sup>*\<^sup>* demo_start_kq demo_conn_kq"
proof -
  let ?tok = "addr_token (dotted (10, 0, 0, 1)) 5000"
  let ?k = "\<lparr>kv_ident = 3, kv_filter = EVFILT_READ, kv_flags = 0, kv_ans = ev_ans (demo_event 3 (Accepted 7 (10, 0, 0, 1) 5000) [])\<rparr>"
  let ?s1 = "register_conn 7 ?tok demo_start_kq"
  let ?s2 = "?s1\<lparr>sock_interest := [3 \<mapsto> EVFILT_READ, 7 \<mapsto> EVFILT_READ], srv_addr_to_topic := [?tok \<mapsto> ''chat''],
      srv_fd_receive_data := replicate 100 [], srv_unmapped_addr_to_fd := Map.empty\<rparr>"
  have "event_handler_kq (\<lambda>t. example_pb) (Kevent_Events [?k]) demo_start_kq = Inr (0, ?s1, [])"
    by (simp add: event_handler_kq_def demo_start_kq_eq demo_start_eq TCPServer_accept_new_client_def demo_event_def
        Socket_set_nonblock_def inet_ntop_def string_of_cstr_def vec_set_def register_conn_def Let_def)
  moreover have "events_ok (\<lambda>t. example_pb) (as_epoll (srv_fd demo_start_kq) [?k]) demo_start_kq"
    by (auto simp: demo_start_kq_eq demo_start_eq event_ok_def demo_event_def accept_fresh_def split: sum.splits)
  ultimately have "tcp_step_kq (\<lambda>t. example_pb) demo_start_kq ?s1" by (intro tcp_step_kq.spin [where ks = "[?k]"]) simp_all
  moreover have "tcp_step_kq (\<lambda>t. example_pb) ?s1 ?s2"
    by (rule tcp_step_kq.handshake [where ip = "dotted (10, 0, 0, 1)" and port = 5000 and fd = 7 and ret = 0 and topic = "''chat''"])
      (simp_all add: map_client_kq_def register_conn_def demo_start_kq_eq demo_start_eq Socket_add_kqueue_event_def vec_resize_def vec_set_def
        list_update_same_conv)
  moreover have "tcp_step_kq (\<lambda>t. example_pb) ?s2 demo_conn_kq"
    by (rule tcp_step_kq.subscribe [where topic = "''chat''" and url = "get_typeurl example_pb" and cb = 0])
      (simp add: subscribe_decoder_def demo_conn_kq_def register_conn_def demo_start_kq_eq demo_start_eq SpecifiedDecoder_add_callback_def)
  ultimately show ?thesis by (meson converse_rtranclp_into_rtranclp rtranclp.rtrancl_refl)
qed

section \<open>Properties\<close>

text \<open>
  The two branches of the event handler agree.  On events that report the same descriptors ready for
  reading, and the same answers of the system calls, \<^verbatim>\<open>event_handler\<close> on kqueue does what it does on epoll: the same
  return value, state and calls, and the same failure.  They differ on an error of a connection: kqueue's
  branch handles the events before it, closes the connection and returns -1 without looking at
  the events behind it.
\<close>

lemma kqueue_same_as_epoll:
  assumes "list_all2 matches ks es"
  shows "event_handler_kq pbs (Kevent_Events ks) s = TCPServer_event_handler pbs (Epoll_Events es) s \<and>
    (\<forall>k rest. kv_flags k AND EV_ERROR \<noteq> 0 \<and> int (kv_ident k) \<noteq> srv_fd s \<longrightarrow>
       event_handler_kq pbs (Kevent_Events (ks @ k # rest)) s =
         bind_result (event_loop pbs es 0 s) (\<lambda>(ret, s1, log).
           bind_result (TCPServer_close_and_delete_event (ans_ctl (kv_ans k)) (kv_ident k) s1) (\<lambda>s2. Inr (- 1, s2, log))))"
proof (intro conjI allI impI)
  have "ks = [] \<longleftrightarrow> es = []" using assms by auto
  then show "event_handler_kq pbs (Kevent_Events ks) s = TCPServer_event_handler pbs (Epoll_Events es) s"
    using event_loop_kq_eq [OF assms, of pbs 0 s] by (simp add: event_handler_kq_def TCPServer_event_handler_def)
qed (simp add: event_handler_kq_def event_loop_kq_error [OF assms])

text \<open>
  C20: delivery on kqueue.  In every state that a server on kqueue can reach, any number of rounds of its event
  handler does what the Linux branch does on the events of epoll that stand for those of kqueue, with
  the same calls and the same final state; and whatever way the network cuts a connection's bytes into
  chunks, the subscribers of its topic are called with exactly the messages whose frames the stream
  completes, in order.  The rounds may report errors of other connections.
\<close>

theorem kqueue_stream_delivered:
  assumes "tcp_start_kq s0" and "(tcp_step_kq pbs)\<^sup>*\<^sup>* s0 s" and "\<forall>ks\<in>set kss. \<forall>k\<in>set ks. kv_filter k = EVFILT_READ"
    and "rounds_ok pbs (map (as_epoll (srv_fd s)) kss) s" and "spin_rounds_kq pbs (map Kevent_Events kss) s = Inr (s', log)"
    and "conn_view s x = Some (t, b)" and "subscribers s t = Some fs" and "protobuf_laws (pbs t)"
    and "\<forall>es\<in>set (map (as_epoll (srv_fd s)) kss). \<forall>e\<in>set es. quiet x e" and "deframe (pbs t) b = Some ([], b)"
    and "deframe (pbs t) (b @ concat (map (stream_of x) (map (as_epoll (srv_fd s)) kss))) = Some (ms, r)"
    and "rounds_fit (pbs t) b (map (stream_of x) (map (as_epoll (srv_fd s)) kss))"
  shows "srv_wf s' \<and> spin_rounds pbs (map Epoll_Events (map (as_epoll (srv_fd s)) kss)) s = Inr (s', log) \<and>
    conn_view s' x = Some (t, r) \<and> calls_of x log = deliver fs ms"
  using spin_rounds_stream [OF tcp_kq.reachable_inv [OF assms(1,2)] assms(4) spin_rounds_as_epoll [OF assms(3,5)] assms(6-12)]
    spin_rounds_as_epoll [OF assms(3,5)] by blast

theorem kqueue_stream_delivered_witness:
  "\<exists>s' log. spin_rounds_kq (\<lambda>t. example_pb) [Kevent_Events [demo_kevent 7 0 [[2, 0], [0, 0, 1, 7, 9, 0]]]] demo_conn_kq = Inr (s', log) \<and>
     conn_view s' 7 = Some (''chat'', [9, 0]) \<and> calls_of 7 log = [(0, [7])]"
proof -
  let ?pbs = "\<lambda>t :: string. example_pb"
  let ?cs = "[[2, 0], [0, 0, 1, 7, 9, 0]]"
  let ?e = "demo_event 7 Accept_EAGAIN ?cs"
  have "serialize example_pb [7] @ [9, 0] = concat ?cs"
    by (simp add: serialize_eq [OF protobuf_laws_example]) (simp add: example_pb_def example_write_def)
  moreover have "pb_ByteSize example_pb m = Suc (length m)" for m by (simp add: example_pb_def)
  ultimately have data: "deframe example_pb (concat ?cs) = Some ([[7]], [9, 0])"
    using deframe_serialize_all [OF protobuf_laws_example, of "[[7]]" "[9, 0]"] by (simp add: deframe_short)
  have as: "map (as_epoll (srv_fd demo_conn_kq)) [[demo_kevent 7 0 ?cs]] = [[?e]]"
    by (simp add: demo_conn_kq_def demo_kevent_def demo_event_def)
  have conns: "conn_view demo_conn_kq 7 = Some (''chat'', [])" "subscribers demo_conn_kq ''chat'' = Some [0]"
    by (simp_all add: conn_view_def subscribers_def demo_conn_kq_def)
  have e: "ev_fd ?e = 7" "quiet 7 ?e" "stream_of 7 [?e] = concat ?cs"
    by (simp_all add: demo_event_def quiet_def epoll_masks)
  have nil: "deframe example_pb [] = Some ([], [])" by (simp add: deframe_short)
  have wf: "srv_wf demo_conn_kq" by (rule tcp_kq.reachable_inv [OF tcp_start_demo_kq demo_conn_kq_reachable])
  obtain s' where round: "event_round ?pbs ?e demo_conn_kq = Inr (False, s', map (Pair 7) (deliver [0] [[7]]))"
    using event_round_stream [where pbs = ?pbs, OF wf conns protobuf_laws_example e(1,2) nil, of "[[7]]" "[9, 0]"] data e(3) by auto
  have ok: "rounds_ok ?pbs [[?e]] demo_conn_kq"
    using round by (simp add: event_ok_def demo_event_def demo_conn_kq_def split: sum.splits prod.splits)
  have "list_all2 matches [demo_kevent 7 0 ?cs] [?e]" by (simp add: matches_def demo_kevent_def demo_event_def epoll_masks)
  from kqueue_same_as_epoll [OF this, of ?pbs demo_conn_kq]
  have spin: "spin_rounds_kq ?pbs (map Kevent_Events [[demo_kevent 7 0 ?cs]]) demo_conn_kq = Inr (s', map (Pair 7) (deliver [0] [[7]]))"
    by (simp add: TCPServer_event_handler_def round)
  have "conn_view s' 7 = Some (''chat'', [9, 0]) \<and> calls_of 7 (map (Pair 7) (deliver [0 :: nat] [[7 :: byte]])) = deliver [0] [[7]]"
    using kqueue_stream_delivered [OF tcp_start_demo_kq demo_conn_kq_reachable _ _ spin conns, unfolded as, OF _ ok, of "[[7]]" "[9, 0]"]
      protobuf_laws_example e data nil by (simp add: demo_kevent_def split: option.splits)
  with spin show ?thesis by (simp add: deliver_def)
qed

text \<open>
  C38: the two branches of \<^verbatim>\<open>vtask_loop\<close> agree on the work and not on the verdict.  However long the tasks take, both run
  the same prefix of the tasks, in order and each once, and all of them if the period has not ended by
  then.  On Linux the loop returns true if and only if at most one period has ended since the last
  read; on kqueue it returns true also when periods were missed.
\<close>

theorem vtask_loop_branches:
  "\<exists>b run. Rate_vtask_loop (period_answers p t0 fd t ds) ds \<lparr>rt_timer_fd = fd, rt_interval_ns = ns, rt_epoll_fd = ep\<rparr> = Some (b, run) \<and>
     Rate_vtask_loop_kq (period_answers_kq p t0 t ds) ds = Some (True, run) \<and> prefix run ds \<and>
     (b \<longleftrightarrow> expirations p t0 (t + sum_list run) \<le> 1) \<and> (expirations p t0 (t + sum_list ds) = 0 \<longrightarrow> run = ds)"
proof (induction ds arbitrary: t)
  case Nil
  show ?case by (auto simp: await_timer_def Rate_sleep_def Rate_sleep_kq_def read_expirations_def max_def)
next
  case (Cons d ds)
  show ?case
  proof (cases "expirations p t0 t = 0")
    case True
    with Cons.IH [of "t + d"] show ?thesis by (auto simp: poll_timer_def poll_kq_def add.assoc)
  next
    case False
    have "t div p \<le> (t + sum_list (d # ds)) div p" by (intro div_le_mono) simp
    with False have "expirations p t0 (t + sum_list (d # ds)) \<noteq> 0" by (simp add: expirations_def)
    with False show ?thesis by (auto simp: poll_timer_def poll_kq_def read_expirations_def)
  qed
qed

theorem vtask_loop_branches_witness:
  "Rate_vtask_loop (period_answers 10 0 7 2 [3, 4]) [3, 4] \<lparr>rt_timer_fd = 7, rt_interval_ns = 10, rt_epoll_fd = 8\<rparr> = Some (True, [3, 4]) \<and>
   Rate_vtask_loop_kq (period_answers_kq 10 0 2 [3, 4]) [3, 4] = Some (True, [3, 4]) \<and>
   Rate_vtask_loop (period_answers 10 0 7 2 [29, 4]) [29, 4] \<lparr>rt_timer_fd = 7, rt_interval_ns = 10, rt_epoll_fd = 8\<rparr> = Some (False, [29]) \<and>
   Rate_vtask_loop_kq (period_answers_kq 10 0 2 [29, 4]) [29, 4] = Some (True, [29])"
  using vtask_loop_branches [of 10 0 7 2 "[3, 4]" 10 8] vtask_loop_branches [of 10 0 7 2 "[29, 4]" 10 8]
  by (simp add: poll_timer_def await_timer_def expirations_def read_expirations_def Rate_sleep_def poll_kq_def Rate_sleep_kq_def)

end
