(* ===== verification/Node_System.thy ===== *)
theory Node_System
  imports Node_Handler
begin

text \<open>
  The registrar and a node together: the node's registration thread reads the replies that the registrar's
  \<^verbatim>\<open>Regist\<close> call for it sends, while other nodes come and go and the application uses the node.
\<close>

section \<open>The registrar and a node\<close>

text \<open>The reply that a round of \<^verbatim>\<open>Regist\<close> sends, if it sends one, and the round on both ends.\<close>

definition session_reply :: "session \<Rightarrow> RegistrationReply option result" where
  "session_reply s =
     (let cversion = int (reg_version (ses_reg s)) - 1 in
      if int (ses_kept s) + 1 \<le> cversion
      then bind_result (Registrar_list (ses_kept s + 1) cversion (ses_reg s)) (\<lambda>reply. Inr (Some reply))
      else Inr None)"

definition node_poll :: "session \<times> ('b, 'c) NodeHandler \<Rightarrow> (session \<times> ('b, 'c) NodeHandler) result" where
  "node_poll sn =
     (case sn of (s, nh) \<Rightarrow>
        bind_result (session_reply s) (\<lambda>rep. bind_result (session_poll s) (\<lambda>t.
          Inr (t, case rep of None \<Rightarrow> nh | Some reply \<Rightarrow> NodeRegist_reply reply nh))))"

inductive discovery_start :: "session \<times> ('b, 'c) NodeHandler \<Rightarrow> bool" where
  "history r \<Longrightarrow> node_start nh \<Longrightarrow> NodeRegist_request local_ip nh = info \<Longrightarrow> \<not> Registrar_find_exist_node (ni_name info) r \<Longrightarrow>
   session_open (ni_name info) (ni_ip info) (ni_port info) r = Inr s \<Longrightarrow>
   Registrar_list 0 (int (ses_own s) - 1) (ses_reg s) = Inr reply \<Longrightarrow>
     discovery_start (s, NodeRegist_reply reply nh)"

inductive discovery_step :: "session \<times> ('b, 'c) NodeHandler \<Rightarrow> session \<times> ('b, 'c) NodeHandler \<Rightarrow> bool" where
  others: "session_step s t \<Longrightarrow> ses_kept t = ses_kept s \<Longrightarrow> ses_peers t = ses_peers s \<Longrightarrow> discovery_step (s, nh) (t, nh)"
| polled: "node_poll sn = Inr sn' \<Longrightarrow> discovery_step sn sn'"
| app: "app_step nh nh' \<Longrightarrow> discovery_step (s, nh) (s, nh')"

definition discovery_inv :: "session \<times> ('b, 'c) NodeHandler \<Rightarrow> bool" where
  "discovery_inv sn \<longleftrightarrow> session_inv (fst sn) \<and> node_inv (snd sn) \<and> connected_to (ses_peers (fst sn)) (snd sn)"

lemma session_poll_reply:
  "session_poll s =
     bind_result (session_reply s) (\<lambda>rep. Inr (case rep of None \<Rightarrow> s
       | Some reply \<Rightarrow> s\<lparr>ses_kept := nat (int (reg_version (ses_reg s)) - 1),
                        ses_peers := replay (rr_operation_cmd reply) (ses_peers s)\<rparr>))"
  by (simp add: session_poll_def session_reply_def Let_def bind_result_assoc)

lemma node_poll_Inr:
  assumes "node_poll (s, nh) = Inr sn"
  obtains (quiet) "session_poll s = Inr s" "sn = (s, nh)"
    | (told) reply t where "session_poll s = Inr t" "sn = (t, NodeRegist_reply reply nh)"
      "ses_peers t = replay (rr_operation_cmd reply) (ses_peers s)"
  using assms by (auto simp: node_poll_def session_poll_reply bind_result_Inr_iff split: option.splits)

text \<open>
  The system is a session on one side and a node on the other: both simulate it, and what couples them is that the
  node is connected to the peers that the session knows.
\<close>

lemma discovery_startE:
  assumes "discovery_start sn"
  obtains s fresh reply where "sn = (s, NodeRegist_reply reply fresh)" "session_start s" "node_start fresh"
    "ses_peers s = replay (rr_operation_cmd reply) Map.empty"
  using assms
proof cases
  case (1 r fresh local_ip info s reply)
  from 1(6,7) have "ses_peers s = replay (rr_operation_cmd reply) Map.empty"
    by (auto simp: session_open_def bind_result_Inr_iff split: prod.splits)
  with 1 that show thesis by (blast intro: session_start.intros)
qed

lemma discovery_stepE:
  assumes "discovery_step sn sn'"
  obtains (others) s t nh where "sn = (s, nh)" "sn' = (t, nh)" "session_step s t" "ses_peers t = ses_peers s"
    | (told) s nh t reply where "sn = (s, nh)" "sn' = (t, NodeRegist_reply reply nh)" "session_poll s = Inr t"
      "ses_peers t = replay (rr_operation_cmd reply) (ses_peers s)"
    | (app) s nh nh' where "sn = (s, nh)" "sn' = (s, nh')" "app_step nh nh'"
  using assms
proof cases
  case polled
  obtain s nh where sn: "sn = (s, nh)" by fastforce
  with polled have "node_poll (s, nh) = Inr sn'" by simp
  then show thesis
  proof (cases rule: node_poll_Inr)
    case quiet
    with sn others [of s nh s] show thesis by (auto intro: session_step.polled)
  next
    case (told reply t)
    with sn that(2) show thesis by blast
  qed
qed (use that in blast)+

interpretation discovery_session: simulation session_start session_step session_inv discovery_start discovery_step
  "\<lambda>sn s. fst sn = s"
proof (unfold_locales, goal_cases)
  case (1 sn)
  then show ?case by (auto elim!: discovery_startE)
next
  case (2 sn s sn')
  from 2(3,1) show ?case by (cases rule: discovery_stepE) (auto intro: session_step.polled)
qed

interpretation discovery_node: simulation node_start node_step node_inv discovery_start discovery_step
  "\<lambda>sn nh. snd sn = nh"
proof (unfold_locales, goal_cases)
  case (1 sn)
  then show ?case by (elim discovery_startE) (auto intro: node_step.reply r_into_rtranclp)
next
  case (2 sn nh sn')
  from 2(3,1) show ?case by (cases rule: discovery_stepE) (auto intro: node_step.intros)
qed

interpretation discovery_peers: invariant_system discovery_start discovery_step "\<lambda>sn. connected_to (ses_peers (fst sn)) (snd sn)"
proof (unfold_locales, goal_cases)
  case (1 sn)
  then show ?case
  proof (cases rule: discovery_startE)
    case (1 s fresh reply)
    from 1(3) have "connected_to Map.empty fresh"
      by (auto simp: node_start_def NodeHandler_new_def connected_to_def NodeConnectionClientClub_new_def ParamRPCClientClub_new_def)
    with 1 show ?thesis by (simp add: connected_to_reply)
  qed
next
  case (2 sn sn')
  from 2(2,1) show ?case by (cases rule: discovery_stepE) (auto simp: connected_to_reply connected_to_app)
qed

lemma discovery_reachable:
  assumes "discovery_start sn" and "discovery_step\<^sup>*\<^sup>* sn sn'"
  shows "discovery_inv sn'"
  using discovery_session.impl.reachable_inv [OF assms] discovery_node.impl.reachable_inv [OF assms]
    discovery_peers.reachable_inv [OF assms] by (simp add: discovery_inv_def)

lemma discovery_polled:
  assumes "discovery_inv sn" and "node_poll sn = Inr sn'"
  shows "discovery_inv sn'"
  using discovery_session.impl.step_inv [OF _ discovery_step.polled [OF assms(2)]]
    discovery_node.impl.step_inv [OF _ discovery_step.polled [OF assms(2)]]
    discovery_peers.step_inv [OF _ discovery_step.polled [OF assms(2)]] assms(1)
  by (simp add: discovery_inv_def)

lemma node_poll_alive:
  assumes "discovery_inv (s, nh)"
  shows "\<exists>t nh'. node_poll (s, nh) = Inr (t, nh') \<and> discovery_inv (t, nh') \<and>
    connected_to (alive_peers (ses_reg s) (ses_own s)) nh'"
proof -
  obtain t where t: "session_poll s = Inr t" "ses_peers t = alive_peers (ses_reg s) (ses_own s)"
    using session_poll_alive assms by (auto simp: discovery_inv_def)
  then obtain rep where "session_reply s = Inr rep" by (auto simp: session_poll_reply bind_result_Inr_iff)
  with t obtain nh' where poll: "node_poll (s, nh) = Inr (t, nh')" by (simp add: node_poll_def)
  with discovery_polled [OF assms poll] t(2) show ?thesis by (auto simp: discovery_inv_def)
qed

lemma node_inv_asked:
  assumes "node_inv nh" and "nclub_clients (nh_connection_clients nh) peer = Some (addr, c)"
    and "nh_topics nh (CHR ''s'' # topic) = Some url"
  shows "\<lparr>rq_object = topic, rq_ip = nh_rpc_ip nh, rq_port = nh_tcp_port nh, rq_url = url, rq_node = nh_name nh\<rparr> \<in> set (topic_calls c)"
proof -
  obtain rq where rq: "rq \<in> set (nclub_topic_requests (nh_connection_clients nh))" "rq_object rq = topic" "rq_url rq = url"
    using assms(1,3) unfolding node_inv_def by blast
  then have "rq = \<lparr>rq_object = topic, rq_ip = nh_rpc_ip nh, rq_port = nh_tcp_port nh, rq_url = url, rq_node = nh_name nh\<rparr>"
    using assms(1) by (auto simp: node_inv_def own_request_def)
  with rq(1) show ?thesis using assms(1,2) by (auto simp: node_inv_def nclub_inv_def)
qed

text \<open>After a round of the registrar's call, every registered node has been asked for every topic that the node wants.\<close>

lemma node_poll_asks:
  assumes "discovery_inv (s, nh)" and "alive_peers (ses_reg s) (ses_own s) peer = Some (ip, port)"
    and "nh_topics nh (CHR ''s'' # topic) = Some url"
  shows "\<exists>t nh' c. node_poll (s, nh) = Inr (t, nh') \<and>
    nclub_clients (nh_connection_clients nh') peer = Some (addr_token ip port, c) \<and>
    \<lparr>rq_object = topic, rq_ip = nh_rpc_ip nh, rq_port = nh_tcp_port nh, rq_url = url, rq_node = nh_name nh\<rparr> \<in> set (topic_calls c)"
proof -
  from node_poll_alive [OF assms(1)] obtain t nh' where poll: "node_poll (s, nh) = Inr (t, nh')" and inv: "discovery_inv (t, nh')"
    and conn: "connected_to (alive_peers (ses_reg s) (ses_own s)) nh'" by blast
  obtain c where c: "nclub_clients (nh_connection_clients nh') peer = Some (addr_token ip port, c)"
    using spec [OF conn [unfolded connected_to_def], of peer] assms(2) by auto
  have same: "nh_rpc_ip nh' = nh_rpc_ip nh" "nh_tcp_port nh' = nh_tcp_port nh" "nh_name nh' = nh_name nh" "nh_topics nh' = nh_topics nh"
    using poll by (auto simp: node_poll_def bind_result_Inr_iff split: option.splits)
  have "node_inv nh'" using inv by (simp add: discovery_inv_def)
  from node_inv_asked [OF this c, of topic url] assms(3) poll c show ?thesis by (simp add: same)
qed

end
