(* ===== verification/Transform_Network.thy ===== *)
theory Transform_Network
  imports Transform_Tree Node_Handler "HOL-Library.Multiset"
begin

text \<open>
  Static transforms in a network of nodes (\<^verbatim>\<open>TransformListener\<close> and the functions of \<^verbatim>\<open>NodeHandler\<close> that create
  listeners and broadcasters, at the end of \<^verbatim>\<open>cpp/src/TransformTree.cpp\<close>).

  Every node with a listener publishes the static transforms that it receives again, so that nodes which
  connect later get them from any listener.  Nothing but the cache of the publisher keeps two listeners
  from sending a transform back and forth.  A node is its tree and its publishing end; \<open>net_flight\<close> holds
  the frames that are on their way to a node.
\<close>

section \<open>Listeners and broadcasters of a node\<close>

datatype tf_callback = Tf_Callback | Static_Tf_Callback

definition TransformListener_new ::
    "(string \<Rightarrow> 'm protobuf) \<Rightarrow> string \<Rightarrow> ('b, 'c) NodeHandler \<Rightarrow> ('m, tf_callback) TCPServer \<Rightarrow>
       (('b, 'c) NodeHandler \<times> ('m, tf_callback) TCPServer) result" where
  "TransformListener_new pbs url nh srv =
     bind_result (NodeHandler_subscribe_impl pbs url ''/tf'' Tf_Callback nh srv) (\<lambda>(nh1, srv1).
       NodeHandler_subscribe_impl pbs url ''/tf_static'' Static_Tf_Callback nh1 srv1)"

text \<open>The pointers \<^verbatim>\<open>tf_pub\<close> and \<^verbatim>\<open>static_tf_pub\<close> of a node, null or not.\<close>

record tf_publishers =
  has_tf_pub :: bool
  has_static_tf_pub :: bool

definition NodeHandler_tfBroadcaster ::
    "string \<Rightarrow> tf_publishers \<Rightarrow> ('b, 'c) NodeHandler \<Rightarrow> tf_publishers \<times> ('b, 'c) NodeHandler" where
  "NodeHandler_tfBroadcaster url p nh =
     (if \<not> has_tf_pub p then (p\<lparr>has_tf_pub := True\<rparr>, NodeHandler_advertise url ''/tf'' nh) else (p, nh))"

definition NodeHandler_tfStaticBroadcaster ::
    "string \<Rightarrow> tf_publishers \<Rightarrow> ('b, 'c) NodeHandler \<Rightarrow> tf_publishers \<times> ('b, 'c) NodeHandler" where
  "NodeHandler_tfStaticBroadcaster url p nh =
     (if \<not> has_static_tf_pub p then (p\<lparr>has_static_tf_pub := True\<rparr>, NodeHandler_advertise url ''/tf_static'' nh) else (p, nh))"

definition NodeHandler_tfListener ::
    "(string \<Rightarrow> 'm protobuf) \<Rightarrow> string \<Rightarrow> tf_publishers \<Rightarrow> ('b, 'c) NodeHandler \<Rightarrow> ('m, tf_callback) TCPServer \<Rightarrow>
       (tf_publishers \<times> ('b, 'c) NodeHandler \<times> ('m, tf_callback) TCPServer) result" where
  "NodeHandler_tfListener pbs url p nh srv =
     (let (p1, nh1) = NodeHandler_tfStaticBroadcaster url p nh in
      bind_result (TransformListener_new pbs url nh1 srv) (\<lambda>(nh2, srv2). Inr (p1, nh2, srv2)))"

text \<open>
  A node with a listener publishes static transforms and has both callbacks; what it does to the node is
  a sequence of advertisements and subscriptions.
\<close>

lemma tfListener_runs:
  assumes "NodeHandler_tfListener pbs url p nh srv = Inr (p', nh', srv')"
  shows "app_step\<^sup>*\<^sup>* nh nh'" and "has_static_tf_pub p'"
proof -
  let ?nh1 = "snd (NodeHandler_tfStaticBroadcaster url p nh)"
  have "nh' = subscribe_node url ''/tf_static'' (subscribe_node url ''/tf'' ?nh1)"
    and pub: "p' = fst (NodeHandler_tfStaticBroadcaster url p nh)"
    using assms by (auto simp: NodeHandler_tfListener_def TransformListener_new_def NodeHandler_subscribe_impl_def
        bind_result_Inr_iff case_prod_beta)
  moreover have "app_step\<^sup>*\<^sup>* nh ?nh1"
    by (auto simp: NodeHandler_tfStaticBroadcaster_def intro: app_step.advertise)
  ultimately show "app_step\<^sup>*\<^sup>* nh nh'"
    by (auto intro: rtranclp.rtrancl_into_rtrancl app_step.subscribe)
  show "has_static_tf_pub p'" by (simp add: pub NodeHandler_tfStaticBroadcaster_def)
qed

section \<open>The network\<close>

record 'd listener =
  li_tree :: "'d TransformTree"
  li_client :: TCPClient
  li_received :: "'d TransformD list"    \<comment> \<open>what \<open>static_tf_call_back\<close> was called with\<close>
  li_sent :: "'d TransformD list"        \<comment> \<open>what the application has sent with \<open>sendTransform\<close>\<close>

abbreviation static_cache :: "'d listener \<Rightarrow> bytes set" where
  "static_cache l \<equiv> cli_static_topic_cache (li_client l) ''/tf_static''"

definition listener_new :: "'d listener" where
  "listener_new = \<lparr>li_tree = TransformTree_new, li_client = TCPClient_new 0, li_received = [], li_sent = []\<rparr>"

text \<open>\<^verbatim>\<open>publish\<close> on \<^verbatim>\<open>/tf_static\<close>: with \<^verbatim>\<open>cache\<close>, a frame that is already cached is not sent.\<close>

definition publish_static :: "'d TransformD protobuf \<Rightarrow> 'd TransformD \<times> bool \<Rightarrow> TCPClient \<Rightarrow> bool \<times> TCPClient" where
  "publish_static pb m c =
     (case m of (tf, cache) \<Rightarrow>
        if cache then TCPClient_write_to_cache ''/tf_static'' (serialize pb tf) c else (True, c))"

definition listener_receive :: "'d TransformD protobuf \<Rightarrow> 'd TransformD \<Rightarrow> 'd listener \<Rightarrow> bool \<times> 'd listener" where
  "listener_receive pb tf l =
     (let (t, m) = TransformListener_static_tf_call_back tf (li_tree l);
          (forward, c) = publish_static pb m (li_client l)
      in (forward, l\<lparr>li_tree := t, li_client := c, li_received := li_received l @ [tf]\<rparr>))"

definition listener_send :: "'d TransformD protobuf \<Rightarrow> 'd TransformD \<Rightarrow> 'd listener \<Rightarrow> bool \<times> 'd listener" where
  "listener_send pb tf l =
     (let (forward, c) = publish_static pb (StaticTransformBroadcaster_sendTransform tf) (li_client l)
      in (forward, l\<lparr>li_client := c, li_sent := li_sent l @ [tf]\<rparr>))"

text \<open>\<open>net_links\<close>: the nodes at the other ends of the connections for \<^verbatim>\<open>/tf_static\<close> on which a node publishes.\<close>

record 'd tf_net =
  net_nodes :: "'d listener list"
  net_links :: "nat \<Rightarrow> nat list"
  net_flight :: "(nat \<times> bytes) multiset"

definition to_links :: "'d tf_net \<Rightarrow> nat \<Rightarrow> bool \<Rightarrow> bytes \<Rightarrow> (nat \<times> bytes) multiset" where
  "to_links net i forward f = (if forward then mset (map (\<lambda>k. (k, f)) (net_links net i)) else {#})"

inductive deliver_step :: "'d TransformD protobuf \<Rightarrow> 'd tf_net \<Rightarrow> 'd tf_net \<Rightarrow> bool" for pb where
  deliver: "(k, serialize pb tf) \<in># net_flight net \<Longrightarrow> k < length (net_nodes net) \<Longrightarrow>
    listener_receive pb tf (net_nodes net ! k) = (forward, l) \<Longrightarrow>
    deliver_step pb net (net\<lparr>net_nodes := (net_nodes net)[k := l],
      net_flight := net_flight net - {#(k, serialize pb tf)#} + to_links net k forward (serialize pb tf)\<rparr>)"

inductive flood_step :: "'d TransformD protobuf \<Rightarrow> 'd tf_net \<Rightarrow> 'd tf_net \<Rightarrow> bool" for pb where
  receive: "deliver_step pb net net' \<Longrightarrow> flood_step pb net net'"
| send: "i < length (net_nodes net) \<Longrightarrow> listener_send pb tf (net_nodes net ! i) = (forward, l) \<Longrightarrow>
    flood_step pb net (net\<lparr>net_nodes := (net_nodes net)[i := l],
      net_flight := net_flight net + to_links net i forward (serialize pb tf)\<rparr>)"
| connect: "i < length (net_nodes net) \<Longrightarrow> k < length (net_nodes net) \<Longrightarrow> set fs = static_cache (net_nodes net ! i) \<Longrightarrow>
    flood_step pb net (net\<lparr>net_links := (net_links net)(i := net_links net i @ [k]),
      net_flight := net_flight net + mset (map (Pair k) fs)\<rparr>)"

definition net_start :: "'d tf_net \<Rightarrow> bool" where
  "net_start net \<longleftrightarrow> (\<exists>n. net_nodes net = replicate n listener_new) \<and> net_links net = (\<lambda>i. []) \<and> net_flight net = {#}"

text \<open>
  \<open>publish_static\<close> is what \<^verbatim>\<open>publish\<close> does before it writes to the sockets, and whether it writes to them.  In
  the network, a frame that is written is on its way to all connections of the topic: no socket fails
  and no backlog exceeds its limit.  A new connection takes the cache over in one step.
\<close>

lemma Publisher_publish_static:
  "Publisher_publish pb e ans order ''/tf_static'' tf cache c =
     (case publish_static pb (tf, cache) c of
        (True, c') \<Rightarrow> TCPClient_write_to_socket e ans order ''/tf_static'' (serialize pb tf) c'
      | (False, c') \<Rightarrow> Some (Inr (e, c', [])))"
  by (auto simp: Publisher_publish_def publish_static_def Let_def split: prod.split bool.split)

section \<open>What is on its way arrives\<close>

definition frames_of :: "'d TransformD protobuf \<Rightarrow> 'd listener \<Rightarrow> bytes set" where
  "frames_of pb l = serialize pb ` (set (li_received l) \<union> set (li_sent l))"

definition static_listener_ok :: "'d TransformD protobuf \<Rightarrow> 'd listener \<Rightarrow> bool" where
  "static_listener_ok pb l \<longleftrightarrow> static_cache l = frames_of pb l \<and>
     li_tree l = fold (\<lambda>tf. TransformTree_addTransformNode tf True) (li_received l) TransformTree_new"

definition flood_inv :: "'d TransformD protobuf \<Rightarrow> 'd tf_net \<Rightarrow> bool" where
  "flood_inv pb net \<longleftrightarrow>
     (\<forall>i. set (net_links net i) \<subseteq> {..<length (net_nodes net)}) \<and>
     (\<forall>(k, f)\<in>set_mset (net_flight net). k < length (net_nodes net) \<and> f \<in> range (serialize pb)) \<and>
     (\<forall>l\<in>set (net_nodes net). static_listener_ok pb l) \<and>
     (\<forall>i < length (net_nodes net). \<forall>k\<in>set (net_links net i). \<forall>f\<in>static_cache (net_nodes net ! i).
        f \<in> static_cache (net_nodes net ! k) \<or> (k, f) \<in># net_flight net)"

lemma listener_receive_ok:
  assumes "listener_receive pb tf l = (forward, l')"
  shows "forward \<longleftrightarrow> serialize pb tf \<notin> static_cache l" and "static_cache l' = insert (serialize pb tf) (static_cache l)"
    and "static_listener_ok pb l \<Longrightarrow> static_listener_ok pb l'" and "li_sent l' = li_sent l"
  using assms
  by (auto simp: listener_receive_def TransformListener_static_tf_call_back_def publish_static_def
      TCPClient_write_to_cache_def static_listener_ok_def frames_of_def)

lemma listener_send_ok:
  assumes "listener_send pb tf l = (forward, l')"
  shows "forward \<longleftrightarrow> serialize pb tf \<notin> static_cache l" and "static_cache l' = insert (serialize pb tf) (static_cache l)"
    and "static_listener_ok pb l \<Longrightarrow> static_listener_ok pb l'"
  using assms
  by (auto simp: listener_send_def StaticTransformBroadcaster_sendTransform_def publish_static_def
      TCPClient_write_to_cache_def static_listener_ok_def frames_of_def)

lemma in_to_links: "(k, g) \<in># to_links net i forward f \<longleftrightarrow> forward \<and> g = f \<and> k \<in> set (net_links net i)"
  by (auto simp: to_links_def)

text \<open>
  A node \<open>i\<close> takes a frame \<open>f\<close> into its cache and sends it to its links if it is new; frames to \<open>i\<close> other
  than \<open>f\<close>, and all frames to other nodes, stay on their way.
\<close>

lemma flood_inv_take:
  assumes "flood_inv pb net" and "i < length (net_nodes net)" and "f \<in> range (serialize pb)"
    and "static_listener_ok pb l" and "static_cache l = insert f (static_cache (net_nodes net ! i))"
    and "forward \<longleftrightarrow> f \<notin> static_cache (net_nodes net ! i)"
    and "set_mset fl \<subseteq> set_mset (net_flight net)" and "set_mset (net_flight net) \<subseteq> insert (i, f) (set_mset fl)"
  shows "flood_inv pb (net\<lparr>net_nodes := (net_nodes net)[i := l], net_flight := fl + to_links net i forward f\<rparr>)"
proof -
  let ?ns = "(net_nodes net)[i := l]"
  have links: "set (net_links net j) \<subseteq> {..<length (net_nodes net)}" for j using assms(1) by (simp add: flood_inv_def)
  have grow: "static_cache (net_nodes net ! k) \<subseteq> static_cache (?ns ! k)" for k
    using assms(2,5) by (cases "k = i") auto
  have "f' \<in> static_cache (?ns ! k) \<or> (k, f') \<in># fl + to_links net i forward f"
    if j: "j < length (net_nodes net)" "k \<in> set (net_links net j)" "f' \<in> static_cache (?ns ! j)" for j k f'
  proof (cases "f' \<in> static_cache (net_nodes net ! j)")
    case True
    then have "f' \<in> static_cache (net_nodes net ! k) \<or> (k, f') \<in># net_flight net"
      using assms(1) j by (simp add: flood_inv_def)
    then consider "f' \<in> static_cache (net_nodes net ! k)" | "(k, f') \<in># fl" | "k = i" "f' = f"
      using assms(8) by auto
    then show ?thesis using grow assms(2,5) by cases auto
  next
    case False
    with j(3) assms(2,5) have "j = i" "f' = f" by (auto simp: nth_list_update split: if_splits)
    with False assms(6) j(2) show ?thesis by (simp add: in_to_links)
  qed
  moreover have "\<forall>x\<in>set ?ns. static_listener_ok pb x"
  proof
    fix x
    assume "x \<in> set ?ns"
    then have "x = l \<or> x \<in> set (net_nodes net)" using set_update_subset_insert [of "net_nodes net" i l] by blast
    then show "static_listener_ok pb x" using assms(1,4) by (auto simp: flood_inv_def)
  qed
  moreover have "k < length (net_nodes net) \<and> g \<in> range (serialize pb)" if "(k, g) \<in># fl + to_links net i forward f" for k g
  proof (cases "(k, g) \<in># fl")
    case True
    with assms(7) have "(k, g) \<in># net_flight net" by blast
    with assms(1) show ?thesis by (auto simp: flood_inv_def)
  next
    case False
    with that have "g = f" "k \<in> set (net_links net i)" by (simp_all add: in_to_links)
    with assms(3) links [of i] show ?thesis by blast
  qed
  moreover from this have "\<forall>(k, g)\<in>set_mset (fl + to_links net i forward f). k < length (net_nodes net) \<and> g \<in> range (serialize pb)"
    by blast
  ultimately show ?thesis using links unfolding flood_inv_def by simp
qed

lemma flood_inv_deliver:
  assumes "flood_inv pb net" and "deliver_step pb net net'"
  shows "flood_inv pb net'"
  using assms(2)
proof cases
  case (deliver k tf forward l)
  have "static_listener_ok pb (net_nodes net ! k)" using assms(1) deliver(3) by (simp add: flood_inv_def)
  then show ?thesis unfolding deliver(1)
    by (intro flood_inv_take assms(1) deliver(3) listener_receive_ok [OF deliver(4)])
      (auto dest: in_diffD simp: in_diff_count split: if_splits)
qed

lemma flood_inv_connect:
  assumes "flood_inv pb net" and "i < length (net_nodes net)" and "k < length (net_nodes net)"
    and "set fs = static_cache (net_nodes net ! i)"
  shows "flood_inv pb (net\<lparr>net_links := (net_links net)(i := net_links net i @ [k]),
    net_flight := net_flight net + mset (map (Pair k) fs)\<rparr>)"
proof -
  have "static_cache (net_nodes net ! i) \<subseteq> range (serialize pb)"
    using assms(1,2) by (auto simp: flood_inv_def static_listener_ok_def frames_of_def)
  then have "\<forall>(j, f)\<in>set_mset (net_flight net + mset (map (Pair k) fs)). j < length (net_nodes net) \<and> f \<in> range (serialize pb)"
    using assms by (auto simp: flood_inv_def)
  moreover have "f \<in> static_cache (net_nodes net ! j') \<or> (j', f) \<in># net_flight net + mset (map (Pair k) fs)"
    if "j < length (net_nodes net)" "j' \<in> set (((net_links net)(i := net_links net i @ [k])) j)" "f \<in> static_cache (net_nodes net ! j)" for j j' f
  proof (cases "j' \<in> set (net_links net j)")
    case True
    with that assms(1) have "f \<in> static_cache (net_nodes net ! j') \<or> (j', f) \<in># net_flight net"
      by (simp add: flood_inv_def)
    then show ?thesis by auto
  next
    case False
    with that(2,3) have "j = i" "j' = k" by (auto split: if_splits)
    with that(3) assms(4) show ?thesis by simp
  qed
  moreover have "set (((net_links net)(i := net_links net i @ [k])) j) \<subseteq> {..<length (net_nodes net)}" for j
    using assms(1,3) by (simp add: flood_inv_def)
  ultimately show ?thesis using assms(1) unfolding flood_inv_def by simp
qed

lemma flood_inv_step: "flood_inv pb net \<Longrightarrow> flood_step pb net net' \<Longrightarrow> flood_inv pb net'"
proof (erule flood_step.cases)
  fix i n tf forward l
  assume inv: "flood_inv pb net" and "net = n" and i: "i < length (net_nodes n)"
    and s: "listener_send pb tf (net_nodes n ! i) = (forward, l)"
    and "net' = n\<lparr>net_nodes := (net_nodes n)[i := l], net_flight := net_flight n + to_links n i forward (serialize pb tf)\<rparr>"
  moreover have "static_listener_ok pb (net_nodes n ! i)" using calculation by (simp add: flood_inv_def)
  ultimately show "flood_inv pb net'"
    by (auto intro!: flood_inv_take listener_send_ok [OF s])
qed (auto intro: flood_inv_deliver flood_inv_connect simp del: mset_map)

lemma flood_inv_start: "net_start net \<Longrightarrow> flood_inv pb net"
  by (auto simp: net_start_def flood_inv_def static_listener_ok_def frames_of_def listener_new_def TCPClient_new_def)

interpretation flood: invariant_system net_start "flood_step pb" "flood_inv pb" for pb
  by unfold_locales (auto intro: flood_inv_start flood_inv_step)

section \<open>The flood ends\<close>

text \<open>
  The number of deliveries still to come is at most \<open>flood_weight\<close>: the frames on their way, and for every
  node the frames it has not seen times its connections.
\<close>

definition flight_frames :: "'d tf_net \<Rightarrow> bytes set" where
  "flight_frames net = snd ` set_mset (net_flight net)"

definition flood_weight :: "bytes set \<Rightarrow> 'd tf_net \<Rightarrow> nat" where
  "flood_weight F net = size (net_flight net) +
     (\<Sum>i < length (net_nodes net). length (net_links net i) * card (F - static_cache (net_nodes net ! i)))"

lemma flight_frames_deliver:
  assumes "deliver_step pb net net'" and "flight_frames net \<subseteq> F"
  shows "flight_frames net' \<subseteq> F"
  using assms(1)
proof cases
  case (deliver k tf forward l)
  have f: "serialize pb tf \<in> F" using deliver(2) assms(2) by (force simp: flight_frames_def)
  have "snd x \<in> F" if "x \<in># net_flight net - {#(k, serialize pb tf)#} + to_links net k forward (serialize pb tf)" for x
  proof -
    from that have "x \<in># net_flight net \<or> x \<in># to_links net k forward (serialize pb tf)"
      by (meson in_diffD union_iff)
    then show ?thesis using assms(2) f in_to_links [of "fst x" "snd x" net k forward "serialize pb tf"]
      by (auto simp: flight_frames_def)
  qed
  then show ?thesis by (auto simp: flight_frames_def deliver(1))
qed

lemma flood_weight_deliver:
  assumes "deliver_step pb net net'" and "finite F" and "flight_frames net \<subseteq> F"
  shows "flood_weight F net = Suc (flood_weight F net')"
  using assms(1)
proof cases
  case (deliver k tf forward l)
  let ?f = "serialize pb tf"
  let ?N = "length (net_nodes net)"
  let ?w = "\<lambda>net i. length (net_links net i) * card (F - static_cache (net_nodes net ! i))"
  note rec = listener_receive_ok [OF deliver(4)]
  have "?f \<in> F" using deliver(2) assms(3) by (force simp: flight_frames_def)
  have split: "(\<Sum>i < ?N. g i) = g k + (\<Sum>i \<in> {..<?N} - {k}. g i)" for g :: "nat \<Rightarrow> nat"
    using deliver(3) by (intro sum.remove) auto
  have other: "(\<Sum>i \<in> {..<?N} - {k}. ?w net' i) = (\<Sum>i \<in> {..<?N} - {k}. ?w net i)"
    by (rule sum.cong) (auto simp: deliver(1))
  have cache: "static_cache (net_nodes net' ! k) = insert ?f (static_cache (net_nodes net ! k))"
    using deliver(3) rec(2) by (simp add: deliver(1))
  have k: "?w net k = ?w net' k + size (to_links net k forward ?f)"
  proof (cases forward)
    case True
    have "F - static_cache (net_nodes net ! k) = insert ?f (F - insert ?f (static_cache (net_nodes net ! k)))"
      using \<open>?f \<in> F\<close> rec(1) True by blast
    then have "card (F - static_cache (net_nodes net ! k)) = Suc (card (F - insert ?f (static_cache (net_nodes net ! k))))"
      using assms(2) by (metis DiffD2 card_insert_disjoint finite_Diff insertI1)
    with True cache show ?thesis by (simp add: deliver(1) to_links_def)
  next
    case False
    with rec(1) cache show ?thesis by (simp add: deliver(1) to_links_def insert_absorb)
  qed
  have "size (net_flight net) = Suc (size (net_flight net - {#(k, ?f)#}))"
    using deliver(2) by (simp add: size_Suc_Diff1)
  then show ?thesis using split [of "?w net"] split [of "?w net'"] other k
    by (simp add: flood_weight_def deliver(1))
qed

lemma deliver_run_bounded:
  assumes "(deliver_step pb ^^ n) net net'" and "finite F" and "flight_frames net \<subseteq> F"
  shows "n + flood_weight F net' = flood_weight F net"
  using assms
proof (induction n arbitrary: net)
  case (Suc n)
  from Suc.prems(1) obtain m where m: "deliver_step pb net m" "(deliver_step pb ^^ n) m net'"
    by (meson relpowp_Suc_D2)
  with Suc.IH [OF m(2)] flood_weight_deliver [OF m(1) Suc.prems(2,3)] flight_frames_deliver [OF m(1) Suc.prems(3)] Suc.prems(2) show ?case by simp
qed simp

text \<open>A frame on its way can be delivered, so that a network without new events comes to rest.\<close>

lemma deliver_progress:
  assumes "flood_inv pb net" and "net_flight net \<noteq> {#}"
  shows "\<exists>net'. deliver_step pb net net'"
proof -
  obtain k f where "(k, f) \<in># net_flight net" using assms(2) by (metis multiset_nonemptyE surj_pair)
  moreover from this obtain tf where "f = serialize pb tf" "k < length (net_nodes net)"
    using assms(1) by (auto simp: flood_inv_def)
  ultimately show ?thesis
    by (cases "listener_receive pb tf (net_nodes net ! k)") (auto intro: deliver_step.deliver)
qed

lemma flood_rests:
  assumes "flood_inv pb net" and "finite F" and "flight_frames net \<subseteq> F"
  shows "\<exists>net'. (deliver_step pb)\<^sup>*\<^sup>* net net' \<and> net_flight net' = {#}"
  using assms
proof (induction "flood_weight F net" arbitrary: net rule: less_induct)
  case less
  show ?case
  proof (cases "net_flight net = {#}")
    case False
    obtain m where m: "deliver_step pb net m" using deliver_progress [OF less.prems(1) False] by blast
    note w = flood_weight_deliver [OF m less.prems(2,3)] flight_frames_deliver [OF m less.prems(3)]
    from less.hyps [OF _ flood_inv_deliver [OF less.prems(1) m] less.prems(2) w(2)] w(1)
    show ?thesis using m by (auto intro: converse_rtranclp_into_rtranclp)
  qed blast
qed

definition link_rel :: "'d tf_net \<Rightarrow> (nat \<times> nat) set" where
  "link_rel net = {(i, k). i < length (net_nodes net) \<and> k \<in> set (net_links net i)}"

lemma rest_closed:
  assumes "flood_inv pb net" and "net_flight net = {#}" and "(i, k) \<in> (link_rel net)\<^sup>*"
  shows "static_cache (net_nodes net ! i) \<subseteq> static_cache (net_nodes net ! k)"
  using assms(3)
proof induction
  case (step y z)
  with assms(1,2) have "static_cache (net_nodes net ! y) \<subseteq> static_cache (net_nodes net ! z)"
    by (auto simp: link_rel_def flood_inv_def)
  with step.IH show ?case by blast
qed simp

text \<open>Deliveries leave the connections and what was sent as they are, and caches grow.\<close>

lemma deliver_keeps:
  assumes "(deliver_step pb)\<^sup>*\<^sup>* net net'"
  shows "net_links net' = net_links net" and "length (net_nodes net') = length (net_nodes net)"
    and "li_sent (net_nodes net' ! i) = li_sent (net_nodes net ! i)"
  using assms
proof (induction)
  case (step m net')
  {
    case 1
    with step show ?case by (auto elim: deliver_step.cases)
  next
    case 2
    with step show ?case by (auto elim: deliver_step.cases)
  next
    case 3
    from step(2) have "li_sent (net_nodes net' ! i) = li_sent (net_nodes m ! i)"
      by cases (auto simp: nth_list_update dest: listener_receive_ok(4))
    with step show ?case by simp
  }
qed auto

section \<open>Properties\<close>

text \<open>
  C11: static transforms flood the network and the flood ends.  Take any network of nodes that have
  listeners, connected in any way, cycles included, with any history of connections, transforms sent and
  frames delivered.  If nothing new is sent or connected, the number of deliveries is bounded, whatever
  their order, by the frames on their way plus, for every node, its connections times the frames it has
  not seen; the network comes to rest; and whenever it is at rest, every node that is connected, directly or
  over other nodes, to one that has sent a transform has received the frame of that transform, or sent it itself; its
  tree is built from exactly the transforms it has received.
\<close>

theorem static_transforms_flood:
  assumes "net_start net0" and "(flood_step pb)\<^sup>*\<^sup>* net0 net"
  shows "(\<forall>n net'. (deliver_step pb ^^ n) net net' \<longrightarrow> n \<le> flood_weight (flight_frames net) net) \<and>
    (\<exists>net'. (deliver_step pb)\<^sup>*\<^sup>* net net' \<and> net_flight net' = {#}) \<and>
    (\<forall>net' i k tf. (deliver_step pb)\<^sup>*\<^sup>* net net' \<and> net_flight net' = {#} \<and> i < length (net_nodes net) \<and>
       tf \<in> set (li_sent (net_nodes net ! i)) \<and> (i, k) \<in> (link_rel net)\<^sup>* \<longrightarrow>
       serialize pb tf \<in> serialize pb ` (set (li_received (net_nodes net' ! k)) \<union> set (li_sent (net_nodes net' ! k))) \<and>
       li_tree (net_nodes net' ! k) =
         fold (\<lambda>tf. TransformTree_addTransformNode tf True) (li_received (net_nodes net' ! k)) TransformTree_new)"
proof (intro conjI allI impI)
  have inv: "flood_inv pb net" by (rule flood.reachable_inv [OF assms])
  have fin: "finite (flight_frames net)" by (simp add: flight_frames_def)
  fix n net'
  show "n \<le> flood_weight (flight_frames net) net" if "(deliver_step pb ^^ n) net net'"
    using deliver_run_bounded [OF that fin order_refl] by linarith
  show "\<exists>net'. (deliver_step pb)\<^sup>*\<^sup>* net net' \<and> net_flight net' = {#}" by (rule flood_rests [OF inv fin order_refl])
  fix i k tf
  assume run: "(deliver_step pb)\<^sup>*\<^sup>* net net' \<and> net_flight net' = {#} \<and> i < length (net_nodes net) \<and>
       tf \<in> set (li_sent (net_nodes net ! i)) \<and> (i, k) \<in> (link_rel net)\<^sup>*"
  then have inv': "flood_inv pb net'"
    using inv by (auto elim: rtranclp_induct intro: flood_inv_deliver)
  have rel: "link_rel net' = link_rel net" using run deliver_keeps [of pb net net'] by (simp add: link_rel_def)
  have "(i, k) \<in> (link_rel net)\<^sup>*" using run by blast
  then have "k < length (net_nodes net)"
  proof cases
    case (step j)
    then show ?thesis using inv by (auto simp: link_rel_def flood_inv_def)
  qed (use run in simp)
  then have k: "k < length (net_nodes net')" using run deliver_keeps(2) [of pb net net'] by simp
  have ok: "static_listener_ok pb (net_nodes net' ! j)" if "j < length (net_nodes net')" for j
    using inv' that by (simp add: flood_inv_def)
  have "serialize pb tf \<in> static_cache (net_nodes net' ! i)"
    using run ok [of i] deliver_keeps(2,3) [of pb net net'] by (auto simp: static_listener_ok_def frames_of_def)
  moreover have "static_cache (net_nodes net' ! i) \<subseteq> static_cache (net_nodes net' ! k)"
    by (rule rest_closed [OF inv']) (use run rel in simp_all)
  ultimately have "serialize pb tf \<in> static_cache (net_nodes net' ! k)" by (rule rev_subsetD)
  then show "serialize pb tf \<in> serialize pb ` (set (li_received (net_nodes net' ! k)) \<union> set (li_sent (net_nodes net' ! k)))"
    and "li_tree (net_nodes net' ! k) =
         fold (\<lambda>tf. TransformTree_addTransformNode tf True) (li_received (net_nodes net' ! k)) TransformTree_new"
    using ok [OF k] by (simp_all add: static_listener_ok_def frames_of_def)
qed

text \<open>Two listeners that are connected both ways; the first sends a transform.\<close>

definition demo_net :: "int tf_net" where
  "demo_net = \<lparr>net_nodes = [listener_new, listener_new], net_links = (\<lambda>i. if i = 0 then [1] else if i = 1 then [0] else []), net_flight = {#}\<rparr>"

lemma demo_net_reachable:
  "\<exists>net0. net_start net0 \<and> (flood_step pb)\<^sup>*\<^sup>* net0 demo_net"
proof -
  let ?net = "\<lambda>l. \<lparr>net_nodes = [listener_new, listener_new], net_links = l, net_flight = {#}\<rparr> :: int tf_net"
  let ?l1 = "(\<lambda>i :: nat. [])(0 := [1 :: nat])"
  have c: "static_cache (listener_new :: int listener) = {}" by (simp add: listener_new_def TCPClient_new_def)
  have "flood_step pb (?net (\<lambda>i. [])) (?net ?l1)"
    using flood_step.connect [of 0 "?net (\<lambda>i. [])" 1 "[]" pb] c by simp
  moreover have "flood_step pb (?net ?l1) (?net (?l1(1 := [0])))"
    using flood_step.connect [of 1 "?net ?l1" 0 "[]" pb] c by simp
  moreover have "?net (?l1(1 := [0])) = demo_net" by (auto simp: demo_net_def)
  moreover have "net_start (?net (\<lambda>i. []))" by (auto simp: net_start_def numeral_2_eq_2 intro!: exI [of _ 2])
  ultimately show ?thesis by (metis converse_rtranclp_into_rtranclp rtranclp.rtrancl_refl)
qed

theorem static_transforms_flood_witness:
  "\<exists>pb. \<exists>net0 net net' :: int tf_net. net_start net0 \<and> (flood_step pb)\<^sup>*\<^sup>* net0 net \<and>
     size (net_flight net) = 1 \<and> (deliver_step pb)\<^sup>*\<^sup>* net net' \<and> net_flight net' = {#} \<and>
     flood_weight (flight_frames net) net = 2 \<and> li_received (net_nodes net' ! 1) \<noteq> []"
proof -
  fix tf :: "int TransformD" and pb :: "int TransformD protobuf"
  obtain net0 where net0: "net_start net0" "(flood_step pb)\<^sup>*\<^sup>* net0 demo_net" using demo_net_reachable by blast
  let ?l = "snd (listener_send pb tf listener_new)"
  let ?net = "demo_net\<lparr>net_nodes := [?l, listener_new], net_flight := {#(1, serialize pb tf)#}\<rparr>"
  have s: "listener_send pb tf listener_new = (True, ?l)" "static_cache ?l = {serialize pb tf}" "li_sent ?l = [tf]"
    "static_cache (listener_new :: int listener) = {}"
    by (simp_all add: listener_send_def StaticTransformBroadcaster_sendTransform_def publish_static_def
        TCPClient_write_to_cache_def listener_new_def TCPClient_new_def)
  have "flood_step pb demo_net ?net"
    using flood_step.send [of 0 demo_net pb tf True ?l] s(1) by (simp add: demo_net_def to_links_def)
  with net0(2) have run: "(flood_step pb)\<^sup>*\<^sup>* net0 ?net" by (rule rtranclp.rtrancl_into_rtrancl)
  note flood = static_transforms_flood [OF net0(1) run]
  obtain net' where net': "(deliver_step pb)\<^sup>*\<^sup>* ?net net'" "net_flight net' = {#}" using flood by blast
  have "(0, 1) \<in> (link_rel ?net)\<^sup>*" by (rule r_into_rtrancl) (simp add: link_rel_def demo_net_def)
  then have "serialize pb tf \<in> serialize pb ` (set (li_received (net_nodes net' ! 1)) \<union> set (li_sent (net_nodes net' ! 1)))"
    using flood [THEN conjunct2, THEN conjunct2, THEN spec [of _ net'], THEN spec [of _ 0], THEN spec [of _ 1], THEN spec [of _ tf]]
      net' s(3) by simp
  moreover have "li_sent (net_nodes net' ! 1) = []"
    using deliver_keeps(3) [OF net'(1), of 1] by (simp add: listener_new_def)
  ultimately have "li_received (net_nodes net' ! 1) \<noteq> []" by auto
  moreover have "flood_weight (flight_frames ?net) ?net = 2"
    using s(2,4) by (simp add: flood_weight_def flight_frames_def demo_net_def numeral_2_eq_2 lessThan_Suc)
  ultimately show ?thesis using net0(1) run net' by (intro exI [of _ pb] exI [of _ net0] exI [of _ ?net] exI [of _ net']) simp
qed

end
