(* ===== verification/Spec2Isabelle.thy ===== *)
theory Spec2Isabelle
  imports Prelude Process_Flag Serialization Registrar Registrar_Serial Registrar_Wait Async_Socket TCP_Server TCP_Client Transform_Tree Param_RPC Param_Local
    Node_Handler Connection_Wait Service_Server Service_Client Rate_Timer Kqueue Node_System Transform_Network
begin

text \<open>
  ProtoCore2 is a middleware of nodes that exchange messages.  A registrar knows all nodes; every node
  learns from it who the others are and opens a gRPC client to each.  Over these clients the nodes agree
  on topic connections (plain TCP, length-prefixed protobuf messages), service streams and parameters;
  a tree of coordinate frames is built from two topics.  The development models the C++ implementation
  under \<^verbatim>\<open>cpp/include\<close> and \<^verbatim>\<open>cpp/src\<close>.

  \<^bold>\<open>Theories and sources.\<close>

  \<^item> \<^verbatim>\<open>Prelude\<close>: C++ values, errors as the type \<open>cpp_error\<close> with \<open>'a result\<close> (\<open>Inl\<close> is an exception or undefined
    behaviour), vectors, the fact collections, and four locales: \<open>client_club\<close>, the contract of a table of
    one client per node, \<open>stream_codec\<close>, the contract between the two ends of a byte stream,
    \<open>invariant_system\<close>, invariants of step relations, and \<open>simulation\<close>, which extends it by a second step relation
    that is matched by the first.  The club of connection clients and the club of parameter clients both
    interpret the first, the framing of topic messages the second, the step relations the third; the loop
    of \<^verbatim>\<open>Regist\<close> is a simulation of the registrar's session, and the registrar with a node is one of the session and
    one of the node.  The properties use the facts of these interpretations.
  \<^item> \<^verbatim>\<open>Process_Flag\<close> (\<^verbatim>\<open>common.hpp\<close>, \<^verbatim>\<open>exception.hpp\<close>): the flag behind \<^verbatim>\<open>core::ok\<close> and the signal handlers; the flag
    never comes back, and a broken pipe does not end a process that has a node.
  \<^item> \<^verbatim>\<open>Serialization\<close> (\<^verbatim>\<open>serialization.hpp\<close>): \<^verbatim>\<open>serialize\<close>, \<^verbatim>\<open>decode\<close> with its 32-bit arithmetic, \<^verbatim>\<open>handle\<close>.  \<open>deframe\<close> is
    the specification of what a byte string contains; decoding is proved equal to it where the length
    fields do not wrap, and its failure is exactly the wrapped case.
  \<^item> \<^verbatim>\<open>Registrar\<close> (\<^verbatim>\<open>Registrar.hpp\<close>, \<^verbatim>\<open>Registrar.cpp\<close>): the log of registrations with \<^verbatim>\<open>list\<close>, a call of \<^verbatim>\<open>Regist\<close> as a
    polling session, and all calls together as interleaved critical sections (\<open>registry_step\<close>).  A session
    that replays the replies knows exactly the live nodes; the interleaved sections keep the log intact,
    and admit two races that are exhibited.
  \<^item> \<^verbatim>\<open>Registrar_Serial\<close>: the runs of the concurrent calls in which the log is changed serially.  They are runs of the
    interleaved sections, every call in them is a session, and no two live nodes share a name.
  \<^item> \<^verbatim>\<open>Registrar_Wait\<close> (the loop of \<^verbatim>\<open>Regist\<close> and \<^verbatim>\<open>Healthy_Check\<close>): the thread of a call on its condition variable.  A
    notification can be lost; one health check repairs it, and ends the calls of nodes that are gone.
  \<^item> \<^verbatim>\<open>Async_Socket\<close> (\<^verbatim>\<open>AsyncSocket.cpp\<close>), \<^verbatim>\<open>TCP_Server\<close> (\<^verbatim>\<open>TCPServer.cpp\<close>), \<^verbatim>\<open>TCP_Client\<close> (\<^verbatim>\<open>TCPClient.cpp\<close>, \<^verbatim>\<open>Publisher.hpp\<close>):
    the two ends of topic connections.  Invariants of the server's tables under all events; the refinement
    of the server's reading to \<open>deframe\<close>; what a publisher has written and buffered is whole frames.
  \<^item> \<^verbatim>\<open>Transform_Tree\<close> (\<^verbatim>\<open>TransformTree.cpp\<close>): time series, tree, ancestor cache and queries.  Termination of queries
    also when the frames form a loop, and their result as a product of poses along paths.  Time stamps are a linear
    order, the one of \<^verbatim>\<open>operator<\<close>, and what a node answers for a time is stated with it.
  \<^item> \<^verbatim>\<open>Param_RPC\<close> (\<^verbatim>\<open>ParamRPC.hpp\<close>, \<^verbatim>\<open>ParamRPC.cpp\<close>): the parameter server, the watch threads as step relations, the
    clients.  A watch is up to date whenever it sleeps; one whose caller cancels ends with the next change.
  \<^item> \<^verbatim>\<open>Param_Local\<close>: the watch of a parameter of the own node, and when its callback has had the current value.
  \<^item> \<^verbatim>\<open>Node_Handler\<close> (\<^verbatim>\<open>rscl.hpp\<close>, \<^verbatim>\<open>rscl.cpp\<close>, \<^verbatim>\<open>NodeRegist.cpp\<close>): the node's tables, the connection clients, the remote
    procedures of the handshake, and the departure of a node, which joins the threads of its client.
  \<^item> \<^verbatim>\<open>Connection_Wait\<close> (the loops of \<^verbatim>\<open>TopicConnection\<close> and \<^verbatim>\<open>ServiceConnection\<close>, \<^verbatim>\<open>notify_all\<close>): the thread of such a call on its
    condition variable, beside the application.  An advertisement serves a waiting call, except for
    one race, which is stated exactly.
  \<^item> \<^verbatim>\<open>Transform_Network\<close> (the end of \<^verbatim>\<open>TransformTree.cpp\<close>): listeners and broadcasters of a node, and how
    static transforms spread over a network of listeners: the flood ends, and reaches everybody.
  \<^item> \<^verbatim>\<open>Service_Server\<close> (\<^verbatim>\<open>ServiceServer.hpp\<close>), \<^verbatim>\<open>Service_Client\<close> (\<^verbatim>\<open>ServiceClient.hpp\<close>): the two ends of a service
    stream.  \<open>svc_step\<close> interleaves the event thread with the calls, method by method; \<open>fine_step\<close> has the two
    locks of \<^verbatim>\<open>setPrompted\<close> apart; \<open>client_step\<close> interleaves the application with the reading thread.
  \<^item> \<^verbatim>\<open>Rate_Timer\<close> (\<^verbatim>\<open>Rate.hpp\<close>): the periodic timer.
  \<^item> \<^verbatim>\<open>Kqueue\<close>: the macOS branches of \<^verbatim>\<open>AsyncSocket.cpp\<close>, \<^verbatim>\<open>TCPServer.cpp\<close> and \<^verbatim>\<open>Rate.hpp\<close>.  The event handler is proved
    equal to the Linux branch on events that report data; the timer runs the same tasks and judges them
    differently.  All other theories are about the Linux branches.
  \<^item> \<^verbatim>\<open>Node_System\<close> and this theory: the components together.  The registrar with a node
    (\<open>discovery_connects\<close>), the way from a subscription to a connection (\<open>subscription_connects\<close>), from the connection to the
    callbacks (\<open>connection_delivers\<close>), the way of a message from \<^verbatim>\<open>publish\<close> to the callbacks (\<open>publish_to_callback\<close>), a remote parameter (\<open>remote_parameter_arrives\<close>) and a service
    call (\<open>service_round_trip\<close>).

  \<^bold>\<open>Reading the models.\<close>  A class is a record, a method a function of the object.  What the environment
  answers, system calls, protobuf, KDL and gRPC, is an argument; \<open>protobuf_laws\<close> and \<open>kdl_laws\<close> are the
  documented laws of the two libraries, and both are shown to hold for a concrete instance.  A loop that
  waits for the environment recurses over the list of its answers and has the value \<open>None\<close> when they run
  out: \<open>None\<close> means that the code has not returned yet.  \<^verbatim>\<open>climb\<close>, the walk up the tree, is a partial
  function, and that it returns is proved.  No other fuel is used.  Threads interleave at the critical
  sections and atomic accesses of the code, as each step relation says.

  \<^bold>\<open>Bounds.\<close>  Version counters and stream numbers, \<^verbatim>\<open>int\<close> in the code, are natural numbers and agree with
  it below \<open>2 ^ 31\<close>.  The length fields of frames and the flags of epoll are words.  Messages of \<open>2 ^ 31\<close>
  bytes and more are outside of protobuf's own limit and of the theorems that say so.

  \<^bold>\<open>Assumptions about gRPC.\<close>  A completion of a service stream belongs to an operation of the current
  stream of its slot; a stream reports its end once.  Replies on a stream arrive in order.

  \<^bold>\<open>Not modelled.\<close>  Logging, \<^verbatim>\<open>main\<close> and \<^verbatim>\<open>RunServer\<close>, the set-up of gRPC servers and channels, and thread creation.
  \<^verbatim>\<open>core::ok\<close> is an observation of the loops that wait; in the step relations the process runs.  \<^verbatim>\<open>Node.hpp\<close> only declares, \<^verbatim>\<open>pull_possess_tree_request\<close> is empty in the code, and the destructors that join are modelled
  where a theorem is about them (\<open>delete_node_joins\<close>).  The example programs, protocol files, build files
  and the JavaScript part are outside of the C++ library.
\<close>

section \<open>Discovery\<close>

text \<open>For the examples: a node registers while one other node is registered.\<close>

lemma demo_discovery:
  "\<exists>s reply. discovery_start (s, NodeRegist_reply reply (NodeHandler_new ''listener'' ''hello'' None 4000 5000) :: ('b, 'c) NodeHandler) \<and>
     alive_peers (ses_reg s) (ses_own s) ''hello/pub'' = Some (''127.0.0.1'', 4000)"
proof -
  let ?r1 = "snd (Registrar_admit ''hello/pub'' ''127.0.0.1'' 4000 Registrar_init)"
  let ?r2 = "snd (Registrar_admit ''hello/listener'' ''127.0.0.1'' 5000 ?r1)"
  let ?nh = "NodeHandler_new ''listener'' ''hello'' None 4000 5000 :: ('b, 'c) NodeHandler"
  let ?info = "\<lparr>ni_ip = ''127.0.0.1'', ni_port = 5000, ni_name = ''hello/listener'', ni_code = ADD\<rparr>"
  have free: "\<not> Registrar_find_exist_node ''hello/pub'' Registrar_init" "\<not> Registrar_find_exist_node ''hello/listener'' ?r1"
    by (simp_all add: Registrar_find_exist_node_def Registrar_admit_simps Registrar_init_def)
  have h1: "history ?r1" by (rule history.admit [OF history.init free(1)])
  have wf: "log_wf ?r1" "log_wf ?r2" using h1 history.admit [OF h1 free(2)] by (auto intro: history_log_wf)
  have v: "reg_version ?r1 = 1" "reg_version ?r2 = 2"
    by (simp_all add: Registrar_admit_simps Registrar_init_def)
  obtain s reply where s: "session_open ''hello/listener'' ''127.0.0.1'' 5000 ?r1 = Inr s" "ses_reg s = ?r2" "ses_own s = 1"
      "Registrar_list 0 (int (ses_own s) - 1) (ses_reg s) = Inr reply"
    using Registrar_list_sent [OF wf(2), of 0 1] v
    by (auto simp: session_open_def case_prod_beta Registrar_admit_simps)
  have "node_start ?nh" "NodeRegist_request None ?nh = ?info"
    unfolding node_start_def by (blast, simp add: NodeRegist_request_def NodeHandler_new_def)
  from discovery_start.intros [OF h1 this _ _ s(4)] free(2) s(1)
  have start: "discovery_start (s, NodeRegist_reply reply ?nh)" by simp
  have n0: "reg_nodes ?r1 ! 0 = (- 1, \<lparr>ni_ip = ''127.0.0.1'', ni_port = 4000, ni_name = ''hello/pub'', ni_code = ADD\<rparr>)"
    by (simp add: nodes_admit Registrar_init_def)
  have "reg_nodes ?r2 ! 0 = reg_nodes ?r1 ! 0" using log_wfD(1) [OF wf(1)] v(1) by (simp add: nodes_admit)
  then have "alive_peers ?r2 1 ''hello/pub'' = Some (''127.0.0.1'', 4000)"
    using v n0 by (auto simp: alive_peers_def live_def upt_rec)
  with start s(2,3) show ?thesis by auto
qed



section \<open>From handshake to callback\<close>

text \<open>
  When \<^verbatim>\<open>TopicConnection\<close> of a publisher answers a subscriber positively, and the subscriber's server has accepted
  the connection from the address that the publisher's socket has, the thread that receives the answer
  returns, and the server watches exactly this connection, with an empty buffer, for the topic.
\<close>

lemma handshake_maps_connection:
  assumes "NodeConnectionServerImpl_TopicConnection rq obs = Some (Inr (reply, cl, out))" and "rp_object reply \<noteq> []"
    and "\<forall>ob\<in>set obs. ca_getsockname (ob_connect ob) = Some (ip, port)"
    and "tcp_start s0" and "(tcp_step pbs)\<^sup>*\<^sup>* s0 s"
    and "srv_unmapped_addr_to_fd s (addr_token (dotted ip) (uint port)) = Some fd"
    and "fd < length (srv_fd_receive_data s) + 100" and "0 \<le> ctl"
  shows "\<exists>s'. topic_reply_thread pbs ctl True reply rounds s = Some (Inr s') \<and> srv_wf s' \<and>
      conn_view s' = (conn_view s)(fd \<mapsto> (rq_object rq, [])) \<and> subscribers s' = subscribers s \<and>
    (\<exists>ob\<in>set obs. NodeHandler_find_wait_published_topic (rq_object rq) (rq_url rq) (ob_node ob)) \<and>
    (\<exists>x c. cl = Some c \<and> (x \<in> cli_topic_fd c (rq_object rq) \<or> x \<in> set (sock_closed c)))"
proof -
  from TopicConnection_granted [OF assms(1,2)] obtain ob info c where ob: "ob \<in> set obs"
    "NodeHandler_find_wait_published_topic (rq_object rq) (rq_url rq) (ob_node ob)"
    "connect_to_subscriber (rq_object rq) ob = Some (Inr (info, True, c, out))" "cl = Some c"
    "reply = \<lparr>rp_object = rq_object rq, rp_ip = ci_ip info, rp_port = ci_port info, rp_url = rq_url rq\<rparr>"
    by blast
  with connect_to_subscriber_True [OF ob(3)] assms(3) obtain x where
    x: "x \<in> cli_topic_fd c (rq_object rq) \<or> x \<in> set (sock_closed c)" "ci_ip info = dotted ip" "ci_port info = uint port"
    by (metis option.inject prod.inject)
  have wf: "srv_wf s" by (rule tcp.reachable_inv [OF assms(4,5)])
  obtain s' where s': "TCPServer_map_client ctl (rq_object rq) (addr_token (dotted ip) (uint port)) fd s = Inr s'"
    using assms(7) by (simp add: map_client_Inr_iff)
  have "topic_reply_thread pbs ctl True reply rounds s = Some (Inr s')"
    using assms(6) s' x(2,3)
    by (simp add: topic_reply_thread_def NodeHandler_accept_topic_publish_def TCPServer_accept_client.simps ob(5))
  moreover have "srv_wf s'" by (rule srv_wf_map_client [OF wf assms(6) s'])
  moreover note conn_view_map_client [OF wf assms(6) s' assms(8)]
  ultimately show ?thesis using ob(1,2,4) x(1) by blast
qed



text \<open>What arrives on a watched connection, as whole frames of messages, is delivered as far as it has arrived.\<close>

lemma frames_reach_callbacks:
  assumes "srv_wf s" and "rounds_ok pbs ess s" and "spin_rounds pbs (map Epoll_Events ess) s = Inr (s', log)"
    and "conn_view s y = Some (t, [])" and "subscribers s t = Some fs" and "protobuf_laws (pbs t)"
    and "\<forall>es\<in>set ess. \<forall>e\<in>set es. quiet y e" and "rounds_fit (pbs t) [] (map (stream_of y) ess)"
    and "\<forall>m\<in>set ms. pb_ByteSize (pbs t) m < 2 ^ 31"
    and "concat (map (stream_of y) ess) @ rest = concat (map (serialize (pbs t)) ms)"
  shows "\<exists>received. prefix received ms \<and> calls_of y log = deliver fs received \<and> (rest = [] \<longrightarrow> received = ms)"
proof -
  obtain got r where got: "deframe (pbs t) (concat (map (stream_of y) ess)) = Some (got, r)" "prefix got ms"
    "rest = [] \<longrightarrow> got = ms"
    using framing.decode_part [OF assms(6,9,10)] by blast
  have "calls_of y log = deliver fs got"
    using spin_rounds_stream [OF assms(1-7) _ _ assms(8), of got r] got(1) by (simp add: deframe_short)
  with got(2,3) show ?thesis by blast
qed

lemma accepted_fit:
  assumes "subseq accepted (map pub_msg ps)" and "\<forall>p\<in>set ps. pb_ByteSize pb (pub_msg p) < 2 ^ 31"
  shows "\<forall>m\<in>set accepted. pb_ByteSize pb m < 2 ^ 31"
proof
  fix m
  assume "m \<in> set accepted"
  then obtain m' where "m' \<in> set (map pub_msg ps)" "m = m'" by (rule list_emb_set [OF assms(1)])
  then show "pb_ByteSize pb m < 2 ^ 31" using assms(2) by auto
qed




text \<open>
  For the example: a publisher with one cached message that connects to a subscriber and publishes another one,
  and the subscriber's server, which has accepted the connection.
\<close>

definition demo_cached_obs :: "(int, int) topic_obs" where
  "demo_cached_obs = (demo_obs True)\<lparr>ob_thread := \<lparr>ta_select = 1, ta_getsockopt = 0, ta_err = 0,
     ta_cache = [serialize example_pb [8]], ta_errno = E_OTHER, ta_writes = [Wrote 6]\<rparr>\<rparr>"

definition demo_later :: "bytes publication" where
  "demo_later = \<lparr>pub_msg = [7], pub_cache = False, pub_order = [9], pub_errno = E_OTHER, pub_ans = (\<lambda>fd. [Wrote 6])\<rparr>"

definition demo_subscriber :: "(bytes, nat) TCPServer" where
  "demo_subscriber = (register_conn 7 (addr_token (dotted (10, 0, 0, 1)) 5000) demo_start)
     \<lparr>srv_decoders := [''chat'' \<mapsto> \<lparr>dec_msgs = [], dec_functions = [0]\<rparr>]\<rparr>"

lemma demo_cached_connection:
  "NodeConnectionServerImpl_TopicConnection demo_request [demo_cached_obs] =
     Some (Inr (demo_reply, Some demo_connected, serialize example_pb [8]))"
  by (simp add: demo_cached_obs_def demo_obs_def demo_request_def demo_reply_def demo_connect_def demo_connected_def
      NodeHandler_find_wait_published_topic_def NodeHandler_new_def NodeHandler_advertise_def NodeHandler_add_published_topic_def
      connect_to_subscriber_def NodeHandler_add_tcp_client_def TCPClient_add_client_def Socket_create_socket_def
      Socket_set_nonblock_def TCPClient_get_socket_info_def string_of_cstr_def inet_ntop_def empty_client_info_def
      TCPClient_connect_thread_def TCPClient_write_fd_def TCPClient_new_def vec_set_def list_update_same_conv demo_serialize)

lemma demo_later_published:
  "publish_run example_pb ''chat'' [demo_later] demo_connected = Some (Inr (demo_connected, [(9, serialize example_pb [7])]))"
  "clean_run example_pb ''chat'' [demo_later] demo_connected"
  by (simp_all add: demo_later_def demo_connected_def demo_publish clean_publish_def list_update_same_conv)

lemma demo_subscriber_reachable: "(tcp_step (\<lambda>t. example_pb))\<^sup>*\<^sup>* demo_start demo_subscriber"
proof -
  let ?srv = "register_conn 7 (addr_token (dotted (10, 0, 0, 1)) 5000) demo_start"
  have "tcp_step (\<lambda>t. example_pb) demo_start ?srv"
    using accept_step [of demo_start 7 "(10, 0, 0, 1)" 5000 "\<lambda>t. example_pb"] by (auto simp: accept_fresh_def demo_start_eq)
  moreover have "tcp_step (\<lambda>t. example_pb) ?srv demo_subscriber"
    by (rule tcp_step.subscribe [where topic = "''chat''" and url = "get_typeurl example_pb" and cb = 0])
      (simp add: subscribe_decoder_def demo_subscriber_def register_conn_def demo_start_eq SpecifiedDecoder_add_callback_def)
  ultimately show ?thesis by (meson converse_rtranclp_into_rtranclp rtranclp.rtrancl_refl)
qed

lemma demo_delivery_obs:
  "rp_object demo_reply \<noteq> []" "rq_object demo_request = ''chat''"
    "\<forall>ob\<in>set [demo_cached_obs]. ca_getsockname (ob_connect ob) = Some ((10, 0, 0, 1), 5000)"
    "\<forall>ob\<in>set [demo_cached_obs]. Socket_create_socket (ca_sockfd (ob_connect ob)) (ca_getfl (ob_connect ob)) (ca_setfl (ob_connect ob)) = int 9"
    "\<forall>ob\<in>set [demo_cached_obs]. ta_cache (ob_thread ob) = map (serialize example_pb) [[8]] \<and>
      clean_writes (ta_errno (ob_thread ob)) (ta_writes (ob_thread ob)) (concat (ta_cache (ob_thread ob)))"
  by (simp_all add: demo_reply_def demo_request_def demo_cached_obs_def demo_obs_def demo_connect_def Socket_create_socket_def
        Socket_set_nonblock_def demo_serialize)

lemma demo_delivery_srv:
  "srv_unmapped_addr_to_fd demo_subscriber (addr_token (dotted (10, 0, 0, 1)) (uint (5000 :: 16 word))) = Some 7"
    "7 < length (srv_fd_receive_data demo_subscriber) + 100" "(0 :: int) \<le> 0" "subscribers demo_subscriber ''chat'' = Some [0]"
  by (simp_all add: demo_subscriber_def register_conn_def demo_start_eq subscribers_def)

lemma demo_delivery_size:
  "\<forall>m\<in>set [[8]]. pb_ByteSize example_pb m < 2 ^ 31" "\<forall>p\<in>set [demo_later]. pb_ByteSize example_pb (pub_msg p) < 2 ^ 31"
    "9 \<notin> set (sock_closed demo_connected)" "pb_ByteSize example_pb [7] < 2 ^ 31"
  by (simp_all add: example_pb_def demo_later_def demo_connected_def TCPClient_new_def)


section \<open>A remote parameter\<close>



section \<open>A service call\<close>



end
